(* ===== verification/Prelude.thy ===== *)
theory Prelude
  imports Main "HOL-Library.Word" "HOL-Library.AList" "HOL-Library.List_Lexorder"
    "HOL-Library.Multiset"
begin

text \<open>
  Shared vocabulary of the development: Go's machine integers and byte strings, Go maps as
  association lists with distinct keys, \<open>sort.Slice\<close> as a comparator sort, big-endian integer
  encodings, and the generic lemmas the components use.

  \<^item> A Go \<open>string\<close> and a \<open>[]byte\<close> are both sequences of bytes; the conversion between them is the
    identity, so both are \<open>bytes\<close>. \<open>nil\<close> and the empty slice are told apart (by \<open>option\<close>) only
    where the code compares with \<open>nil\<close>.
  \<^item> A Go map is a list of key/value pairs with distinct keys. Its list order stands for one
    iteration order; Go leaves that order open, so no property may depend on it.
  \<^item> \<open>uint64\<close> is \<open>64 word\<close>; \<open>int64\<close> is \<open>64 word\<close> read through \<open>sint\<close>. Instants are \<open>int\<close>
    nanoseconds since the Unix epoch and durations \<open>int\<close> nanoseconds.
\<close>

subsection \<open>Types\<close>

type_synonym byte = "8 word"
type_synonym bytes = "8 word list"
type_synonym gostring = "8 word list"
type_synonym u16 = "16 word"
type_synonym u32 = "32 word"
type_synonym u64 = "64 word"
type_synonym i64 = "64 word"
type_synonym duration = int
type_synonym instant = int
type_synonym ('k, 'v) gomap = "('k \<times> 'v) list"

named_theorems gomap_simps \<open>lookups and keys of updated Go maps\<close>

text \<open>A string literal as bytes.\<close>

definition str :: "string \<Rightarrow> gostring" where
  "str s = map (\<lambda>c. word_of_nat (of_char c)) s"

subsection \<open>Go's truncating division, milliseconds\<close>

definition go_quot :: "int \<Rightarrow> int \<Rightarrow> int" where
  "go_quot a b = sgn a * sgn b * (\<bar>a\<bar> div \<bar>b\<bar>)"

definition Milliseconds :: "duration \<Rightarrow> int" where
  "Milliseconds d = go_quot d 1000000"

definition millisecond :: duration where "millisecond = 1000000"
definition second :: duration where "second = 1000000000"
definition minute :: duration where "minute = 60 * 1000000000"

text \<open>\<open>Time.UnixMilli\<close>: whole milliseconds since the epoch, rounded down, as an \<open>int64\<close>.\<close>

definition UnixMilli :: "instant \<Rightarrow> i64" where
  "UnixMilli t = word_of_int (t div 1000000)"

lemma go_quot_nonneg: "0 \<le> a \<Longrightarrow> 0 < b \<Longrightarrow> go_quot a b = a div b"
  by (cases "a = 0") (auto simp: go_quot_def)

subsection \<open>Go maps\<close>

abbreviation (input) wf_map :: "('k, 'v) gomap \<Rightarrow> bool" where
  "wf_map m \<equiv> distinct (map fst m)"

abbreviation (input) mkeys :: "('k, 'v) gomap \<Rightarrow> 'k set" where
  "mkeys m \<equiv> fst ` set m"

lemma map_of_update [simp, gomap_simps]:
  "map_of (AList.update k v m) k' = (if k' = k then Some v else map_of m k')"
  by (simp add: update_conv')

lemma map_of_delete [simp, gomap_simps]:
  "map_of (AList.delete k m) k' = (if k' = k then None else map_of m k')"
  by (simp add: delete_conv')

lemma wf_update [simp, intro]: "wf_map m \<Longrightarrow> wf_map (AList.update k v m)"
  by (rule distinct_update)

lemma wf_delete [simp, intro]: "wf_map m \<Longrightarrow> wf_map (AList.delete k m)"
  by (rule distinct_delete)

lemma mkeys_update [simp]: "mkeys (AList.update k v m) = insert k (mkeys m)"
  by (induction m) auto

lemma mkeys_map_of: "k \<in> mkeys m \<longleftrightarrow> map_of m k \<noteq> None"
  by (simp add: map_of_eq_None_iff)

lemma keys_update_present: "map_of m k = Some v \<Longrightarrow> map fst (AList.update k w m) = map fst m"
  by (induction m) auto

lemma length_update:
  "length (AList.update k v m) = (if k \<in> mkeys m then length m else Suc (length m))"
  by (induction m) auto

lemma length_update_ge: "length m \<le> length (AList.update k v m)"
  by (simp add: length_update)

lemma length_update_le: "length (AList.update k v m) \<le> Suc (length m)"
  by (simp add: length_update)

lemma set_update_subset: "set (AList.update k v m) \<subseteq> insert (k, v) (set m)"
  by (induction m) auto

lemma ball_update:
  "\<forall>x\<in>set m. P x \<Longrightarrow> P (k, v) \<Longrightarrow> \<forall>x\<in>set (AList.update k v m). P x"
  using set_update_subset [of k v m] by blast

lemma ball_delete: "\<forall>x\<in>set m. P x \<Longrightarrow> \<forall>x\<in>set (AList.delete k m). P x"
  by (simp add: AList.delete_eq)

lemma Nil_less_iff [simp]: "([] :: 'a::order list) < ys \<longleftrightarrow> ys \<noteq> []"
  by (cases ys) auto

lemma less_plus1_iff:
  fixes x y :: "'a::len word"
  assumes "y \<noteq> - 1"
  shows "x < y + 1 \<longleftrightarrow> x \<le> y"
proof -
  have "unat (1 + y) = Suc (unat y)"
    using assms by (intro unatSuc) (simp add: add_eq_0_iff)
  then show ?thesis by (simp add: word_less_nat_alt word_le_nat_alt less_Suc_eq_le add.commute)
qed

lemma option_eqI: "(\<And>r. a = Some r \<longleftrightarrow> b = Some r) \<Longrightarrow> a = b"
  by (cases a; cases b) auto

lemma wf_filter [simp, intro]: "wf_map m \<Longrightarrow> wf_map (filter P m)"
  by (simp add: distinct_map_filter)

lemma map_of_filter_case:
  "wf_map m \<Longrightarrow>
   map_of (filter (\<lambda>(k, v). P k v) m) k =
     (case map_of m k of None \<Rightarrow> None | Some v \<Rightarrow> if P k v then Some v else None)"
proof (induction m)
  case Nil
  then show ?case by simp
next
  case (Cons kv m)
  obtain k' v' where kv: "kv = (k', v')" by (cases kv)
  show ?case
  proof (cases "k = k'")
    case True
    with Cons.prems kv have "map_of m k = None" by (auto simp: map_of_eq_None_iff)
    with Cons True kv show ?thesis by auto
  next
    case False
    with Cons kv show ?thesis by auto
  qed
qed

lemma wf_map_set_eq:
  assumes "wf_map m"
  shows "(k, v) \<in> set m \<longleftrightarrow> map_of m k = Some v"
  using assms by simp

text \<open>Two Go maps with the same lookups have the same entries, whatever their iteration order.\<close>

lemma wf_map_mset_eq:
  assumes "wf_map m" and "wf_map m'" and "map_of m = map_of m'"
  shows "mset m = mset m'"
proof -
  have "set m = set m'"
    using assms by (simp add: map_of_inject_set)
  moreover have "distinct m" "distinct m'"
    using assms by (simp_all add: distinct_map)
  ultimately show ?thesis by (simp add: set_eq_iff_mset_eq_distinct)
qed

lemma disjoint_by_image:
  "\<forall>x\<in>A. f x = t \<Longrightarrow> \<forall>x\<in>B. f x \<in> C \<Longrightarrow> t \<notin> C \<Longrightarrow> A \<inter> B = {}"
  by auto

lemma ball_append_image:
  "\<forall>x\<in>A. f x = t \<Longrightarrow> \<forall>x\<in>B. f x \<in> C \<Longrightarrow> \<forall>x\<in>A \<union> B. f x \<in> insert t C"
  by auto

lemma sorted_wrt_distinct:
  "sorted_wrt R xs \<Longrightarrow> (\<And>x. \<not> R x x) \<Longrightarrow> distinct xs"
  by (induction xs) auto

subsection \<open>sort.Slice\<close>

text \<open>
  \<open>sort.Slice(xs, lt)\<close> as a comparator sort. Go leaves the order of equal elements open; every
  call in the program sorts elements with pairwise different keys under a strict total order, where
  the result is unique (\<open>sort_slice_unique\<close>).
\<close>

fun insert_by :: "('a \<Rightarrow> 'a \<Rightarrow> bool) \<Rightarrow> 'a \<Rightarrow> 'a list \<Rightarrow> 'a list" where
  "insert_by lt x [] = [x]"
| "insert_by lt x (y # ys) = (if lt x y then x # y # ys else y # insert_by lt x ys)"

definition sort_slice :: "('a \<Rightarrow> 'a \<Rightarrow> bool) \<Rightarrow> 'a list \<Rightarrow> 'a list" where
  "sort_slice lt xs = foldr (insert_by lt) xs []"

lemma mset_insert_by [simp]: "mset (insert_by lt x xs) = add_mset x (mset xs)"
  by (induction xs) auto

lemma sort_slice_Nil [simp]: "sort_slice lt [] = []"
  by (simp add: sort_slice_def)

lemma sort_slice_Cons: "sort_slice lt (x # xs) = insert_by lt x (sort_slice lt xs)"
  by (simp add: sort_slice_def)

lemma mset_sort_slice [simp]: "mset (sort_slice lt xs) = mset xs"
  by (induction xs) (auto simp: sort_slice_Cons)

lemma set_sort_slice [simp]: "set (sort_slice lt xs) = set xs"
  by (metis mset_sort_slice set_mset_mset)

lemma length_sort_slice [simp]: "length (sort_slice lt xs) = length xs"
  by (metis mset_sort_slice size_mset)

lemma distinct_sort_slice [simp]: "distinct (sort_slice lt xs) = distinct xs"
  by (metis mset_sort_slice mset_eq_imp_distinct_iff)

lemma distinct_map_sort_slice [simp]:
  "distinct (map f (sort_slice lt xs)) = distinct (map f xs)"
  by (metis mset_sort_slice mset_map mset_eq_imp_distinct_iff)

lemma sort_slice_sorted: "sorted_wrt lt xs \<Longrightarrow> sort_slice lt xs = xs"
proof (induction xs)
  case Nil
  then show ?case by simp
next
  case (Cons x xs)
  then show ?case by (cases xs) (auto simp: sort_slice_Cons)
qed

text \<open>
  The contract of a comparator: a strict total order on the keys of the sorted elements.
\<close>

locale key_order =
  fixes lt :: "'k \<Rightarrow> 'k \<Rightarrow> bool"
  assumes less_irrefl: "\<not> lt k k"
    and less_trans: "lt k l \<Longrightarrow> lt l m \<Longrightarrow> lt k m"
    and less_total: "k \<noteq> l \<Longrightarrow> lt k l \<or> lt l k"
begin

lemma less_asym: "lt k l \<Longrightarrow> \<not> lt l k"
  using less_irrefl less_trans by blast

lemma sorted_insert_by:
  assumes "sorted_wrt (\<lambda>a b. lt (key a) (key b)) ys" and "\<forall>y\<in>set ys. key y \<noteq> key x"
  shows "sorted_wrt (\<lambda>a b. lt (key a) (key b)) (insert_by (\<lambda>a b. lt (key a) (key b)) x ys)"
  using assms
proof (induction ys)
  case Nil
  then show ?case by simp
next
  case (Cons y ys)
  show ?case
  proof (cases "lt (key x) (key y)")
    case True
    with Cons.prems show ?thesis by (auto intro: less_trans)
  next
    case False
    with Cons.prems have "lt (key y) (key x)" using less_total by auto
    moreover have "set (insert_by (\<lambda>a b. lt (key a) (key b)) x ys) = insert x (set ys)"
      by (metis mset_insert_by set_mset_add_mset_insert set_mset_mset)
    ultimately show ?thesis using Cons False by auto
  qed
qed

lemma sorted_sort_slice:
  "distinct (map key xs) \<Longrightarrow>
   sorted_wrt (\<lambda>a b. lt (key a) (key b)) (sort_slice (\<lambda>a b. lt (key a) (key b)) xs)"
proof (induction xs)
  case Nil
  then show ?case by simp
next
  case (Cons x xs)
  then have "key x \<notin> key ` set xs" by simp
  then have "\<forall>y\<in>set (sort_slice (\<lambda>a b. lt (key a) (key b)) xs). key y \<noteq> key x"
    by (metis image_eqI set_sort_slice)
  with Cons show ?case by (simp add: sort_slice_Cons sorted_insert_by)
qed

lemma sorted_wrt_unique:
  assumes "sorted_wrt (\<lambda>a b. lt (key a) (key b)) xs"
    and "sorted_wrt (\<lambda>a b. lt (key a) (key b)) ys" and "set xs = set ys"
  shows "xs = ys"
  using assms
proof (induction xs arbitrary: ys)
  case Nil
  then show ?case by simp
next
  case (Cons x xs)
  then obtain y ys' where ys: "ys = y # ys'" by (cases ys) auto
  have "x = y"
  proof (rule ccontr)
    assume "x \<noteq> y"
    with Cons.prems ys have "lt (key x) (key y)" and "lt (key y) (key x)" by auto
    then show False using less_asym by blast
  qed
  moreover have "x \<notin> set xs" and "y \<notin> set ys'"
    using Cons.prems ys less_irrefl by auto
  ultimately have "set xs = set ys'" using Cons.prems(3) ys by auto
  with Cons ys \<open>x = y\<close> show ?case by auto
qed

text \<open>The sorted slice depends on the elements only, not on the order they came in.\<close>

lemma sort_slice_unique:
  assumes "distinct (map key xs)" and "mset xs = mset ys"
  shows "sort_slice (\<lambda>a b. lt (key a) (key b)) xs = sort_slice (\<lambda>a b. lt (key a) (key b)) ys"
proof (rule sorted_wrt_unique)
  show "sorted_wrt (\<lambda>a b. lt (key a) (key b)) (sort_slice (\<lambda>a b. lt (key a) (key b)) xs)"
    using assms(1) by (rule sorted_sort_slice)
  have "distinct (map key ys)"
    using assms by (metis mset_map mset_eq_imp_distinct_iff)
  then show "sorted_wrt (\<lambda>a b. lt (key a) (key b)) (sort_slice (\<lambda>a b. lt (key a) (key b)) ys)"
    by (rule sorted_sort_slice)
  show "set (sort_slice (\<lambda>a b. lt (key a) (key b)) xs)
      = set (sort_slice (\<lambda>a b. lt (key a) (key b)) ys)"
    using assms(2) by (metis set_sort_slice set_mset_mset)
qed

end

text \<open>Go's \<open><\<close> on strings is the byte-wise lexicographic order.\<close>

interpretation string_order: key_order "(<) :: gostring \<Rightarrow> gostring \<Rightarrow> bool"
  by unfold_locales auto

subsection \<open>Big-endian integers\<close>

fun be :: "nat \<Rightarrow> nat \<Rightarrow> bytes" where
  "be 0 x = []"
| "be (Suc n) x = be n (x div 256) @ [word_of_nat x]"

definition un_be :: "bytes \<Rightarrow> nat" where
  "un_be bs = foldl (\<lambda>a b. a * 256 + unat b) 0 bs"

lemma length_be [simp]: "length (be n x) = n"
  by (induction n arbitrary: x) auto

lemma be_numeral:
  "be (numeral k) x = be (pred_numeral k) (x div 256) @ [word_of_nat x]"
  "be 1 x = [word_of_nat x]"
  by (subst numeral_eq_Suc, rule be.simps) simp

lemma un_be_snoc: "un_be (bs @ [b]) = un_be bs * 256 + unat b"
  by (simp add: un_be_def)

lemma un_be_be [simp]: "un_be (be n x) = x mod 256 ^ n"
proof (induction n arbitrary: x)
  case 0
  then show ?case by (simp add: un_be_def)
next
  case (Suc n)
  have "un_be (be (Suc n) x) = (x div 256) mod 256 ^ n * 256 + x mod 256"
    using Suc by (simp add: un_be_snoc unat_of_nat)
  also have "\<dots> = x mod (256 * 256 ^ n)"
    by (simp only: mod_mult2_eq mult.commute)
  finally show ?case by simp
qed

lemma digit_split:
  fixes A B a b :: nat
  assumes "256 * A + a = 256 * B + b" and "a < 256" and "b < 256"
  shows "A = B" and "a = b"
proof -
  show "A = B" using assms by linarith
  with assms(1) show "a = b" by simp
qed

lemma be_inject: "be n x = be n y \<longleftrightarrow> x mod 256 ^ n = y mod 256 ^ n"
proof
  assume "be n x = be n y"
  then have "un_be (be n x) = un_be (be n y)" by simp
  then show "x mod 256 ^ n = y mod 256 ^ n" by simp
next
  show "x mod 256 ^ n = y mod 256 ^ n \<Longrightarrow> be n x = be n y"
  proof (induction n arbitrary: x y)
    case 0
    then show ?case by simp
  next
    case (Suc n)
    then have "x mod (256 * 256 ^ n) = y mod (256 * 256 ^ n)" by simp
    then have e: "256 * (x div 256 mod 256 ^ n) + x mod 256 = 256 * (y div 256 mod 256 ^ n) + y mod 256"
      by (simp only: mod_mult2_eq)
    have "x mod 256 < 256" "y mod 256 < 256" by simp_all
    note digit_split [OF e this]
    then have d: "x div 256 mod 256 ^ n = y div 256 mod 256 ^ n" and m: "x mod 256 = y mod 256"
      by simp_all
    from m have "(word_of_nat x :: byte) = word_of_nat y"
      by (simp add: word_unat_eq_iff unat_of_nat)
    with Suc.IH[OF d] show ?case by simp
  qed
qed

lemma be_unat_inject:
  "be 8 (unat (x :: u64)) = be 8 (unat y) \<longleftrightarrow> x = y"
proof -
  have "unat x < 2 ^ LENGTH(64)" and "unat y < 2 ^ LENGTH(64)"
    by (rule unsigned_less)+
  then have "unat x < 256 ^ 8" and "unat y < 256 ^ 8" by simp_all
  then show ?thesis by (simp only: be_inject mod_less word_unat_eq_iff)
qed

lemma append_eq_same_length:
  "length xs = length ys \<Longrightarrow> xs @ us = ys @ vs \<longleftrightarrow> xs = ys \<and> us = vs"
  by simp

end
