(* ===== verification/Swarm_Types.thy ===== *)
theory Swarm_Types
  imports Prelude
begin

text \<open>
  The data of \<open>src/swarm.go\<close> and \<open>src/errors.go\<close>: the signed record envelope, roles, the node
  configuration with its defaults and bounds, and the error values. Hooks of the configuration that
  are functions of the application (\<open>TrustCheck\<close>, \<open>TopicTTL\<close>, \<open>PerPeerConfig\<close>) are
  fields holding a function; a \<open>nil\<close> hook is \<open>None\<close>. Of the hooks that return nothing
  (\<open>OnAccepted\<close>, \<open>OnPaused\<close>, \<open>OnResumed\<close>) the fields say whether they are installed; their calls are
  recorded as events of the node.
\<close>

type_synonym NodeID = gostring
type_synonym Topic = gostring

datatype Role = RoleLeaf | RoleEdge | RoleRelay | RoleAnchor

record Record =
  Topic :: Topic
  NodeID :: NodeID
  HLC :: u64
  Body :: bytes
  Tombstone :: bool
  PubKey :: bytes
  Sig :: bytes
  Key :: gostring
  ObserverNodeID :: NodeID
  ObservedAtUnixMs :: i64

text \<open>The zero value \<open>Record{}\<close>.\<close>

definition zero_record :: Record where
  "zero_record = \<lparr>Topic = [], NodeID = [], HLC = 0, Body = [], Tombstone = False, PubKey = [],
     Sig = [], Key = [], ObserverNodeID = [], ObservedAtUnixMs = 0\<rparr>"

definition IsObserverAttestation :: "Record \<Rightarrow> bool" where
  "IsObserverAttestation r \<longleftrightarrow> Tombstone r \<and> ObserverNodeID r \<noteq> []"

record PerPeerConfig =
  AdaptiveInterval :: duration
  BackpressureMax :: int
  BandwidthCap :: u64
  EgressTokens :: u64
  PriorityClass :: byte

definition DefaultPerPeerConfig :: PerPeerConfig where
  "DefaultPerPeerConfig = \<lparr>AdaptiveInterval = 5 * second, BackpressureMax = 256,
     BandwidthCap = 0, EgressTokens = 0, PriorityClass = 0\<rparr>"

record Config =
  cfg_NodeID :: NodeID
  cfg_PrivKey :: bytes
  cfg_PerPeerConfig :: "(NodeID \<Rightarrow> PerPeerConfig) option"
  cfg_MaxRecordBytes :: int
  cfg_TreeDegree :: int
  cfg_GraftDelay :: duration
  cfg_MerkleProbeInterval :: duration
  cfg_TrustCheck :: "(Record \<Rightarrow> gostring option) option"
  cfg_RequireNodeKeyBinding :: bool
  cfg_MaxClockSkew :: duration
  cfg_MaxTopics :: int
  cfg_MaxRecordsPerTopic :: int
  cfg_MaxKeysPerNodePerTopic :: int
  cfg_MaxAttestationsPerTarget :: int
  cfg_MaxPendingIHaves :: int
  cfg_TopicTTL :: "(Topic \<Rightarrow> duration) option"
  cfg_OnAccepted :: bool
  cfg_OnPaused :: bool
  cfg_OnResumed :: bool
  cfg_DisableBackgroundTicker :: bool

definition DefaultObserverQuorum :: int where
  "DefaultObserverQuorum = 2"

definition DefaultObserverCorroborationWindow :: duration where
  "DefaultObserverCorroborationWindow = 5 * minute"

definition observerForwardSkewBudget :: duration where
  "observerForwardSkewBudget = 2 * DefaultObserverCorroborationWindow"

text \<open>
  The sentinel errors of \<open>errors.go\<close>, plus \<open>ErrOther\<close> for the messages made on the spot with
  \<open>errors.New\<close>, errors returned by the transport and the context.
\<close>

datatype error =
    ErrNotImplemented
  | ErrInvalidConfig
  | ErrNoHolders
  | ErrHashMismatch
  | ErrTooLarge
  | ErrTenantNotSet
  | ErrPaused
  | ErrStopped
  | ErrAlreadyStarted
  | ErrAlreadyWired
  | ErrOther gostring

lemma Milliseconds_budget [simp]: "Milliseconds observerForwardSkewBudget = 600000"
  by (simp add: Milliseconds_def observerForwardSkewBudget_def
      DefaultObserverCorroborationWindow_def minute_def go_quot_def)

lemma Milliseconds_window [simp]: "Milliseconds DefaultObserverCorroborationWindow = 300000"
  by (simp add: Milliseconds_def DefaultObserverCorroborationWindow_def minute_def go_quot_def)

end
