(* ===== verification/Hlc.thy ===== *)
theory Hlc
  imports Swarm_Types
begin

text \<open>
  The hybrid logical clock of \<open>src/hlc.go\<close>. The clock is one \<open>uint64\<close> word: the high 48 bits are
  Unix milliseconds, the low 16 bits a counter. \<open>Now\<close> and \<open>observeAt\<close> are compare-and-swap loops;
  \<open>now_next\<close> and \<open>observe_next\<close> are what one iteration computes from the value it loaded,
  \<open>HLC_Now\<close>/\<open>HLC_observeAt\<close> an uncontended call, and \<open>hlc_step\<close> the interleaving of any number of
  goroutines running these loops on the shared word.
\<close>

unbundle bit_operations_syntax

subsection \<open>Packing\<close>

definition packHLC :: "u64 \<Rightarrow> u64 \<Rightarrow> u64" where
  "packHLC wall ctr = push_bit 16 wall OR (ctr AND 0xFFFF)"

definition unpackHLC :: "u64 \<Rightarrow> u64 \<times> u64" where
  "unpackHLC h = (drop_bit 16 h, h AND 0xFFFF)"

definition Decompose :: "u64 \<Rightarrow> u64 \<times> u16" where
  "Decompose h = (let (w, c) = unpackHLC h in (w, ucast c))"

abbreviation hlc_wall :: "u64 \<Rightarrow> u64" where "hlc_wall h \<equiv> fst (unpackHLC h)"
abbreviation hlc_ctr :: "u64 \<Rightarrow> u64" where "hlc_ctr h \<equiv> snd (unpackHLC h)"

lemma and_FFFF: "(c :: u64) AND 0xFFFF = take_bit 16 c"
  by (simp add: take_bit_eq_mask mask_eq_exp_minus_1)

lemma unat_hlc_wall: "unat (hlc_wall h) = unat h div 65536"
  by (simp add: unpackHLC_def drop_bit_eq_div unat_div_distrib)

lemma unat_hlc_ctr: "unat (hlc_ctr h) = unat h mod 65536"
  by (simp add: unpackHLC_def and_FFFF take_bit_eq_mod unat_mod_distrib)

lemma unat_packHLC:
  assumes "unat w < 2 ^ 48"
  shows "unat (packHLC w c) = unat w * 65536 + unat c mod 65536"
proof -
  have "packHLC w c = push_bit 16 w + take_bit 16 c"
    unfolding packHLC_def and_FFFF
    by (rule disjunctive_add [symmetric]) (auto simp: bit_push_bit_iff bit_take_bit_iff)
  moreover have "unat (push_bit 16 w) = unat w * 65536"
    using assms by (simp add: push_bit_eq_mult unat_word_ariths)
  moreover have "unat (take_bit 16 c) = unat c mod 65536"
    by (simp add: take_bit_eq_mod unat_mod_distrib)
  moreover have "unat w * 65536 + unat c mod 65536 < 2 ^ 64"
  proof -
    have "unat c mod 65536 < 65536" by simp
    then show ?thesis using assms by simp
  qed
  ultimately show ?thesis by (simp add: unat_word_ariths)
qed

lemma hlc_wall_bound: "unat (hlc_wall h) < 2 ^ 48"
proof -
  have "unat h < 2 ^ LENGTH(64)" by (rule unsigned_less)
  then show ?thesis unfolding unat_hlc_wall by simp
qed

lemma hlc_ctr_bound: "unat (hlc_ctr h) < 65536"
  by (simp add: unat_hlc_ctr)

lemma unat_hlc_split: "unat h = unat (hlc_wall h) * 65536 + unat (hlc_ctr h)"
  unfolding unat_hlc_wall unat_hlc_ctr by (simp add: div_mult_mod_eq)

lemma pack_unpack: "packHLC (hlc_wall h) (hlc_ctr h) = h"
  unfolding word_unat_eq_iff unat_packHLC [OF hlc_wall_bound]
  using unat_hlc_split [of h] hlc_ctr_bound [of h] by simp

lemma unpack_pack:
  assumes "unat w < 2 ^ 48" and "unat c < 65536"
  shows "unpackHLC (packHLC w c) = (w, c)"
proof -
  have "unat (hlc_wall (packHLC w c)) = unat w" and "unat (hlc_ctr (packHLC w c)) = unat c"
    using assms by (simp_all add: unat_hlc_wall unat_hlc_ctr unat_packHLC)
  then show ?thesis by (metis prod.collapse word_unat_eq_iff)
qed

text \<open>The order of stamps is the lexicographic order of (wall, counter).\<close>

lemma hlc_less_iff:
  "h < h' \<longleftrightarrow> hlc_wall h < hlc_wall h' \<or> hlc_wall h = hlc_wall h' \<and> hlc_ctr h < hlc_ctr h'"
proof -
  have "h < h' \<longleftrightarrow> unat (hlc_wall h) * 65536 + unat (hlc_ctr h)
      < unat (hlc_wall h') * 65536 + unat (hlc_ctr h')"
    by (simp add: word_less_nat_alt flip: unat_hlc_split)
  then show ?thesis
    using hlc_ctr_bound [of h] hlc_ctr_bound [of h']
    unfolding word_less_nat_alt word_unat_eq_iff by linarith
qed

subsection \<open>One iteration of the loops\<close>

text \<open>The value \<open>Now\<close> tries to swap in, from the loaded value and the wall clock it read.\<close>

definition now_next :: "u64 \<Rightarrow> u64 \<Rightarrow> u64" where
  "now_next cur nowWall =
     (let (curWall, curCtr) = unpackHLC cur;
          (nextWall, nextCtr) =
            (if nowWall > curWall then (nowWall, 0) else (curWall, curCtr + 1))
      in packHLC nextWall nextCtr)"

text \<open>The value \<open>observeAt\<close> tries to swap in.\<close>

definition observe_next :: "u64 \<Rightarrow> u64 \<Rightarrow> i64 \<Rightarrow> u64" where
  "observe_next cur remote nowMs =
     (let skewMs = word_of_int (Milliseconds observerForwardSkewBudget);
          nowWall = nowMs;
          (curWall, curCtr) = unpackHLC cur;
          (remoteWall, remoteCtr) = unpackHLC remote;
          (maxWall, maxCtr) =
            (if remoteWall \<le> nowWall + skewMs
             then if remoteWall > curWall \<or> (remoteWall = curWall \<and> remoteCtr > curCtr)
                  then (remoteWall, remoteCtr) else (curWall, curCtr)
             else (curWall, curCtr));
          (maxWall, maxCtr) = (if nowWall > maxWall then (nowWall, 0) else (maxWall, maxCtr))
      in packHLC maxWall maxCtr)"

subsection \<open>Uncontended calls\<close>

definition NewHLC :: "i64 \<Rightarrow> u64" where
  "NewHLC nowMs = packHLC nowMs 0"

text \<open>\<open>HLC_Now state nowMs\<close> is the new state and the returned stamp.\<close>

definition HLC_Now :: "u64 \<Rightarrow> i64 \<Rightarrow> u64 \<times> u64" where
  "HLC_Now st nowMs = (let next = now_next st nowMs in (next, next))"

definition HLC_observeAt :: "u64 \<Rightarrow> u64 \<Rightarrow> i64 \<Rightarrow> u64" where
  "HLC_observeAt st remote nowMs = observe_next st remote nowMs"

definition HLC_Observe :: "u64 \<Rightarrow> u64 \<Rightarrow> i64 \<Rightarrow> u64" where
  "HLC_Observe st remote nowMs = HLC_observeAt st remote nowMs"

subsection \<open>Goroutines on the shared word\<close>

text \<open>
  \<open>loaded i\<close> is the value goroutine \<open>i\<close> loaded in its current iteration, \<open>issued\<close> the stamps
  returned by \<open>Now\<close> in the order of their swaps, newest first. The ghost flag \<open>wrapped\<close> records
  that some \<open>Now\<close> ran on a saturated counter while the wall clock had not advanced.
\<close>

record hlc_sys =
  hlc_state :: u64
  loaded :: "nat \<Rightarrow> u64 option"
  issued :: "u64 list"
  wrapped :: bool

definition saturated :: "u64 \<Rightarrow> u64 \<Rightarrow> bool" where
  "saturated cur nowWall \<longleftrightarrow> \<not> nowWall > hlc_wall cur \<and> hlc_ctr cur = 0xFFFF"

definition hlc_init :: "i64 \<Rightarrow> hlc_sys" where
  "hlc_init nowMs = \<lparr>hlc_state = NewHLC nowMs, loaded = (\<lambda>_. None), issued = [], wrapped = False\<rparr>"

inductive hlc_step :: "hlc_sys \<Rightarrow> hlc_sys \<Rightarrow> bool" where
  load: "loaded s i = None \<Longrightarrow> hlc_step s (s\<lparr>loaded := (loaded s)(i := Some (hlc_state s))\<rparr>)"
| now_swap: "loaded s i = Some cur \<Longrightarrow> hlc_state s = cur \<Longrightarrow> unat nowWall < 2 ^ 48 \<Longrightarrow>
    hlc_step s (s\<lparr>hlc_state := now_next cur nowWall, loaded := (loaded s)(i := None),
      issued := now_next cur nowWall # issued s, wrapped := (wrapped s \<or> saturated cur nowWall)\<rparr>)"
| observe_swap: "loaded s i = Some cur \<Longrightarrow> hlc_state s = cur \<Longrightarrow> unat nowMs < 2 ^ 48 \<Longrightarrow>
    hlc_step s (s\<lparr>hlc_state := observe_next cur remote nowMs, loaded := (loaded s)(i := None)\<rparr>)"
| swap_fails: "loaded s i = Some cur \<Longrightarrow> hlc_state s \<noteq> cur \<Longrightarrow>
    hlc_step s (s\<lparr>loaded := (loaded s)(i := None)\<rparr>)"

inductive hlc_reachable :: "i64 \<Rightarrow> hlc_sys \<Rightarrow> bool" for nowMs where
  start: "hlc_reachable nowMs (hlc_init nowMs)"
| step: "hlc_reachable nowMs s \<Longrightarrow> hlc_step s t \<Longrightarrow> hlc_reachable nowMs t"

inductive_cases hlc_stepE: "hlc_step s t"

subsection \<open>Lemmas\<close>

lemma now_next_eq:
  "now_next cur nowWall =
     (if nowWall > hlc_wall cur then packHLC nowWall 0
      else packHLC (hlc_wall cur) (hlc_ctr cur + 1))"
  by (simp add: now_next_def split: prod.splits)

lemma unat_now_next:
  assumes "unat nowWall < 2 ^ 48"
  shows "unat (now_next cur nowWall) =
     (if nowWall > hlc_wall cur then unat nowWall * 65536
      else unat (hlc_wall cur) * 65536 + (unat (hlc_ctr cur) + 1) mod 65536)"
proof -
  have "unat (hlc_ctr cur + 1) = unat (hlc_ctr cur) + 1"
    using hlc_ctr_bound [of cur] by (simp add: unat_word_ariths)
  then show ?thesis
    using assms hlc_wall_bound [of cur] by (simp add: now_next_eq unat_packHLC)
qed

lemma now_next_greater:
  assumes "unat nowWall < 2 ^ 48" and "\<not> saturated cur nowWall"
  shows "cur < now_next cur nowWall" and "nowWall \<le> hlc_wall (now_next cur nowWall)"
proof -
  consider (adv) "nowWall > hlc_wall cur" | (same) "\<not> nowWall > hlc_wall cur" "hlc_ctr cur \<noteq> 0xFFFF"
    using assms(2) by (auto simp: saturated_def)
  then have "cur < now_next cur nowWall \<and> nowWall \<le> hlc_wall (now_next cur nowWall)"
  proof cases
    case adv
    then have n: "unat (now_next cur nowWall) = unat nowWall * 65536"
      using assms(1) by (simp add: unat_now_next)
    have "unat (hlc_wall cur) < unat nowWall" using adv by (simp add: word_less_nat_alt)
    then have "unat cur < unat (now_next cur nowWall)"
      using n hlc_ctr_bound [of cur] unat_hlc_split [of cur] by linarith
    moreover have "unat (hlc_wall (now_next cur nowWall)) = unat nowWall"
      by (simp add: unat_hlc_wall n)
    ultimately show ?thesis by (simp add: word_less_nat_alt word_le_nat_alt)
  next
    case same
    then have c: "unat (hlc_ctr cur) + 1 < 65536"
      using hlc_ctr_bound [of cur] by (simp add: word_unat_eq_iff)
    then have n: "unat (now_next cur nowWall) = unat (hlc_wall cur) * 65536 + (unat (hlc_ctr cur) + 1)"
      using assms(1) same(1) by (simp add: unat_now_next)
    then have "unat cur < unat (now_next cur nowWall)"
      using unat_hlc_split [of cur] by linarith
    moreover have "unat (hlc_wall (now_next cur nowWall)) = unat (hlc_wall cur)"
      unfolding unat_hlc_wall [of "now_next cur nowWall"] n using c by simp
    moreover have "unat nowWall \<le> unat (hlc_wall cur)"
      using same(1) by (simp add: word_less_nat_alt)
    ultimately show ?thesis by (simp add: word_less_nat_alt word_le_nat_alt)
  qed
  then show "cur < now_next cur nowWall" and "nowWall \<le> hlc_wall (now_next cur nowWall)"
    by simp_all
qed

text \<open>The forward-skew test of \<open>observeAt\<close>.\<close>

definition in_budget :: "u64 \<Rightarrow> i64 \<Rightarrow> bool" where
  "in_budget remote nowMs \<longleftrightarrow> hlc_wall remote \<le> nowMs + 600000"

lemma pack_max_wall:
  assumes "unat nowMs < 2 ^ 48"
  shows "(if nowMs > hlc_wall h then packHLC nowMs 0 else h) = max h (packHLC nowMs 0)"
proof (cases "nowMs > hlc_wall h")
  case True
  have "hlc_wall (packHLC nowMs 0) = nowMs" using assms by (simp add: unpack_pack)
  with True have "h < packHLC nowMs 0" by (simp add: hlc_less_iff [of h "packHLC nowMs 0"])
  with True show ?thesis by (simp add: max.absorb4)
next
  case False
  have "hlc_wall (packHLC nowMs 0) = nowMs" and "hlc_ctr (packHLC nowMs 0) = 0"
    using assms by (simp_all add: unpack_pack)
  with False have "\<not> h < packHLC nowMs 0"
    by (auto simp: hlc_less_iff [of h "packHLC nowMs 0"])
  then have "max h (packHLC nowMs 0) = h" by (simp add: max.absorb1)
  with False show ?thesis by simp
qed

lemma max_by_parts:
  "(if hlc_wall r > hlc_wall c \<or> hlc_wall r = hlc_wall c \<and> hlc_ctr r > hlc_ctr c
    then (hlc_wall r, hlc_ctr r) else (hlc_wall c, hlc_ctr c)) = unpackHLC (max c r)"
proof -
  have "(hlc_wall r > hlc_wall c \<or> hlc_wall r = hlc_wall c \<and> hlc_ctr r > hlc_ctr c) = (c < r)"
    by (auto simp: hlc_less_iff [of c r])
  then show ?thesis
    by (simp only:) (cases "c < r", simp_all add: max.absorb4 max.absorb1)
qed

lemma observe_next_pack:
  "observe_next cur remote nowMs =
     (let m = (if in_budget remote nowMs then max cur remote else cur)
      in if nowMs > hlc_wall m then packHLC nowMs 0 else m)"
proof -
  have "(if hlc_wall remote \<le> nowMs + 600000
         then if hlc_wall remote > hlc_wall cur \<or> hlc_wall remote = hlc_wall cur \<and> hlc_ctr remote > hlc_ctr cur
              then (hlc_wall remote, hlc_ctr remote) else (hlc_wall cur, hlc_ctr cur)
         else (hlc_wall cur, hlc_ctr cur))
      = unpackHLC (if in_budget remote nowMs then max cur remote else cur)"
    unfolding max_by_parts by (simp add: in_budget_def)
  then show ?thesis
    unfolding observe_next_def Let_def Milliseconds_budget
    by (simp add: case_prod_beta pack_unpack)
qed

lemma observe_next_max:
  assumes "unat nowMs < 2 ^ 48"
  shows "observe_next cur remote nowMs =
    max (if in_budget remote nowMs then max cur remote else cur) (packHLC nowMs 0)"
  unfolding observe_next_pack Let_def using assms by (rule pack_max_wall)

subsection \<open>Properties\<close>

text \<open>An uncontended call of \<open>Now\<close> returns the state it leaves behind, and that stamp is strictly
  above the previous state and its wall part never lags the wall clock, unless the 16-bit counter is
  saturated and the wall clock has not advanced.\<close>

theorem hlc_now_monotonic:
  assumes "unat nowMs < 2 ^ 48" and "\<not> saturated st nowMs"
  shows "fst (HLC_Now st nowMs) = snd (HLC_Now st nowMs) \<and> st < snd (HLC_Now st nowMs) \<and>
    nowMs \<le> hlc_wall (snd (HLC_Now st nowMs))"
  using now_next_greater [OF assms] by (simp add: HLC_Now_def Let_def)

theorem hlc_now_monotonic_witness:
  "unat (1000 :: u64) < 2 ^ 48 \<and> \<not> saturated 65536000 1000 \<and> snd (HLC_Now 65536000 1000) = 65536001
   \<and> (65536000 :: u64) < snd (HLC_Now 65536000 1000)"
proof -
  have h: "unat (1000 :: u64) < 2 ^ 48" "\<not> saturated 65536000 1000"
    by (simp_all add: saturated_def unpackHLC_def)
  have "HLC_Now 65536000 1000 = (65536001, 65536001)"
    by (simp add: HLC_Now_def now_next_def unpackHLC_def packHLC_def)
  with h hlc_now_monotonic [OF h] show ?thesis by simp
qed

text \<open>\<open>Observe\<close> computes the maximum of the current state, the wall clock and, when its wall part
  is within the forward-skew budget of the wall clock, the remote stamp; a remote stamp outside the
  budget has no effect.\<close>

theorem hlc_observe_is_max:
  assumes "unat nowMs < 2 ^ 48"
  shows "HLC_Observe st remote nowMs =
    (if in_budget remote nowMs then max (max st remote) (packHLC nowMs 0)
     else max st (packHLC nowMs 0))"
  using observe_next_max [OF assms] by (simp add: HLC_Observe_def HLC_observeAt_def)

theorem hlc_observe_is_max_witness:
  "unat (1000 :: u64) < 2 ^ 48 \<and>
   HLC_Observe 65536000 (packHLC 2000 7) 1000 = packHLC 2000 7 \<and>
   HLC_Observe 65536000 (packHLC 700000 7) 1000 = 65536000"
proof -
  have h: "unat (1000 :: u64) < 2 ^ 48" by simp
  show ?thesis
    using h unfolding hlc_observe_is_max [OF h]
    by (simp add: in_budget_def packHLC_def unpackHLC_def max_def)
qed

text \<open>The shared word under interleaving.\<close>

lemma observe_next_ge:
  assumes "unat nowMs < 2 ^ 48"
  shows "cur \<le> observe_next cur remote nowMs"
  unfolding observe_next_max [OF assms] by (auto simp: le_max_iff_disj)

definition hlc_inv :: "hlc_sys \<Rightarrow> bool" where
  "hlc_inv s \<longleftrightarrow> sorted_wrt (>) (issued s) \<and> (\<forall>x\<in>set (issued s). x \<le> hlc_state s)"

lemma hlc_step_inv:
  assumes "hlc_step s t" and "\<not> wrapped t" and "hlc_inv s"
  shows "hlc_inv t"
  using assms
proof cases
  case (now_swap i cur nowWall)
  with assms(2) have "cur < now_next cur nowWall"
    by (intro now_next_greater) auto
  moreover have "sorted_wrt (>) (issued s)" and "\<forall>x\<in>set (issued s). x \<le> cur"
    using assms(3) now_swap by (auto simp: hlc_inv_def)
  ultimately show ?thesis
    using now_swap by (auto simp: hlc_inv_def)
next
  case (observe_swap i cur nowMs remote)
  then have "hlc_state s \<le> observe_next cur remote nowMs"
    using observe_next_ge by auto
  with observe_swap assms(3) show ?thesis by (auto simp: hlc_inv_def)
qed (auto simp: hlc_inv_def)

lemma hlc_step_wrapped: "hlc_step s t \<Longrightarrow> wrapped s \<Longrightarrow> wrapped t"
  by (auto elim: hlc_stepE)

lemma hlc_reachable_inv: "hlc_reachable nowMs s \<Longrightarrow> \<not> wrapped s \<Longrightarrow> hlc_inv s"
proof (induction rule: hlc_reachable.induct)
  case start
  then show ?case by (simp add: hlc_inv_def hlc_init_def)
next
  case (step s t)
  then show ?case using hlc_step_inv hlc_step_wrapped by blast
qed

text \<open>C28: Under any interleaving of goroutines calling \<open>Now\<close> and \<open>Observe\<close> on one clock, with failed
  swaps retried, the stamps handed out are pairwise different and strictly increasing in the order
  of their swaps, and the clock never falls below a stamp it handed out, as long as no \<open>Now\<close> ran
  on a saturated counter.\<close>

theorem hlc_concurrent_stamps_increase:
  assumes "hlc_reachable nowMs s" and "\<not> wrapped s"
  shows "sorted_wrt (>) (issued s) \<and> distinct (issued s) \<and> (\<forall>x\<in>set (issued s). x \<le> hlc_state s)"
proof -
  have inv: "hlc_inv s" using assms by (rule hlc_reachable_inv)
  then have "sorted_wrt (>) (issued s)" by (simp add: hlc_inv_def)
  then have "distinct (issued s)"
    by (rule sorted_wrt_distinct) simp
  with inv show ?thesis by (simp add: hlc_inv_def)
qed

theorem hlc_concurrent_stamps_increase_witness:
  "\<exists>s. hlc_reachable 1000 s \<and> \<not> wrapped s \<and> issued s = [65536002, 65536001] \<and> distinct (issued s)"
proof -
  define s1 where "s1 = (hlc_init 1000)\<lparr>loaded := (loaded (hlc_init 1000))(0 := Some 65536000)\<rparr>"
  define s2 where "s2 = s1\<lparr>hlc_state := 65536001, loaded := (loaded s1)(0 := None),
    issued := [65536001], wrapped := False\<rparr>"
  define s3 where "s3 = s2\<lparr>loaded := (loaded s2)(1 := Some 65536001)\<rparr>"
  define s4 where "s4 = s3\<lparr>hlc_state := 65536002, loaded := (loaded s3)(1 := None),
    issued := [65536002, 65536001], wrapped := False\<rparr>"
  note defs = hlc_init_def NewHLC_def packHLC_def unpackHLC_def now_next_def saturated_def
    s1_def s2_def s3_def s4_def
  have st1: "hlc_step (hlc_init 1000) s1"
    using hlc_step.load [of "hlc_init 1000" 0] by (simp add: defs)
  have st2: "hlc_step s1 s2"
    using hlc_step.now_swap [of s1 0 65536000 1000] by (simp add: defs)
  have st3: "hlc_step s2 s3"
    using hlc_step.load [of s2 1] by (simp add: defs)
  have st4: "hlc_step s3 s4"
    using hlc_step.now_swap [of s3 1 65536001 1000] by (simp add: defs)
  note r = hlc_reachable.step [OF hlc_reachable.step [OF hlc_reachable.step [OF
    hlc_reachable.step [OF hlc_reachable.start st1] st2] st3] st4]
  have w: "\<not> wrapped s4" and i: "issued s4 = [65536002, 65536001]" by (simp_all add: s4_def)
  from r w i hlc_concurrent_stamps_increase [OF r w] show ?thesis by blast
qed

text \<open>C39: On a saturated counter (the wall clock has not advanced and the counter is 65535) the next
  stamp of \<open>Now\<close> is strictly below the one before: the counter wraps to zero under the same wall
  part, so the monotonicity promised by the type's comment fails there.\<close>

theorem hlc_now_wraps_when_saturated:
  assumes "unat nowMs < 2 ^ 48" and "saturated st nowMs"
  shows "snd (HLC_Now st nowMs) = packHLC (hlc_wall st) 0 \<and> snd (HLC_Now st nowMs) < st"
proof -
  have s: "\<not> nowMs > hlc_wall st" "hlc_ctr st = 0xFFFF"
    using assms(2) by (auto simp: saturated_def)
  then have "unat (now_next st nowMs) = unat (hlc_wall st) * 65536"
    using assms(1) by (simp add: unat_now_next)
  moreover have "unat (packHLC (hlc_wall st) 0) = unat (hlc_wall st) * 65536"
    using hlc_wall_bound [of st] by (simp add: unat_packHLC)
  moreover have "unat st = unat (hlc_wall st) * 65536 + 65535"
    using unat_hlc_split [of st] s(2) by simp
  ultimately show ?thesis
    by (simp add: HLC_Now_def Let_def word_unat_eq_iff word_less_nat_alt)
qed

theorem hlc_now_wraps_when_saturated_witness:
  "saturated 65601535 1000 \<and> snd (HLC_Now 65601535 1000) < 65601535"
proof -
  have h: "unat (1000 :: u64) < 2 ^ 48" "saturated 65601535 1000"
    by (simp_all add: saturated_def unpackHLC_def)
  from h hlc_now_wraps_when_saturated [OF h] show ?thesis by blast
qed

end
