(* ===== verification/Lww.thy ===== *)
theory Lww
  imports Prelude
begin

text \<open>
  The abstract contract of a last-writer-wins map: slots hold at most one value, and a value
  replaces the current one exactly when it is newer. Over a strict weak order the final map of a
  batch of writes is independent of the order and multiplicity of delivery, provided no two
  different writes to one slot tie. The record store and the simulator's flooding node both
  implement this contract.
\<close>

definition lww_apply :: "('r \<Rightarrow> 'r \<Rightarrow> bool) \<Rightarrow> ('r \<Rightarrow> 'k) \<Rightarrow> 'r \<Rightarrow> ('k \<rightharpoonup> 'r) \<Rightarrow> ('k \<rightharpoonup> 'r)" where
  "lww_apply nw slot r m =
     (case m (slot r) of
        None \<Rightarrow> m(slot r \<mapsto> r)
      | Some c \<Rightarrow> if nw r c then m(slot r \<mapsto> r) else m)"

definition lww_pick :: "('r \<Rightarrow> 'r \<Rightarrow> bool) \<Rightarrow> 'r \<Rightarrow> 'r option \<Rightarrow> 'r" where
  "lww_pick nw r x = (case x of None \<Rightarrow> r | Some c \<Rightarrow> if nw r c then r else c)"

lemma lww_apply_pick: "lww_apply nw slot r m = m(slot r \<mapsto> lww_pick nw r (m (slot r)))"
  by (auto simp: lww_apply_def lww_pick_def split: option.split)

text \<open>No two different values of the set compete for one slot with the same rank.\<close>

definition tie_free :: "('r \<Rightarrow> 'r \<Rightarrow> bool) \<Rightarrow> ('r \<Rightarrow> 'k) \<Rightarrow> 'r set \<Rightarrow> bool" where
  "tie_free nw slot S \<longleftrightarrow>
     (\<forall>a\<in>S. \<forall>b\<in>S. slot a = slot b \<longrightarrow> \<not> nw a b \<longrightarrow> \<not> nw b a \<longrightarrow> a = b)"

locale lww_order =
  fixes nw :: "'r \<Rightarrow> 'r \<Rightarrow> bool"
  assumes nw_asym: "nw a b \<Longrightarrow> \<not> nw b a"
    and nw_trans: "nw a b \<Longrightarrow> nw b c \<Longrightarrow> nw a c"
    and nw_cotrans: "\<not> nw a b \<Longrightarrow> \<not> nw b c \<Longrightarrow> \<not> nw a c"
begin

lemma nw_irrefl: "\<not> nw a a"
  using nw_asym by blast

lemma apply_idem: "lww_apply nw slot a (lww_apply nw slot a m) = lww_apply nw slot a m"
  by (simp add: lww_apply_pick lww_pick_def nw_irrefl split: option.split)

lemma pick_commute:
  assumes "\<not> nw a b \<Longrightarrow> \<not> nw b a \<Longrightarrow> a = b"
  shows "lww_pick nw a (Some (lww_pick nw b x)) = lww_pick nw b (Some (lww_pick nw a x))"
proof (cases x)
  case None
  then show ?thesis using assms nw_asym [of a b] by (auto simp: lww_pick_def)
next
  case (Some c)
  consider "nw a b" "\<not> nw b a" | "nw b a" "\<not> nw a b" | "a = b"
    using assms nw_asym by blast
  then show ?thesis
  proof cases
    case 1
    with nw_trans [of a b c] nw_cotrans [of a c b] show ?thesis
      by (simp add: Some lww_pick_def)
  next
    case 2
    with nw_trans [of b a c] nw_cotrans [of b c a] show ?thesis
      by (simp add: Some lww_pick_def)
  next
    case 3
    then show ?thesis by simp
  qed
qed

lemma apply_commute:
  assumes "slot a = slot b \<Longrightarrow> \<not> nw a b \<Longrightarrow> \<not> nw b a \<Longrightarrow> a = b"
  shows "lww_apply nw slot a (lww_apply nw slot b m) = lww_apply nw slot b (lww_apply nw slot a m)"
proof (cases "slot a = slot b")
  case False
  then show ?thesis by (simp add: lww_apply_pick fun_upd_twist)
next
  case True
  with assms have "lww_pick nw a (Some (lww_pick nw b (m (slot b))))
      = lww_pick nw b (Some (lww_pick nw a (m (slot b))))"
    by (intro pick_commute) simp
  with True show ?thesis by (simp add: lww_apply_pick)
qed

text \<open>Delivery order and duplicates do not matter.\<close>

lemma fold_apply_set_eq:
  assumes "tie_free nw slot (set xs)" and "set xs = set ys"
  shows "fold (lww_apply nw slot) xs m = fold (lww_apply nw slot) ys m"
proof -
  have idem: "comp_fun_idem_on (set xs) (lww_apply nw slot)"
  proof
    fix a b assume "a \<in> set xs" and "b \<in> set xs"
    with assms(1) have tie: "slot a = slot b \<Longrightarrow> \<not> nw a b \<Longrightarrow> \<not> nw b a \<Longrightarrow> a = b"
      unfolding tie_free_def by blast
    have "lww_apply nw slot b (lww_apply nw slot a m) = lww_apply nw slot a (lww_apply nw slot b m)" for m
      by (rule apply_commute [symmetric]) (rule tie)
    then show "lww_apply nw slot b \<circ> lww_apply nw slot a = lww_apply nw slot a \<circ> lww_apply nw slot b"
      by (intro ext) (simp only: comp_apply)
  next
    fix a assume "a \<in> set xs"
    show "lww_apply nw slot a \<circ> lww_apply nw slot a = lww_apply nw slot a"
      by (intro ext) (simp only: comp_apply apply_idem)
  qed
  have "fold (lww_apply nw slot) xs m = Finite_Set.fold (lww_apply nw slot) m (set xs)"
    using comp_fun_idem_on.fold_set_fold [OF idem] by simp
  also have "\<dots> = fold (lww_apply nw slot) ys m"
    using comp_fun_idem_on.fold_set_fold [OF idem] assms(2) by simp
  finally show ?thesis .
qed

text \<open>A slot never goes backwards: what it holds afterwards is what it held, or newer.\<close>

lemma apply_monotone:
  assumes "m k = Some c"
  shows "\<exists>c'. lww_apply nw slot r m k = Some c' \<and> (c' = c \<or> nw c' c)"
  using assms by (auto simp: lww_apply_def split: option.splits)

end

end
