(* ===== verification/Crdt.thy ===== *)
theory Crdt
  imports Hlc Lww
begin

text \<open>
  The per-topic record store of \<open>src/crdt.go\<close>: a last-writer-wins map from (node, key) slots to
  records under the HLC/signature order, the observer-attestation accumulator with its K-of-N
  quorum, the restored-at fence, the cardinality caps, the read views and the TTL reaper.

  The store's lock makes every operation atomic, so each operation is a function from the store to
  the new store and the returned values. The wall clock \<open>nowFn\<close> is an argument (\<open>nowMs\<close>, the
  value of \<open>s.nowFn().UnixMilli()\<close> at the call). Maps held by pointer are updated in place in the
  source; here the updated topic is written back with \<open>putTopic\<close>.
\<close>

subsection \<open>Slots\<close>

datatype recordKey = RecordKey (rkNodeID: NodeID) (rkKey: gostring)

definition keyOf :: "Record \<Rightarrow> recordKey" where
  "keyOf r = RecordKey (NodeID r) (Key r)"

definition lessRecordKey :: "recordKey \<Rightarrow> recordKey \<Rightarrow> bool" where
  "lessRecordKey a b =
     (if rkNodeID a \<noteq> rkNodeID b then rkNodeID a < rkNodeID b else rkKey a < rkKey b)"

text \<open>The tie-break on signatures: the first differing byte decides, then the length.\<close>

fun sigLess :: "bytes \<Rightarrow> bytes \<Rightarrow> bool" where
  "sigLess (x # xs) (y # ys) = (if x \<noteq> y then x < y else sigLess xs ys)"
| "sigLess xs ys = (length xs < length ys)"

subsection \<open>State\<close>

record topicStore =
  records :: "(recordKey, Record) gomap"
  attestations :: "(NodeID, (NodeID, Record) gomap) gomap"
  restoredAtUnixMs :: "(NodeID, i64) gomap"

record recordStore =
  byTopic :: "(Topic, topicStore) gomap"
  observerQuorum :: int
  observerCorroborationWindow :: duration
  observerRoleCheck :: "(NodeID \<Rightarrow> bytes \<Rightarrow> bool) option"
  maxTopics :: int
  maxRecordsPerTopic :: int
  maxKeysPerNode :: int
  maxAttestations :: int
  rejectedCap :: u64

definition newTopicStore :: topicStore where
  "newTopicStore = \<lparr>records = [], attestations = [], restoredAtUnixMs = []\<rparr>"

definition DefaultMaxKeysPerNodePerTopic :: int where
  "DefaultMaxKeysPerNodePerTopic = 4096"

definition setCaps :: "recordStore \<Rightarrow> int \<Rightarrow> int \<Rightarrow> int \<Rightarrow> int \<Rightarrow> recordStore" where
  "setCaps s mt mr mk ma =
     s\<lparr>maxTopics := (if mt \<le> 0 then 4096 else mt),
       maxRecordsPerTopic := (if mr \<le> 0 then 65536 else mr),
       maxKeysPerNode := (if mk \<le> 0 then DefaultMaxKeysPerNodePerTopic else mk),
       maxAttestations := (if ma \<le> 0 then 64 else ma)\<rparr>"

definition newRecordStore :: recordStore where
  "newRecordStore = setCaps
     \<lparr>byTopic = [], observerQuorum = DefaultObserverQuorum,
      observerCorroborationWindow = DefaultObserverCorroborationWindow, observerRoleCheck = None,
      maxTopics = 0, maxRecordsPerTopic = 0, maxKeysPerNode = 0, maxAttestations = 0,
      rejectedCap = 0\<rparr> 0 0 0 0"

definition SetObserverRoleCheck ::
  "recordStore \<Rightarrow> (NodeID \<Rightarrow> bytes \<Rightarrow> bool) option \<Rightarrow> recordStore" where
  "SetObserverRoleCheck s fn = s\<lparr>observerRoleCheck := fn\<rparr>"

definition SetObserverQuorum :: "recordStore \<Rightarrow> int \<Rightarrow> duration \<Rightarrow> recordStore" where
  "SetObserverQuorum s k w =
     (if k < 1 \<or> w \<le> 0 then s
      else s\<lparr>observerQuorum := k, observerCorroborationWindow := w\<rparr>)"

definition putTopic :: "recordStore \<Rightarrow> Topic \<Rightarrow> topicStore \<Rightarrow> recordStore" where
  "putTopic s t ts = s\<lparr>byTopic := AList.update t ts (byTopic s)\<rparr>"

definition bumpRejected :: "recordStore \<Rightarrow> recordStore" where
  "bumpRejected s = s\<lparr>rejectedCap := rejectedCap s + 1\<rparr>"

subsection \<open>Per-node views of a topic\<close>

definition nodeSlots :: "topicStore \<Rightarrow> NodeID \<Rightarrow> recordKey list" where
  "nodeSlots ts node =
     sort_slice lessRecordKey (filter (\<lambda>k. rkNodeID k = node) (map fst (records ts)))"

definition nodeDeadAtOrAbove :: "topicStore \<Rightarrow> NodeID \<Rightarrow> u64 \<Rightarrow> bool \<times> bool" where
  "nodeDeadAtOrAbove ts node hlc =
     (let (had, allDead) =
        foldl (\<lambda>(had, allDead) (k, r).
                 if rkNodeID k \<noteq> node then (had, allDead)
                 else (True, allDead \<and> \<not> (\<not> Tombstone r \<or> HLC r < hlc)))
          (False, True) (records ts)
      in (had, had \<and> allDead))"

definition nodePresent :: "topicStore \<Rightarrow> NodeID \<Rightarrow> bool" where
  "nodePresent ts node = list_ex (\<lambda>(k, r). rkNodeID k = node) (records ts)"

subsection \<open>Applying a record\<close>

text \<open>The results of \<open>ApplyExt\<close>: applied, replaced, accumulated.\<close>

type_synonym apply_result = "bool \<times> bool \<times> bool"

text \<open>The write condition of the slot: a higher HLC, or the same HLC and a larger signature.\<close>

definition newer :: "Record \<Rightarrow> Record \<Rightarrow> bool" where
  "newer r cur \<longleftrightarrow> HLC r > HLC cur \<or> (HLC r = HLC cur \<and> sigLess (Sig cur) (Sig r))"

definition stampRestored :: "topicStore \<Rightarrow> Record \<Rightarrow> i64 \<Rightarrow> topicStore" where
  "stampRestored ts r nowMs =
     (if Tombstone r then ts
      else ts\<lparr>restoredAtUnixMs := AList.update (NodeID r) nowMs (restoredAtUnixMs ts)\<rparr>)"

text \<open>A target's witness set: read (nil is empty), written, dropped.\<close>

definition currentWitnesses :: "topicStore \<Rightarrow> NodeID \<Rightarrow> (NodeID, Record) gomap" where
  "currentWitnesses ts n = (case map_of (attestations ts) n of Some wset \<Rightarrow> wset | None \<Rightarrow> [])"

definition putWitnesses :: "topicStore \<Rightarrow> NodeID \<Rightarrow> (NodeID, Record) gomap \<Rightarrow> topicStore" where
  "putWitnesses ts n wset = ts\<lparr>attestations := AList.update n wset (attestations ts)\<rparr>"

definition dropWitnesses :: "topicStore \<Rightarrow> NodeID \<Rightarrow> topicStore" where
  "dropWitnesses ts n = ts\<lparr>attestations := AList.delete n (attestations ts)\<rparr>"

text \<open>The owner path of \<open>ApplyExt\<close>.\<close>

definition applyOwner ::
  "recordStore \<Rightarrow> topicStore \<Rightarrow> i64 \<Rightarrow> Record \<Rightarrow> recordStore \<times> apply_result" where
  "applyOwner s ts nowMs r =
     (let slot = keyOf r in
      case map_of (records ts) slot of
        None \<Rightarrow>
          if int (length (records ts)) \<ge> maxRecordsPerTopic s
          then (bumpRejected s, (False, False, False))
          else if maxKeysPerNode s > 0 \<and>
            int (length (filter (\<lambda>(k, _). rkNodeID k = NodeID r) (records ts))) \<ge> maxKeysPerNode s
          then (bumpRejected s, (False, False, False))
          else (putTopic s (Topic r)
                  (stampRestored (ts\<lparr>records := AList.update slot r (records ts)\<rparr>) r nowMs),
                (True, False, False))
      | Some cur \<Rightarrow>
          if newer r cur
          then (putTopic s (Topic r)
                  (stampRestored
                     (dropWitnesses (ts\<lparr>records := AList.update slot r (records ts)\<rparr>) (NodeID r))
                     r nowMs),
                (True, True, False))
          else (s, (False, True, False)))"

text \<open>The steps of the attestation path over one target's witness set.\<close>

definition newestObserved :: "(NodeID, Record) gomap \<Rightarrow> i64" where
  "newestObserved wset =
     foldl (\<lambda>n (_, a). if sint (ObservedAtUnixMs a) > sint n then ObservedAtUnixMs a else n) 0 wset"

definition pruneWitnesses :: "(NodeID, Record) gomap \<Rightarrow> int \<Rightarrow> (NodeID, Record) gomap" where
  "pruneWitnesses wset winMs =
     (let newest = newestObserved wset
      in filter (\<lambda>(_, a). \<not> sint (newest - ObservedAtUnixMs a) > winMs) wset)"

definition maxWitnessHLC :: "(NodeID, Record) gomap \<Rightarrow> u64" where
  "maxWitnessHLC wset = foldl (\<lambda>m (_, a). if HLC a > m then HLC a else m) 0 wset"

definition synthTombstone :: "Record \<Rightarrow> (NodeID, Record) gomap \<Rightarrow> Record" where
  "synthTombstone att wset =
     zero_record\<lparr>Topic := Topic att, NodeID := NodeID att, HLC := maxWitnessHLC wset + 1,
       Tombstone := True\<rparr>"

text \<open>The loop that tombstones every slot of the dead node.\<close>

definition tombstoneSlots ::
  "Record \<Rightarrow> recordKey list \<Rightarrow> (recordKey, Record) gomap \<Rightarrow> (recordKey, Record) gomap \<times> bool" where
  "tombstoneSlots synth slots recs =
     foldl (\<lambda>(recs, applied) k.
              let cur = (case map_of recs k of Some cur \<Rightarrow> cur | None \<Rightarrow> zero_record)
              in if HLC synth > HLC cur
                 then (AList.update k (synth\<lparr>Key := rkKey k\<rparr>) recs, True)
                 else (recs, applied))
       (recs, False) slots"

definition synthesise ::
  "recordStore \<Rightarrow> topicStore \<Rightarrow> Record \<Rightarrow> (NodeID, Record) gomap \<Rightarrow> recordStore \<times> apply_result" where
  "synthesise s ts att wset =
     (let synth = synthTombstone att wset;
          slots = nodeSlots ts (NodeID att)
      in if slots = []
         then (putTopic s (Topic att)
                 (ts\<lparr>records := AList.update (RecordKey (NodeID att) []) synth (records ts)\<rparr>),
               (True, False, True))
         else let (recs, applied) = tombstoneSlots synth slots (records ts)
              in (putTopic s (Topic att) (ts\<lparr>records := recs\<rparr>), (applied, True, True)))"

definition applyAttestationLocked ::
  "recordStore \<Rightarrow> topicStore \<Rightarrow> i64 \<Rightarrow> Record \<Rightarrow> recordStore \<times> apply_result" where
  "applyAttestationLocked s ts nowMs att =
     (if (case observerRoleCheck s of
            Some check \<Rightarrow> \<not> check (ObserverNodeID att) (PubKey att) | None \<Rightarrow> False)
      then (s, (False, False, False))
      else if sint (ObservedAtUnixMs att)
              > sint (nowMs + word_of_int (Milliseconds observerForwardSkewBudget))
      then (s, (False, False, False))
      else if (case map_of (restoredAtUnixMs ts) (NodeID att) of
                 Some hwm \<Rightarrow> sint (ObservedAtUnixMs att) \<le> sint hwm | None \<Rightarrow> False)
      then (s, (False, False, False))
      else if (case nodeDeadAtOrAbove ts (NodeID att) (HLC att) of (had, allDead) \<Rightarrow> had \<and> allDead)
      then (s, (False, True, False))
      else
        let wset = currentWitnesses ts (NodeID att);
            ts0 = putWitnesses ts (NodeID att) wset
        in if (case map_of wset (ObserverNodeID att) of
                 Some cur \<Rightarrow> sint (ObservedAtUnixMs att) \<le> sint (ObservedAtUnixMs cur)
                             \<and> HLC att \<le> HLC cur
               | None \<Rightarrow> False)
           then (putTopic s (Topic att) ts0, (False, True, False))
           else if map_of wset (ObserverNodeID att) = None \<and> int (length wset) \<ge> maxAttestations s
           then (bumpRejected (putTopic s (Topic att) ts0), (False, True, False))
           else
             let set1 = AList.update (ObserverNodeID att) att wset;
                 set2 = pruneWitnesses set1 (Milliseconds (observerCorroborationWindow s));
                 ts1 = putWitnesses ts0 (NodeID att) set2
             in if int (length set2) < observerQuorum s
                then (putTopic s (Topic att)
                        (if set2 = [] then dropWitnesses ts1 (NodeID att) else ts1),
                      (False, nodePresent ts (NodeID att), True))
                else synthesise s ts1 att set2)"

definition ApplyExt :: "recordStore \<Rightarrow> i64 \<Rightarrow> Record \<Rightarrow> recordStore \<times> apply_result" where
  "ApplyExt s nowMs r =
     (case map_of (byTopic s) (Topic r) of
        None \<Rightarrow>
          if int (length (byTopic s)) \<ge> maxTopics s
          then (bumpRejected s, (False, False, False))
          else (let s1 = putTopic s (Topic r) newTopicStore
                in if IsObserverAttestation r
                   then applyAttestationLocked s1 newTopicStore nowMs r
                   else applyOwner s1 newTopicStore nowMs r)
      | Some ts \<Rightarrow>
          if IsObserverAttestation r
          then applyAttestationLocked s ts nowMs r
          else applyOwner s ts nowMs r)"

definition Apply :: "recordStore \<Rightarrow> i64 \<Rightarrow> Record \<Rightarrow> recordStore \<times> bool \<times> bool" where
  "Apply s nowMs r =
     (let (s', applied, replaced, _) = ApplyExt s nowMs r in (s', applied, replaced))"

subsection \<open>Reads\<close>

text \<open>
  A \<open>(Record, bool)\<close> result is an \<open>option\<close>. \<open>cloneRecord\<close> copies byte slices so that callers
  cannot alias the store; on values it is the identity.
\<close>

definition cloneRecord :: "Record \<Rightarrow> Record" where
  "cloneRecord r = r\<lparr>Body := Body r, Sig := Sig r, PubKey := PubKey r\<rparr>"

definition getRawKeyed :: "recordStore \<Rightarrow> Topic \<Rightarrow> NodeID \<Rightarrow> gostring \<Rightarrow> Record option" where
  "getRawKeyed s topic node key =
     (case map_of (byTopic s) topic of
        None \<Rightarrow> None
      | Some ts \<Rightarrow> map_of (records ts) (RecordKey node key))"

definition getRaw :: "recordStore \<Rightarrow> Topic \<Rightarrow> NodeID \<Rightarrow> Record option" where
  "getRaw s topic node = getRawKeyed s topic node []"

definition GetKeyed :: "recordStore \<Rightarrow> Topic \<Rightarrow> NodeID \<Rightarrow> gostring \<Rightarrow> Record option" where
  "GetKeyed s topic node key =
     (case map_of (byTopic s) topic of
        None \<Rightarrow> None
      | Some ts \<Rightarrow>
          (case map_of (records ts) (RecordKey node key) of
             None \<Rightarrow> None
           | Some r \<Rightarrow> if Tombstone r then None else Some (cloneRecord r)))"

definition Get :: "recordStore \<Rightarrow> Topic \<Rightarrow> NodeID \<Rightarrow> Record option" where
  "Get s topic node = GetKeyed s topic node []"

definition NodeRecords :: "recordStore \<Rightarrow> Topic \<Rightarrow> NodeID \<Rightarrow> Record list" where
  "NodeRecords s topic node =
     (case map_of (byTopic s) topic of
        None \<Rightarrow> []
      | Some ts \<Rightarrow>
          let keys = sort_slice lessRecordKey
                (map fst (filter (\<lambda>(k, r). rkNodeID k = node \<and> \<not> Tombstone r) (records ts)))
          in List.map_filter (\<lambda>k. map_option cloneRecord (map_of (records ts) k)) keys)"

definition topicRecordsWhere :: "recordStore \<Rightarrow> Topic \<Rightarrow> (Record \<Rightarrow> bool) \<Rightarrow> Record list" where
  "topicRecordsWhere s topic keep =
     (case map_of (byTopic s) topic of
        None \<Rightarrow> []
      | Some ts \<Rightarrow>
          sort_slice (\<lambda>a b. lessRecordKey (keyOf a) (keyOf b))
            (filter keep (map snd (records ts))))"

definition TopicRecords :: "recordStore \<Rightarrow> Topic \<Rightarrow> Record list" where
  "TopicRecords s topic = map cloneRecord (topicRecordsWhere s topic (\<lambda>r. \<not> Tombstone r))"

definition topicRecordsAll :: "recordStore \<Rightarrow> Topic \<Rightarrow> Record list" where
  "topicRecordsAll s topic = topicRecordsWhere s topic (\<lambda>_. True)"

definition topicRecordsSigned :: "recordStore \<Rightarrow> Topic \<Rightarrow> Record list" where
  "topicRecordsSigned s topic = topicRecordsWhere s topic (\<lambda>r. length (Sig r) > 0)"

definition lessAttestation :: "Record \<Rightarrow> Record \<Rightarrow> bool" where
  "lessAttestation a b =
     (if NodeID a \<noteq> NodeID b then NodeID a < NodeID b else ObserverNodeID a < ObserverNodeID b)"

definition topicAttestations :: "recordStore \<Rightarrow> Topic \<Rightarrow> Record list" where
  "topicAttestations s topic =
     (case map_of (byTopic s) topic of
        None \<Rightarrow> []
      | Some ts \<Rightarrow>
          sort_slice lessAttestation
            (concat (map (\<lambda>(_, wset). map snd wset) (attestations ts))))"

definition Topics :: "recordStore \<Rightarrow> Topic list" where
  "Topics s = sort_slice (<) (map fst (byTopic s))"

definition Count :: "recordStore \<Rightarrow> nat" where
  "Count s = foldl (\<lambda>total (_, ts). total + length (records ts)) 0 (byTopic s)"

definition TopicCount :: "recordStore \<Rightarrow> Topic \<Rightarrow> nat" where
  "TopicCount s topic =
     (case map_of (byTopic s) topic of None \<Rightarrow> 0 | Some ts \<Rightarrow> length (records ts))"

subsection \<open>TTL retention\<close>

definition expired :: "i64 \<Rightarrow> int \<Rightarrow> Record \<Rightarrow> bool" where
  "expired nowMs ttlMs r =
     (let wallMs = fst (Decompose (HLC r));
          ageMs = sint (nowMs - wallMs)
      in \<not> Tombstone r \<and> ageMs > ttlMs \<or> Tombstone r \<and> ageMs > 2 * ttlMs)"

definition reapTopic :: "i64 \<Rightarrow> int \<Rightarrow> topicStore \<Rightarrow> topicStore \<times> nat" where
  "reapTopic nowMs ttlMs ts =
     (let recs = filter (\<lambda>(_, r). \<not> expired nowMs ttlMs r) (records ts);
          ts1 = ts\<lparr>records := recs\<rparr>;
          ts2 = ts1\<lparr>restoredAtUnixMs :=
                  filter (\<lambda>(node, _). nodePresent ts1 node) (restoredAtUnixMs ts)\<rparr>
      in (ts2, length (filter (\<lambda>(_, r). expired nowMs ttlMs r) (records ts))))"

fun reapTopics ::
  "i64 \<Rightarrow> (Topic \<Rightarrow> duration) \<Rightarrow> (Topic, topicStore) gomap \<Rightarrow> (Topic, topicStore) gomap \<times> nat" where
  "reapTopics nowMs ttlFor [] = ([], 0)"
| "reapTopics nowMs ttlFor ((topic, ts) # rest) =
     (let (rest', n) = reapTopics nowMs ttlFor rest;
          ttl = ttlFor topic
      in if ttl \<le> 0 then ((topic, ts) # rest', n)
         else let (ts', dropped) = reapTopic nowMs (Milliseconds ttl) ts
              in (if records ts' = [] \<and> attestations ts' = [] then rest' else (topic, ts') # rest',
                  n + dropped))"

definition reapExpired ::
  "recordStore \<Rightarrow> i64 \<Rightarrow> (Topic \<Rightarrow> duration) option \<Rightarrow> recordStore \<times> nat" where
  "reapExpired s nowMs ttlFor =
     (case ttlFor of
        None \<Rightarrow> (s, 0)
      | Some f \<Rightarrow> (let (bt, dropped) = reapTopics nowMs f (byTopic s)
                   in (s\<lparr>byTopic := bt\<rparr>, dropped)))"

subsection \<open>Orders\<close>

lemma sigLess_iff: "sigLess a b \<longleftrightarrow> a < b"
  by (induction a b rule: sigLess.induct) auto

lemma rk_eq_iff: "a = b \<longleftrightarrow> rkNodeID a = rkNodeID b \<and> rkKey a = rkKey b"
  by (auto intro: recordKey.expand)

interpretation slot_order: key_order lessRecordKey
  by unfold_locales (auto simp: lessRecordKey_def rk_eq_iff split: if_splits)

interpretation record_lww: lww_order newer
proof
  show "newer a b \<Longrightarrow> \<not> newer b a" for a b
    by (auto simp: newer_def sigLess_iff)
  show "newer a b \<Longrightarrow> newer b c \<Longrightarrow> newer a c" for a b c
    by (auto simp: newer_def sigLess_iff)
  show "\<not> newer a b \<Longrightarrow> \<not> newer b c \<Longrightarrow> \<not> newer a c" for a b c
    by (auto simp: newer_def sigLess_iff not_less)
qed

subsection \<open>Well-formed stores\<close>

text \<open>
  Every map has distinct keys, a slot holds a record of that slot and topic which is not an
  attestation, and a witness set holds attestations filed under their target and observer.
\<close>

definition wf_witnesses :: "Topic \<Rightarrow> NodeID \<Rightarrow> (NodeID, Record) gomap \<Rightarrow> bool" where
  "wf_witnesses t n wset \<longleftrightarrow> wf_map wset \<and>
     (\<forall>(o', a)\<in>set wset. IsObserverAttestation a \<and> ObserverNodeID a = o' \<and> NodeID a = n \<and> Topic a = t)"

definition wf_records :: "Topic \<Rightarrow> (recordKey, Record) gomap \<Rightarrow> bool" where
  "wf_records t recs \<longleftrightarrow> wf_map recs \<and>
     (\<forall>(k, r)\<in>set recs. keyOf r = k \<and> Topic r = t \<and> \<not> IsObserverAttestation r)"

definition wf_topic :: "Topic \<Rightarrow> topicStore \<Rightarrow> bool" where
  "wf_topic t ts \<longleftrightarrow> wf_records t (records ts) \<and> wf_map (attestations ts) \<and>
     (\<forall>(n, wset)\<in>set (attestations ts). wf_witnesses t n wset) \<and> wf_map (restoredAtUnixMs ts)"

definition wf_store :: "recordStore \<Rightarrow> bool" where
  "wf_store s \<longleftrightarrow> wf_map (byTopic s) \<and> (\<forall>(t, ts)\<in>set (byTopic s). wf_topic t ts) \<and>
     int (length (byTopic s)) \<le> maxTopics s"

lemma wf_topic_new [simp]: "wf_topic t newTopicStore"
  by (simp add: wf_topic_def wf_records_def newTopicStore_def)

lemma wf_store_new [simp]: "wf_store newRecordStore"
  by (simp add: wf_store_def newRecordStore_def setCaps_def)

lemma wf_storeD: "wf_store s \<Longrightarrow> map_of (byTopic s) t = Some ts \<Longrightarrow> wf_topic t ts"
  by (auto simp: wf_store_def dest: map_of_SomeD)

lemma wf_records_update:
  assumes "wf_records t recs" and "keyOf r = k" and "Topic r = t" and "\<not> IsObserverAttestation r"
  shows "wf_records t (AList.update k r recs)"
  using assms unfolding wf_records_def by (intro conjI ball_update) auto

lemma wf_records_filter: "wf_records t recs \<Longrightarrow> wf_records t (filter P recs)"
  by (auto simp: wf_records_def)

lemma wf_recordsD:
  "wf_records t recs \<Longrightarrow> map_of recs k = Some r \<Longrightarrow>
   keyOf r = k \<and> Topic r = t \<and> \<not> IsObserverAttestation r"
  by (auto simp: wf_records_def dest: map_of_SomeD)

lemma wf_witnesses_update:
  assumes "wf_witnesses t n wset" and "IsObserverAttestation a" and "NodeID a = n" and "Topic a = t"
  shows "wf_witnesses t n (AList.update (ObserverNodeID a) a wset)"
  using assms unfolding wf_witnesses_def by (intro conjI ball_update) auto

lemma wf_witnesses_filter: "wf_witnesses t n wset \<Longrightarrow> wf_witnesses t n (filter P wset)"
  by (auto simp: wf_witnesses_def)

lemma wf_witnesses_prune: "wf_witnesses t n wset \<Longrightarrow> wf_witnesses t n (pruneWitnesses wset w)"
  by (simp add: pruneWitnesses_def Let_def wf_witnesses_filter)

lemma wf_topic_put_witnesses:
  assumes "wf_topic t ts" and "wf_witnesses t n wset"
  shows "wf_topic t (putWitnesses ts n wset)"
proof -
  have "\<forall>x\<in>set (AList.update n wset (attestations ts)). case x of (n, w) \<Rightarrow> wf_witnesses t n w"
    using assms unfolding wf_topic_def by (intro ball_update) auto
  with assms show ?thesis by (simp add: wf_topic_def putWitnesses_def dropWitnesses_def)
qed

lemma wf_topic_delete_witnesses:
  assumes "wf_topic t ts"
  shows "wf_topic t (dropWitnesses ts n)"
proof -
  have "\<forall>x\<in>set (AList.delete n (attestations ts)). case x of (n, w) \<Rightarrow> wf_witnesses t n w"
    using assms unfolding wf_topic_def by (intro ball_delete) auto
  with assms show ?thesis by (simp add: wf_topic_def putWitnesses_def dropWitnesses_def)
qed

lemma wf_topic_put_records:
  "wf_topic t ts \<Longrightarrow> wf_records t recs \<Longrightarrow> wf_topic t (ts\<lparr>records := recs\<rparr>)"
  by (simp add: wf_topic_def)

lemma wf_topic_stamp: "wf_topic t ts \<Longrightarrow> wf_topic t (stampRestored ts r nowMs)"
  by (simp add: wf_topic_def stampRestored_def)

lemma wf_topic_witnesses:
  "wf_topic t ts \<Longrightarrow>
   wf_witnesses t n (currentWitnesses ts n)"
  by (auto simp: currentWitnesses_def wf_topic_def wf_witnesses_def dest: map_of_SomeD split: option.split)

lemma wf_store_putTopic:
  assumes "wf_store s" and "wf_topic t ts"
    and "map_of (byTopic s) t \<noteq> None \<or> int (length (byTopic s)) < maxTopics s"
  shows "wf_store (putTopic s t ts)"
proof -
  have "int (length (AList.update t ts (byTopic s))) \<le> maxTopics s"
    using assms(1,3) by (auto simp: length_update mkeys_map_of wf_store_def)
  moreover have "\<forall>x\<in>set (AList.update t ts (byTopic s)). case x of (t, ts) \<Rightarrow> wf_topic t ts"
    using assms unfolding wf_store_def by (intro ball_update) auto
  ultimately show ?thesis using assms(1) by (simp add: wf_store_def putTopic_def)
qed

lemma wf_store_bump [simp]: "wf_store (bumpRejected s) = wf_store s"
  by (simp add: wf_store_def bumpRejected_def)

end
