(* ===== verification/Crdt_Inv.thy ===== *)
theory Crdt_Inv
  imports Crdt
begin

text \<open>
  The well-formedness invariant of the record store and the frame lemmas of its operations: what
  \<open>ApplyExt\<close> and \<open>reapExpired\<close> keep, and the case analysis of \<open>ApplyExt\<close> the other store
  theories build on.
\<close>

subsection \<open>Lookups through the two map levels\<close>

definition slotMap :: "recordStore \<Rightarrow> Topic \<Rightarrow> recordKey \<rightharpoonup> Record" where
  "slotMap s t = (case map_of (byTopic s) t of None \<Rightarrow> Map.empty | Some ts \<Rightarrow> map_of (records ts))"

definition witnessesOf :: "recordStore \<Rightarrow> Topic \<Rightarrow> NodeID \<Rightarrow> (NodeID, Record) gomap" where
  "witnessesOf s t n =
     (case map_of (byTopic s) t of
        None \<Rightarrow> []
      | Some ts \<Rightarrow> (case map_of (attestations ts) n of Some w \<Rightarrow> w | None \<Rightarrow> []))"

definition restoredAt :: "recordStore \<Rightarrow> Topic \<Rightarrow> NodeID \<Rightarrow> i64 option" where
  "restoredAt s t n =
     (case map_of (byTopic s) t of None \<Rightarrow> None | Some ts \<Rightarrow> map_of (restoredAtUnixMs ts) n)"

lemma getRawKeyed_slotMap: "getRawKeyed s t n k = slotMap s t (RecordKey n k)"
  by (simp add: getRawKeyed_def slotMap_def split: option.split)

lemma byTopic_putTopic [simp]: "byTopic (putTopic s t ts) = AList.update t ts (byTopic s)"
  by (simp add: putTopic_def)

lemma byTopic_bump [simp]: "byTopic (bumpRejected s) = byTopic s"
  by (simp add: bumpRejected_def)

lemma putTopic_fields [simp]:
  "observerQuorum (putTopic s t ts) = observerQuorum s"
  "observerCorroborationWindow (putTopic s t ts) = observerCorroborationWindow s"
  "observerRoleCheck (putTopic s t ts) = observerRoleCheck s"
  "maxTopics (putTopic s t ts) = maxTopics s"
  "maxRecordsPerTopic (putTopic s t ts) = maxRecordsPerTopic s"
  "maxKeysPerNode (putTopic s t ts) = maxKeysPerNode s"
  "maxAttestations (putTopic s t ts) = maxAttestations s"
  by (simp_all add: putTopic_def)

lemma bump_fields [simp]:
  "observerQuorum (bumpRejected s) = observerQuorum s"
  "observerCorroborationWindow (bumpRejected s) = observerCorroborationWindow s"
  "observerRoleCheck (bumpRejected s) = observerRoleCheck s"
  "maxTopics (bumpRejected s) = maxTopics s"
  "maxRecordsPerTopic (bumpRejected s) = maxRecordsPerTopic s"
  "maxKeysPerNode (bumpRejected s) = maxKeysPerNode s"
  "maxAttestations (bumpRejected s) = maxAttestations s"
  by (simp_all add: bumpRejected_def)

lemma slotMap_putTopic:
  "slotMap (putTopic s t ts) t' = (if t' = t then map_of (records ts) else slotMap s t')"
  by (simp add: slotMap_def)

lemma slotMap_bump [simp]: "slotMap (bumpRejected s) = slotMap s"
  by (simp add: slotMap_def fun_eq_iff)

lemma slotMap_topic: "map_of (byTopic s) t = Some ts \<Longrightarrow> slotMap s t = map_of (records ts)"
  by (simp add: slotMap_def)

text \<open>A slot of a well-formed store holds a record of that slot.\<close>

lemma slotMap_wf:
  assumes "wf_store s" and "slotMap s t k = Some r"
  shows "keyOf r = k \<and> Topic r = t"
proof -
  obtain ts where ts: "map_of (byTopic s) t = Some ts" "map_of (records ts) k = Some r"
    using assms(2) by (auto simp: slotMap_def split: option.splits)
  have "wf_topic t ts" using assms(1) map_of_SomeD [OF ts(1)] by (auto simp: wf_store_def)
  then have "wf_records t (records ts)" by (simp add: wf_topic_def)
  from wf_recordsD [OF this ts(2)] show ?thesis by simp
qed

lemma records_stampRestored [simp]: "records (stampRestored ts r nowMs) = records ts"
  by (simp add: stampRestored_def)

lemma attestations_stampRestored [simp]: "attestations (stampRestored ts r nowMs) = attestations ts"
  by (simp add: stampRestored_def)

subsection \<open>Case analysis of ApplyExt\<close>

text \<open>
  Unless a new topic is refused, \<open>ApplyExt\<close> runs the owner or the attestation path on an existing
  topic entry; opening the entry of a new topic changes no slot, witness set or fence.
\<close>

lemma ApplyExt_cases [consumes 1, case_names capped owner attestation]:
  assumes "wf_store s"
  obtains
    (capped) "map_of (byTopic s) (Topic r) = None" "int (length (byTopic s)) \<ge> maxTopics s"
      "ApplyExt s nowMs r = (bumpRejected s, (False, False, False))"
  | (owner) s1 ts where "\<not> IsObserverAttestation r" "ApplyExt s nowMs r = applyOwner s1 ts nowMs r"
      "map_of (byTopic s1) (Topic r) = Some ts" "wf_store s1" "wf_topic (Topic r) ts"
      "s1 = s \<or> map_of (byTopic s) (Topic r) = None \<and> s1 = putTopic s (Topic r) newTopicStore"
      "slotMap s1 = slotMap s" "restoredAt s1 = restoredAt s" "witnessesOf s1 = witnessesOf s"
  | (attestation) s1 ts where "IsObserverAttestation r"
      "ApplyExt s nowMs r = applyAttestationLocked s1 ts nowMs r"
      "map_of (byTopic s1) (Topic r) = Some ts" "wf_store s1" "wf_topic (Topic r) ts"
      "s1 = s \<or> map_of (byTopic s) (Topic r) = None \<and> s1 = putTopic s (Topic r) newTopicStore"
      "slotMap s1 = slotMap s" "restoredAt s1 = restoredAt s" "witnessesOf s1 = witnessesOf s"
proof (cases "map_of (byTopic s) (Topic r)")
  case (Some ts)
  then have "wf_topic (Topic r) ts" using assms by (rule wf_storeD [rotated])
  with Some assms owner [of s ts] attestation [of s ts] show ?thesis
    by (cases "IsObserverAttestation r") (simp_all add: ApplyExt_def)
next
  case None
  show ?thesis
  proof (cases "int (length (byTopic s)) \<ge> maxTopics s")
    case True
    with None show ?thesis by (intro capped) (simp_all add: ApplyExt_def)
  next
    case False
    let ?s1 = "putTopic s (Topic r) newTopicStore"
    have wf: "wf_store ?s1" using assms False by (intro wf_store_putTopic) auto
    have eqs: "slotMap ?s1 = slotMap s" "restoredAt ?s1 = restoredAt s" "witnessesOf ?s1 = witnessesOf s"
      using None by (auto simp: fun_eq_iff slotMap_def restoredAt_def witnessesOf_def newTopicStore_def)
    from None False wf eqs owner [of ?s1 newTopicStore] attestation [of ?s1 newTopicStore]
    show ?thesis by (cases "IsObserverAttestation r") (simp_all add: ApplyExt_def)
  qed
qed

subsection \<open>The tombstoning loop\<close>

lemma tombstoneSlots_Nil [simp]: "tombstoneSlots synth [] recs = (recs, False)"
  by (simp add: tombstoneSlots_def)

lemma tombstoneSlots_snoc:
  "tombstoneSlots synth (ks @ [k]) recs =
     (let (recs', applied) = tombstoneSlots synth ks recs;
          cur = (case map_of recs' k of Some cur \<Rightarrow> cur | None \<Rightarrow> zero_record)
      in if HLC synth > HLC cur then (AList.update k (synth\<lparr>Key := rkKey k\<rparr>) recs', True)
         else (recs', applied))"
  by (simp add: tombstoneSlots_def case_prod_beta)

lemma tombstoneSlots_lookup:
  assumes "distinct slots"
  shows "map_of (fst (tombstoneSlots synth slots recs)) k =
    (if k \<in> set slots \<and> HLC synth > HLC (case map_of recs k of Some cur \<Rightarrow> cur | None \<Rightarrow> zero_record)
     then Some (synth\<lparr>Key := rkKey k\<rparr>) else map_of recs k)"
  using assms
proof (induction slots arbitrary: k rule: rev_induct)
  case Nil
  then show ?case by simp
next
  case (snoc k' ks)
  then have "k' \<notin> set ks" by simp
  with snoc.prems have "map_of (fst (tombstoneSlots synth ks recs)) k' = map_of recs k'"
    by (simp add: snoc.IH)
  with snoc show ?case
    by (auto simp: tombstoneSlots_snoc Let_def case_prod_beta)
qed

lemma tombstoneSlots_applied:
  assumes "distinct slots"
  shows "snd (tombstoneSlots synth slots recs) \<longleftrightarrow>
    (\<exists>k\<in>set slots. HLC synth > HLC (case map_of recs k of Some cur \<Rightarrow> cur | None \<Rightarrow> zero_record))"
  using assms
proof (induction slots rule: rev_induct)
  case Nil
  then show ?case by simp
next
  case (snoc k' ks)
  then have "map_of (fst (tombstoneSlots synth ks recs)) k' = map_of recs k'"
    by (simp add: tombstoneSlots_lookup)
  with snoc show ?case
    by (simp add: tombstoneSlots_snoc Let_def case_prod_beta)
qed

lemma wf_records_tombstoneSlots:
  assumes "wf_records t recs" and "NodeID synth = n" and "Topic synth = t"
    and "ObserverNodeID synth = []" and "\<forall>k\<in>set slots. rkNodeID k = n"
  shows "wf_records t (fst (tombstoneSlots synth slots recs))"
  using assms
proof (induction slots rule: rev_induct)
  case Nil
  then show ?case by simp
next
  case (snoc k ks)
  then have "wf_records t (fst (tombstoneSlots synth ks recs))" by simp
  with snoc.prems show ?case
    by (auto simp: tombstoneSlots_snoc Let_def case_prod_beta keyOf_def rk_eq_iff
        IsObserverAttestation_def intro!: wf_records_update)
qed

lemma set_nodeSlots: "set (nodeSlots ts n) = {k \<in> mkeys (records ts). rkNodeID k = n}"
  by (auto simp: nodeSlots_def)

lemma distinct_nodeSlots: "wf_records t (records ts) \<Longrightarrow> distinct (nodeSlots ts n)"
  by (simp add: nodeSlots_def wf_records_def)

subsection \<open>Case analysis of the attestation path\<close>

lemma witnesses_fields [simp]:
  "records (putWitnesses ts n w) = records ts"
  "restoredAtUnixMs (putWitnesses ts n w) = restoredAtUnixMs ts"
  "attestations (putWitnesses ts n w) = AList.update n w (attestations ts)"
  "records (dropWitnesses ts n) = records ts"
  "restoredAtUnixMs (dropWitnesses ts n) = restoredAtUnixMs ts"
  "attestations (dropWitnesses ts n) = AList.delete n (attestations ts)"
  by (simp_all add: putWitnesses_def dropWitnesses_def)

text \<open>The four refusals before the witness set is touched, negated.\<close>

definition admissible :: "recordStore \<Rightarrow> topicStore \<Rightarrow> i64 \<Rightarrow> Record \<Rightarrow> bool" where
  "admissible s ts nowMs att \<longleftrightarrow>
     (case observerRoleCheck s of
        Some check \<Rightarrow> check (ObserverNodeID att) (PubKey att) | None \<Rightarrow> True) \<and>
     sint (ObservedAtUnixMs att) \<le> sint (nowMs + 600000) \<and>
     (case map_of (restoredAtUnixMs ts) (NodeID att) of
        Some hwm \<Rightarrow> sint hwm < sint (ObservedAtUnixMs att) | None \<Rightarrow> True) \<and>
     \<not> snd (nodeDeadAtOrAbove ts (NodeID att) (HLC att))"

text \<open>The witness set after the attestation is filed and the window pruned.\<close>

definition nextWitnesses :: "recordStore \<Rightarrow> topicStore \<Rightarrow> Record \<Rightarrow> (NodeID, Record) gomap" where
  "nextWitnesses s ts att =
     pruneWitnesses (AList.update (ObserverNodeID att) att (currentWitnesses ts (NodeID att)))
       (Milliseconds (observerCorroborationWindow s))"

definition witnessStale :: "topicStore \<Rightarrow> Record \<Rightarrow> bool" where
  "witnessStale ts att =
     (case map_of (currentWitnesses ts (NodeID att)) (ObserverNodeID att) of
        Some cur \<Rightarrow> sint (ObservedAtUnixMs att) \<le> sint (ObservedAtUnixMs cur) \<and> HLC att \<le> HLC cur
      | None \<Rightarrow> False)"

definition witnessCapped :: "recordStore \<Rightarrow> topicStore \<Rightarrow> Record \<Rightarrow> bool" where
  "witnessCapped s ts att \<longleftrightarrow>
     map_of (currentWitnesses ts (NodeID att)) (ObserverNodeID att) = None \<and>
     int (length (currentWitnesses ts (NodeID att))) \<ge> maxAttestations s"

lemma putWitnesses_twice [simp]: "putWitnesses (putWitnesses ts n w) n w' = putWitnesses ts n w'"
  by (simp add: putWitnesses_def)

lemma nodeDead_had: "snd (nodeDeadAtOrAbove ts n h) \<Longrightarrow> fst (nodeDeadAtOrAbove ts n h)"
  by (simp add: nodeDeadAtOrAbove_def case_prod_beta)

lemma early_returns:
  "\<not> (\<not> a \<and> \<not> b \<and> \<not> c \<and> \<not> d) \<Longrightarrow>
   \<exists>v. (if a then (s, (False, False, False)) else if b then (s, (False, False, False))
        else if c then (s, (False, False, False)) else if d then (s, (False, True, False)) else X)
      = (s, (False, v, False))"
  "\<not> a \<and> \<not> b \<and> \<not> c \<and> \<not> d \<Longrightarrow>
   (if a then (s, (False, False, False)) else if b then (s, (False, False, False))
        else if c then (s, (False, False, False)) else if d then (s, (False, True, False)) else X) = X"
  by auto

lemma attestation_cases [case_names refused stale capped accumulated synthesised]:
  obtains
    (refused) b where "\<not> admissible s ts nowMs att"
      "applyAttestationLocked s ts nowMs att = (s, (False, b, False))"
  | (stale) "admissible s ts nowMs att" "witnessStale ts att"
      "applyAttestationLocked s ts nowMs att =
        (putTopic s (Topic att) (putWitnesses ts (NodeID att) (currentWitnesses ts (NodeID att))),
         (False, True, False))"
  | (capped) "admissible s ts nowMs att" "\<not> witnessStale ts att" "witnessCapped s ts att"
      "applyAttestationLocked s ts nowMs att =
        (bumpRejected
           (putTopic s (Topic att) (putWitnesses ts (NodeID att) (currentWitnesses ts (NodeID att)))),
         (False, True, False))"
  | (accumulated) "admissible s ts nowMs att" "\<not> witnessStale ts att" "\<not> witnessCapped s ts att"
      "int (length (nextWitnesses s ts att)) < observerQuorum s"
      "applyAttestationLocked s ts nowMs att =
        (putTopic s (Topic att)
           (if nextWitnesses s ts att = []
            then dropWitnesses (putWitnesses ts (NodeID att) []) (NodeID att)
            else putWitnesses ts (NodeID att) (nextWitnesses s ts att)),
         (False, nodePresent ts (NodeID att), True))"
  | (synthesised) "admissible s ts nowMs att" "\<not> witnessStale ts att" "\<not> witnessCapped s ts att"
      "int (length (nextWitnesses s ts att)) \<ge> observerQuorum s"
      "applyAttestationLocked s ts nowMs att =
        synthesise s (putWitnesses ts (NodeID att) (nextWitnesses s ts att)) att
          (nextWitnesses s ts att)"
proof -
  have adm: "admissible s ts nowMs att \<longleftrightarrow>
      \<not> (case observerRoleCheck s of
          Some check \<Rightarrow> \<not> check (ObserverNodeID att) (PubKey att) | None \<Rightarrow> False) \<and>
      \<not> sint (ObservedAtUnixMs att) > sint (nowMs + word_of_int (Milliseconds observerForwardSkewBudget)) \<and>
      \<not> (case map_of (restoredAtUnixMs ts) (NodeID att) of
          Some hwm \<Rightarrow> sint (ObservedAtUnixMs att) \<le> sint hwm | None \<Rightarrow> False) \<and>
      \<not> (case nodeDeadAtOrAbove ts (NodeID att) (HLC att) of (had, allDead) \<Rightarrow> had \<and> allDead)"
    using nodeDead_had [of ts "NodeID att" "HLC att"]
    by (auto simp: admissible_def case_prod_beta not_less not_le split: option.split)
  show ?thesis
  proof (cases "admissible s ts nowMs att")
    case False
    then have "\<exists>b. applyAttestationLocked s ts nowMs att = (s, (False, b, False))"
      unfolding adm applyAttestationLocked_def by (rule early_returns(1))
    with False refused show ?thesis by blast
  next
    case True
    then have eq: "applyAttestationLocked s ts nowMs att =
        (if witnessStale ts att
         then (putTopic s (Topic att) (putWitnesses ts (NodeID att) (currentWitnesses ts (NodeID att))),
               (False, True, False))
         else if witnessCapped s ts att
         then (bumpRejected
                 (putTopic s (Topic att) (putWitnesses ts (NodeID att) (currentWitnesses ts (NodeID att)))),
               (False, True, False))
         else if int (length (nextWitnesses s ts att)) < observerQuorum s
         then (putTopic s (Topic att)
                 (if nextWitnesses s ts att = []
                  then dropWitnesses (putWitnesses ts (NodeID att) (nextWitnesses s ts att)) (NodeID att)
                  else putWitnesses ts (NodeID att) (nextWitnesses s ts att)),
               (False, nodePresent ts (NodeID att), True))
         else synthesise s (putWitnesses ts (NodeID att) (nextWitnesses s ts att)) att
                (nextWitnesses s ts att))"
      unfolding adm applyAttestationLocked_def Let_def witnessStale_def witnessCapped_def
        nextWitnesses_def putWitnesses_twice
      by (rule early_returns(2))
    let ?q = "int (length (nextWitnesses s ts att)) < observerQuorum s"
    consider "witnessStale ts att" | "\<not> witnessStale ts att" "witnessCapped s ts att"
      | "\<not> witnessStale ts att" "\<not> witnessCapped s ts att" ?q
      | "\<not> witnessStale ts att" "\<not> witnessCapped s ts att" "\<not> ?q" by blast
    then show ?thesis
    proof cases
      case 1
      show ?thesis by (rule stale [OF True 1]) (simp only: eq 1 if_True)
    next
      case 2
      show ?thesis by (rule capped [OF True 2]) (simp only: eq 2 if_True if_False)
    next
      case 3
      show ?thesis
        by (rule accumulated [OF True 3]) (simp only: eq 3 if_True if_False cong: if_cong)
    next
      case 4
      then have "observerQuorum s \<le> int (length (nextWitnesses s ts att))" by simp
      then show ?thesis
        by (rule synthesised [OF True 4(1,2)]) (simp only: eq 4 if_False)
    qed
  qed
qed

subsection \<open>Every operation keeps the store well-formed\<close>

lemma applyOwner_wf:
  assumes "wf_store s" and "map_of (byTopic s) (Topic r) = Some ts" and "\<not> IsObserverAttestation r"
  shows "wf_store (fst (applyOwner s ts nowMs r))"
proof -
  have wf: "wf_topic (Topic r) ts" using assms(1,2) by (rule wf_storeD)
  then have "wf_records (Topic r) (AList.update (keyOf r) r (records ts))"
    using assms(3) by (intro wf_records_update) (simp_all add: wf_topic_def)
  then have t: "wf_topic (Topic r) (ts\<lparr>records := AList.update (keyOf r) r (records ts)\<rparr>)"
    by (rule wf_topic_put_records [OF wf])
  have put: "wf_store (putTopic s (Topic r) x)" if "wf_topic (Topic r) x" for x
    using assms that by (intro wf_store_putTopic) simp_all
  show ?thesis
    unfolding applyOwner_def Let_def
    using assms(1) put [OF wf_topic_stamp [OF t]]
      put [OF wf_topic_stamp [OF wf_topic_delete_witnesses [OF t]]]
    by (simp split: option.split)
qed

lemma synthesise_wf:
  assumes "wf_store s" and "map_of (byTopic s) (Topic att) \<noteq> None" and "wf_topic (Topic att) ts"
  shows "wf_store (fst (synthesise s ts att wset))"
proof -
  have wr: "wf_records (Topic att) (records ts)" using assms(3) by (simp add: wf_topic_def)
  have "wf_records (Topic att)
      (AList.update (RecordKey (NodeID att) []) (synthTombstone att wset) (records ts))"
    using wr by (rule wf_records_update)
      (simp_all add: synthTombstone_def keyOf_def zero_record_def IsObserverAttestation_def)
  moreover have "wf_records (Topic att)
      (fst (tombstoneSlots (synthTombstone att wset) (nodeSlots ts (NodeID att)) (records ts)))"
    using wr by (rule wf_records_tombstoneSlots)
      (auto simp: synthTombstone_def zero_record_def set_nodeSlots)
  ultimately show ?thesis
    using assms by (auto simp: synthesise_def Let_def case_prod_beta
        intro!: wf_store_putTopic wf_topic_put_records)
qed

lemma applyAttestationLocked_wf:
  assumes "wf_store s" and "map_of (byTopic s) (Topic att) = Some ts" and "IsObserverAttestation att"
  shows "wf_store (fst (applyAttestationLocked s ts nowMs att))"
proof -
  let ?n = "NodeID att" and ?t = "Topic att"
  have wf: "wf_topic ?t ts" using assms(1,2) by (rule wf_storeD)
  have w: "wf_witnesses ?t ?n (currentWitnesses ts ?n)" using wf by (rule wf_topic_witnesses)
  have "wf_witnesses ?t ?n (nextWitnesses s ts att)"
    unfolding nextWitnesses_def
    using w assms(3) by (intro wf_witnesses_prune wf_witnesses_update) simp_all
  note t1 = wf_topic_put_witnesses [OF wf this]
  have t0: "wf_topic ?t (putWitnesses ts ?n (currentWitnesses ts ?n))"
    using wf w by (rule wf_topic_put_witnesses)
  have td: "wf_topic ?t (dropWitnesses (putWitnesses ts ?n []) ?n)"
    using wf by (intro wf_topic_delete_witnesses wf_topic_put_witnesses) (simp_all add: wf_witnesses_def)
  have put: "wf_store (putTopic s ?t x)" if "wf_topic ?t x" for x
    using assms that by (intro wf_store_putTopic) simp_all
  have syn: "wf_store (fst (synthesise s (putWitnesses ts ?n (nextWitnesses s ts att)) att
      (nextWitnesses s ts att)))"
    using assms t1 by (intro synthesise_wf) simp_all
  show ?thesis
    by (cases rule: attestation_cases [where s = s and ts = ts and nowMs = nowMs and att = att])
      (use assms(1) put [OF t0] put [OF t1] put [OF td] syn in simp_all)
qed

lemma ApplyExt_wf:
  assumes "wf_store s"
  shows "wf_store (fst (ApplyExt s nowMs r))"
  using assms
proof (cases rule: ApplyExt_cases [where r = r and nowMs = nowMs])
  case capped
  with assms show ?thesis by simp
next
  case (owner s1 ts)
  then show ?thesis by (simp add: applyOwner_wf)
next
  case (attestation s1 ts)
  then show ?thesis by (simp add: applyAttestationLocked_wf)
qed

text \<open>The configuration of a store: everything but its contents and the rejection counter.\<close>

definition storeConfig :: "recordStore \<Rightarrow> recordStore" where
  "storeConfig s = s\<lparr>byTopic := [], rejectedCap := 0\<rparr>"

lemma storeConfig_simps [simp]:
  "storeConfig (putTopic s t ts) = storeConfig s"
  "storeConfig (bumpRejected s) = storeConfig s"
  by (simp_all add: storeConfig_def putTopic_def bumpRejected_def)

lemma storeConfigD:
  assumes "storeConfig s = storeConfig s'"
  shows "observerQuorum s = observerQuorum s'"
    and "observerCorroborationWindow s = observerCorroborationWindow s'"
    and "observerRoleCheck s = observerRoleCheck s'"
    and "maxTopics s = maxTopics s'"
    and "maxRecordsPerTopic s = maxRecordsPerTopic s'"
    and "maxKeysPerNode s = maxKeysPerNode s'"
    and "maxAttestations s = maxAttestations s'"
  using assms unfolding storeConfig_def by (cases s; cases s'; simp)+

lemma synthesise_config: "storeConfig (fst (synthesise s ts att w)) = storeConfig s"
  by (simp add: synthesise_def Let_def case_prod_beta)

lemma applyOwner_config: "storeConfig (fst (applyOwner s ts nowMs r)) = storeConfig s"
  by (simp add: applyOwner_def Let_def split: option.split)

lemma applyAttestationLocked_config:
  "storeConfig (fst (applyAttestationLocked s ts nowMs att)) = storeConfig s"
  by (cases rule: attestation_cases [where s = s and ts = ts and nowMs = nowMs and att = att])
    (simp_all add: synthesise_config)

lemma ApplyExt_config: "storeConfig (fst (ApplyExt s nowMs r)) = storeConfig s"
  by (simp add: ApplyExt_def Let_def applyOwner_config applyAttestationLocked_config
      split: option.split)

lemmas ApplyExt_configD = storeConfigD [OF ApplyExt_config]

lemma reapTopic_wf: "wf_topic t ts \<Longrightarrow> wf_topic t (fst (reapTopic nowMs ttlMs ts))"
  by (simp add: reapTopic_def Let_def wf_topic_def wf_records_filter)

lemma reapTopics_keys: "set (map fst (fst (reapTopics nowMs f bt))) \<subseteq> set (map fst bt)"
  by (induction nowMs f bt rule: reapTopics.induct) (auto simp: Let_def case_prod_beta)

lemma reapTopics_wf:
  assumes "wf_map bt" and "\<forall>(t, ts)\<in>set bt. wf_topic t ts"
  shows "wf_map (fst (reapTopics nowMs f bt)) \<and>
    (\<forall>(t, ts)\<in>set (fst (reapTopics nowMs f bt)). wf_topic t ts) \<and>
    length (fst (reapTopics nowMs f bt)) \<le> length bt"
  using assms
proof (induction nowMs f bt rule: reapTopics.induct)
  case (1 nowMs f)
  then show ?case by simp
next
  case (2 nowMs f t ts rest)
  then have IH: "wf_map (fst (reapTopics nowMs f rest))"
    "\<forall>(t, ts)\<in>set (fst (reapTopics nowMs f rest)). wf_topic t ts"
    "length (fst (reapTopics nowMs f rest)) \<le> length rest" by auto
  have "t \<notin> set (map fst (fst (reapTopics nowMs f rest)))"
    using 2 reapTopics_keys [of nowMs f rest] by auto
  moreover have "wf_topic t (fst (reapTopic nowMs (Milliseconds (f t)) ts))"
    using 2 by (intro reapTopic_wf) simp
  ultimately show ?case using 2 IH by (auto simp: Let_def case_prod_beta)
qed

lemma reapExpired_wf: "wf_store s \<Longrightarrow> wf_store (fst (reapExpired s nowMs ttlFor))"
  using reapTopics_wf [of "byTopic s" nowMs "the ttlFor"]
  by (auto simp: reapExpired_def wf_store_def Let_def case_prod_beta split: option.split)

end
