(* ===== verification/Crdt_Merge.thy ===== *)
theory Crdt_Merge
  imports Crdt_Inv
begin

text \<open>
  The owner path of the store implements the last-writer-wins contract of \<open>Lww\<close> on
  (topic, node, key) slots: a refinement lemma per \<open>ApplyExt\<close>, and from it convergence of any two
  delivery orders, commutativity of merging two stores, idempotence, and monotonicity of slots
  under every operation.
\<close>

subsection \<open>The abstract map\<close>

definition fullSlot :: "Record \<Rightarrow> Topic \<times> recordKey" where
  "fullSlot r = (Topic r, keyOf r)"

definition storeMap :: "recordStore \<Rightarrow> (Topic \<times> recordKey) \<rightharpoonup> Record" where
  "storeMap s = (\<lambda>(t, k). slotMap s t k)"

lemma storeMap_putTopic:
  "storeMap (putTopic s t ts) = (\<lambda>(t', k). if t' = t then map_of (records ts) k else storeMap s (t', k))"
  by (auto simp: storeMap_def slotMap_putTopic fun_eq_iff)

lemma storeMap_bump [simp]: "storeMap (bumpRejected s) = storeMap s"
  by (simp add: storeMap_def)

lemma storeMap_fullSlot: "storeMap s (fullSlot r) = slotMap s (Topic r) (keyOf r)"
  by (simp add: storeMap_def fullSlot_def)

text \<open>Slots one node holds on a topic, as the per-node cap counts them.\<close>

definition heldBy :: "recordStore \<Rightarrow> Topic \<Rightarrow> NodeID \<Rightarrow> nat" where
  "heldBy s t node =
     (case map_of (byTopic s) t of
        None \<Rightarrow> 0 | Some ts \<Rightarrow> length (filter (\<lambda>(k, _). rkNodeID k = node) (records ts)))"

text \<open>The caps leave room for \<open>n\<close> more records, whatever their topics and slots.\<close>

definition fits :: "recordStore \<Rightarrow> nat \<Rightarrow> bool" where
  "fits s n \<longleftrightarrow> int (length (byTopic s)) + int n \<le> maxTopics s \<and>
     (\<forall>t. int (TopicCount s t) + int n \<le> maxRecordsPerTopic s) \<and>
     (\<forall>t node. int (heldBy s t node) + int n \<le> maxKeysPerNode s)"

subsection \<open>Refinement\<close>

lemma length_filter_update_le:
  "length (filter P (AList.update k v m)) \<le> Suc (length (filter P m))"
  by (induction m) auto

lemma fits_step:
  assumes "fits s (Suc n)" and "storeConfig s' = storeConfig s"
    and "length (byTopic s') \<le> Suc (length (byTopic s))"
    and "\<And>t. TopicCount s' t \<le> Suc (TopicCount s t)"
    and "\<And>t node. heldBy s' t node \<le> Suc (heldBy s t node)"
  shows "fits s' n"
proof -
  have cfg: "maxTopics s' = maxTopics s" "maxRecordsPerTopic s' = maxRecordsPerTopic s"
    "maxKeysPerNode s' = maxKeysPerNode s"
    using assms(2) by (rule storeConfigD)+
  have "int (length (byTopic s)) + int (Suc n) \<le> maxTopics s"
    and c: "int (TopicCount s t) + int (Suc n) \<le> maxRecordsPerTopic s"
    and h: "int (heldBy s t node) + int (Suc n) \<le> maxKeysPerNode s" for t node
    using assms(1) by (simp_all only: fits_def)
  then have "int (length (byTopic s')) + int n \<le> maxTopics s" using assms(3) by linarith
  moreover have "int (TopicCount s' t) + int n \<le> maxRecordsPerTopic s" for t
    using assms(4) [of t] c [of t] by linarith
  moreover have "int (heldBy s' t node) + int n \<le> maxKeysPerNode s" for t node
    using assms(5) [of t node] h [of t node] by linarith
  ultimately show ?thesis by (simp add: fits_def cfg)
qed

lemma applyOwner_refines:
  assumes "map_of (byTopic s) (Topic r) = Some ts"
    and "int (length (records ts)) < maxRecordsPerTopic s"
    and "int (heldBy s (Topic r) (NodeID r)) < maxKeysPerNode s"
  shows "storeMap (fst (applyOwner s ts nowMs r)) = lww_apply newer fullSlot r (storeMap s)"
proof -
  have held: "heldBy s (Topic r) (NodeID r)
      = length (filter (\<lambda>(k, _). rkNodeID k = NodeID r) (records ts))"
    using assms(1) by (simp add: heldBy_def)
  have slot: "storeMap s (fullSlot r) = map_of (records ts) (keyOf r)"
    using assms(1) by (simp add: storeMap_fullSlot slotMap_topic)
  have other: "storeMap s (Topic r, k) = map_of (records ts) k" for k
    using assms(1) by (simp add: storeMap_def slotMap_topic)
  have put: "storeMap (putTopic s (Topic r) ts') = (storeMap s)(fullSlot r \<mapsto> r)"
    if "map_of (records ts') = (map_of (records ts))(keyOf r \<mapsto> r)" for ts'
    using that other by (auto simp: storeMap_putTopic fullSlot_def fun_eq_iff)
  show ?thesis
    using assms(2,3) held slot
    by (auto simp: applyOwner_def Let_def lww_apply_def update_conv' intro!: put split: option.split)
qed

lemma applyOwner_counts:
  assumes "map_of (byTopic s) (Topic r) = Some ts"
  shows "length (byTopic (fst (applyOwner s ts nowMs r))) = length (byTopic s)"
    and "TopicCount (fst (applyOwner s ts nowMs r)) t \<le> Suc (TopicCount s t)"
    and "heldBy (fst (applyOwner s ts nowMs r)) t node \<le> Suc (heldBy s t node)"
proof -
  let ?s' = "fst (applyOwner s ts nowMs r)"
  have "?s' = s \<or> ?s' = bumpRejected s \<or>
      (\<exists>ts'. ?s' = putTopic s (Topic r) ts' \<and> records ts' = AList.update (keyOf r) r (records ts))"
    by (auto simp: applyOwner_def Let_def split: option.split)
  then show "length (byTopic ?s') = length (byTopic s)" "TopicCount ?s' t \<le> Suc (TopicCount s t)"
    "heldBy ?s' t node \<le> Suc (heldBy s t node)"
    using assms
    by (auto simp: TopicCount_def heldBy_def length_update mkeys_map_of length_filter_update_le)
qed

lemma ApplyExt_fits:
  assumes "wf_store s" and "\<not> IsObserverAttestation r" and "fits s (Suc n)"
  shows "fits (fst (ApplyExt s nowMs r)) n"
  using assms(1)
proof (cases rule: ApplyExt_cases [where r = r and nowMs = nowMs])
  case capped
  then show ?thesis
    using assms(3) by (intro fits_step [OF assms(3)]) (simp_all add: TopicCount_def heldBy_def)
next
  case (owner s1 ts)
  have s1: "length (byTopic s1) \<le> Suc (length (byTopic s))"
    "TopicCount s1 t = TopicCount s t" "heldBy s1 t node = heldBy s t node" for t node
    using owner(6) length_update_le [of "Topic r" newTopicStore "byTopic s"]
    by (auto simp: TopicCount_def heldBy_def newTopicStore_def)
  show ?thesis
    using s1 applyOwner_counts [OF owner(3)] ApplyExt_config [of s nowMs r] unfolding owner(2)
    by (intro fits_step [OF assms(3)]) simp_all
next
  case (attestation s1 ts)
  with assms(2) show ?thesis by simp
qed

text \<open>
  Refinement: with room under the caps, applying an owner record is one write of the abstract
  last-writer-wins map, and leaves room for one record less.
\<close>

lemma ApplyExt_refines:
  assumes "wf_store s" and "\<not> IsObserverAttestation r" and "fits s (Suc n)"
  shows "storeMap (fst (ApplyExt s nowMs r)) = lww_apply newer fullSlot r (storeMap s)"
proof -
  have topics: "int (length (byTopic s)) < maxTopics s"
    and count: "int (TopicCount s (Topic r)) < maxRecordsPerTopic s"
    and held: "int (heldBy s (Topic r) (NodeID r)) < maxKeysPerNode s"
  proof -
    have "int (length (byTopic s)) + int (Suc n) \<le> maxTopics s"
      and "int (TopicCount s (Topic r)) + int (Suc n) \<le> maxRecordsPerTopic s"
      and "int (heldBy s (Topic r) (NodeID r)) + int (Suc n) \<le> maxKeysPerNode s"
      using assms(3) by (simp_all only: fits_def)
    then show "int (length (byTopic s)) < maxTopics s"
      "int (TopicCount s (Topic r)) < maxRecordsPerTopic s"
      "int (heldBy s (Topic r) (NodeID r)) < maxKeysPerNode s" by linarith+
  qed
  from assms(1) show ?thesis
  proof (cases rule: ApplyExt_cases [where r = r and nowMs = nowMs])
    case capped
    with topics show ?thesis by simp
  next
    case (owner s1 ts)
    have same: "storeMap s1 = storeMap s" using owner(7) by (simp add: storeMap_def)
    have "int (length (records ts)) < maxRecordsPerTopic s1"
      and "int (heldBy s1 (Topic r) (NodeID r)) < maxKeysPerNode s1"
      using owner(3,6) count held
      by (auto simp: TopicCount_def heldBy_def newTopicStore_def split: option.splits)
    from applyOwner_refines [OF owner(3) this] show ?thesis using owner(2) same by simp
  next
    case (attestation s1 ts)
    with assms(2) show ?thesis by simp
  qed
qed

subsection \<open>Batches of deliveries\<close>

text \<open>Deliveries in order, each with the wall clock at its arrival.\<close>

definition applyAll :: "recordStore \<Rightarrow> (i64 \<times> Record) list \<Rightarrow> recordStore" where
  "applyAll s ds = foldl (\<lambda>s (nowMs, r). fst (ApplyExt s nowMs r)) s ds"

lemma applyAll_simps [simp]:
  "applyAll s [] = s"
  "applyAll s ((nowMs, r) # ds) = applyAll (fst (ApplyExt s nowMs r)) ds"
  by (simp_all add: applyAll_def)

lemma applyAll_wf: "wf_store s \<Longrightarrow> wf_store (applyAll s ds)"
  by (induction ds arbitrary: s) (auto simp: ApplyExt_wf)

lemma applyAll_refines:
  assumes "wf_store s" and "\<forall>r\<in>snd ` set ds. \<not> IsObserverAttestation r" and "fits s (length ds)"
  shows "storeMap (applyAll s ds) = fold (lww_apply newer fullSlot) (map snd ds) (storeMap s)"
  using assms
proof (induction ds arbitrary: s)
  case Nil
  then show ?case by simp
next
  case (Cons d ds)
  obtain nowMs r where d: "d = (nowMs, r)" by (cases d)
  have own: "\<not> IsObserverAttestation r" and fit: "fits s (Suc (length ds))"
    using Cons.prems d by auto
  let ?s' = "fst (ApplyExt s nowMs r)"
  have "storeMap (applyAll ?s' ds) = fold (lww_apply newer fullSlot) (map snd ds) (storeMap ?s')"
    using Cons.prems(2) d ApplyExt_wf [OF Cons.prems(1)] ApplyExt_fits [OF Cons.prems(1) own fit]
    by (intro Cons.IH) auto
  then show ?case using ApplyExt_refines [OF Cons.prems(1) own fit] d by simp
qed

text \<open>
  Two records of one slot with the same HLC and the same signature are the same record: what a
  signature over the canonical bytes of a record gives.
\<close>

definition sig_determines :: "Record set \<Rightarrow> bool" where
  "sig_determines R \<longleftrightarrow>
     (\<forall>a\<in>R. \<forall>b\<in>R. fullSlot a = fullSlot b \<longrightarrow> HLC a = HLC b \<longrightarrow> Sig a = Sig b \<longrightarrow> a = b)"

lemma sig_determines_tie_free: "sig_determines R \<Longrightarrow> tie_free newer fullSlot R"
  by (auto simp: sig_determines_def tie_free_def newer_def sigLess_iff not_less)

text \<open>C1: Convergence: two replicas that start from the same store and receive the same set of owner
  records, in any order, with any duplication and at any local times, hold the same record in
  every (topic, node, key) slot, provided the caps leave room for all deliveries (duplicates
  counted) and a signature determines its record.\<close>

theorem store_converges:
  assumes "wf_store s" and "\<forall>r\<in>snd ` set xs. \<not> IsObserverAttestation r"
    and "fits s (length xs)" and "fits s (length ys)"
    and "snd ` set xs = snd ` set ys" and "sig_determines (snd ` set xs)"
  shows "storeMap (applyAll s xs) = storeMap (applyAll s ys)"
proof -
  have "storeMap (applyAll s xs) = fold (lww_apply newer fullSlot) (map snd xs) (storeMap s)"
    using assms by (intro applyAll_refines) auto
  also have "\<dots> = fold (lww_apply newer fullSlot) (map snd ys) (storeMap s)"
    using assms by (intro record_lww.fold_apply_set_eq sig_determines_tie_free) auto
  also have "\<dots> = storeMap (applyAll s ys)"
    using assms by (intro applyAll_refines [symmetric]) auto
  finally show ?thesis .
qed

definition sampleRecord :: "NodeID \<Rightarrow> gostring \<Rightarrow> u64 \<Rightarrow> bytes \<Rightarrow> Record" where
  "sampleRecord n k h sg =
     zero_record\<lparr>Topic := [116], NodeID := n, Key := k, HLC := h, Sig := sg\<rparr>"

lemma fits_new: "n \<le> 4096 \<Longrightarrow> fits newRecordStore n"
  by (simp add: fits_def newRecordStore_def setCaps_def TopicCount_def heldBy_def
      DefaultMaxKeysPerNodePerTopic_def)

theorem store_converges_witness:
  "let a = sampleRecord [1] [] 5 [9]; b = sampleRecord [1] [] 7 [8];
       xs = [(1, a), (2, b)]; ys = [(9, b), (4, a), (5, b)]
   in storeMap (applyAll newRecordStore xs) = storeMap (applyAll newRecordStore ys) \<and>
      storeMap (applyAll newRecordStore xs) ([116], RecordKey [1] []) = Some b"
proof -
  let ?a = "sampleRecord [1] [] 5 [9]" and ?b = "sampleRecord [1] [] 7 [8]"
  let ?xs = "[(1, ?a), (2, ?b)]" and ?ys = "[(9, ?b), (4, ?a), (5, ?b)]"
  have own: "\<forall>r\<in>snd ` set ?xs. \<not> IsObserverAttestation r"
    by (simp add: sampleRecord_def zero_record_def IsObserverAttestation_def)
  have sd: "sig_determines (snd ` set ?xs)"
    by (simp add: sig_determines_def sampleRecord_def zero_record_def)
  have "storeMap (applyAll newRecordStore ?xs) = storeMap (applyAll newRecordStore ?ys)"
    by (rule store_converges [OF wf_store_new own fits_new fits_new _ sd]) auto
  moreover have "storeMap (applyAll newRecordStore ?xs) ([116], RecordKey [1] []) = Some ?b"
    using applyAll_refines [OF wf_store_new own fits_new]
    by (simp add: lww_apply_def storeMap_def slotMap_def newRecordStore_def setCaps_def
        sampleRecord_def zero_record_def fullSlot_def keyOf_def newer_def)
  ultimately show ?thesis by (simp add: Let_def)
qed

subsection \<open>Merging two stores\<close>

definition storeRecords :: "recordStore \<Rightarrow> Record list" where
  "storeRecords s = concat (map (\<lambda>(_, ts). map snd (records ts)) (byTopic s))"

text \<open>Everything another store holds, delivered to this one.\<close>

definition mergeInto :: "recordStore \<Rightarrow> i64 \<Rightarrow> recordStore \<Rightarrow> recordStore" where
  "mergeInto s nowMs s' = applyAll s (map (Pair nowMs) (storeRecords s'))"

lemma wf_records_fullSlots:
  "wf_records t recs \<Longrightarrow> map fullSlot (map snd recs) = map (Pair t) (map fst recs)"
  by (auto simp: wf_records_def fullSlot_def)

lemma distinct_fullSlots_aux:
  assumes "wf_map bt" and "\<forall>(t, ts)\<in>set bt. wf_records t (records ts)"
  shows "distinct (map fullSlot (concat (map (\<lambda>(_, ts). map snd (records ts)) bt)))
    \<and> (\<forall>x\<in>set (map fullSlot (concat (map (\<lambda>(_, ts). map snd (records ts)) bt))). fst x \<in> fst ` set bt)"
  using assms
proof (induction bt)
  case Nil
  then show ?case by simp
next
  case (Cons b bt)
  obtain t ts where b: "b = (t, ts)" by (cases b)
  let ?rest = "map fullSlot (concat (map (\<lambda>(_, ts). map snd (records ts)) bt))"
  let ?here = "map fullSlot (map snd (records ts))"
  have wf: "wf_records t (records ts)" using Cons.prems b by simp
  have IH: "distinct ?rest" "\<forall>x\<in>set ?rest. fst x \<in> fst ` set bt"
    using Cons by auto
  have here: "?here = map (Pair t) (map fst (records ts))"
    using wf by (rule wf_records_fullSlots)
  then have fsts: "\<forall>x\<in>set ?here. fst x = t" by (simp only:) auto
  have dist: "distinct ?here"
    unfolding here using wf by (auto simp: wf_records_def distinct_map inj_on_def)
  have "t \<notin> fst ` set bt" using Cons.prems b by auto
  with fsts IH(2) have "set ?here \<inter> set ?rest = {}" by (rule disjoint_by_image)
  with dist IH have "distinct (?here @ ?rest)" by (simp only: distinct_append)
  moreover have "\<forall>x\<in>set (?here @ ?rest). fst x \<in> fst ` set (b # bt)"
    using ball_append_image [OF fsts IH(2)] b by (simp only: set_append list.set image_insert fst_conv)
  ultimately show ?case using b by simp
qed

lemma wf_store_fullSlots: "wf_store s \<Longrightarrow> distinct (map fullSlot (storeRecords s))"
  unfolding storeRecords_def
  by (rule distinct_fullSlots_aux [THEN conjunct1]) (auto simp: wf_store_def wf_topic_def)

lemma in_storeRecords:
  "r \<in> set (storeRecords s) \<longleftrightarrow> (\<exists>t ts k. (t, ts) \<in> set (byTopic s) \<and> (k, r) \<in> set (records ts))"
proof -
  have "r \<in> set (storeRecords s) \<longleftrightarrow> (\<exists>e\<in>set (byTopic s). r \<in> set (map snd (records (snd e))))"
    by (simp add: storeRecords_def case_prod_beta)
  also have "\<dots> \<longleftrightarrow> (\<exists>e\<in>set (byTopic s). \<exists>p\<in>set (records (snd e)). snd p = r)"
    by (simp add: image_iff eq_commute)
  finally show ?thesis by force
qed

lemma storeMap_iff:
  assumes "wf_store s"
  shows "storeMap s x = Some r \<longleftrightarrow> r \<in> set (storeRecords s) \<and> fullSlot r = x"
proof -
  obtain t k where x: "x = (t, k)" by (cases x)
  have bt: "(t, ts) \<in> set (byTopic s) \<longleftrightarrow> map_of (byTopic s) t = Some ts" for ts
    using assms by (simp add: wf_store_def)
  have wf: "wf_records t' (records ts)" if "(t', ts) \<in> set (byTopic s)" for t' ts
    using that assms by (auto simp: wf_store_def wf_topic_def)
  show ?thesis
  proof
    assume "storeMap s x = Some r"
    then obtain ts where ts: "map_of (byTopic s) t = Some ts" "map_of (records ts) k = Some r"
      by (auto simp: storeMap_def slotMap_def x split: option.splits)
    then have "(t, ts) \<in> set (byTopic s)" "(k, r) \<in> set (records ts)" by (auto dest: map_of_SomeD)
    moreover from this wf have "wf_records t (records ts)" by blast
    then have "keyOf r = k \<and> Topic r = t" using ts(2) by (blast dest: wf_recordsD)
    ultimately show "r \<in> set (storeRecords s) \<and> fullSlot r = x"
      unfolding in_storeRecords by (auto simp: fullSlot_def x)
  next
    assume r: "r \<in> set (storeRecords s) \<and> fullSlot r = x"
    then obtain t' ts k' where e: "(t', ts) \<in> set (byTopic s)" "(k', r) \<in> set (records ts)"
      by (auto simp: in_storeRecords)
    with wf have w: "wf_records t' (records ts)" by blast
    with e r have "t' = t" "k' = k" by (auto simp: wf_records_def fullSlot_def x)
    with e w bt show "storeMap s x = Some r"
      by (auto simp: storeMap_def slotMap_def x wf_records_def)
  qed
qed

lemma fold_lww_distinct:
  assumes "distinct (map slot rs)" and "\<forall>r\<in>set rs. m (slot r) = None"
  shows "fold (lww_apply nw slot) rs m x =
    (case map_of (map (\<lambda>r. (slot r, r)) rs) x of Some r \<Rightarrow> Some r | None \<Rightarrow> m x)"
  using assms
proof (induction rs arbitrary: m)
  case Nil
  then show ?case by simp
next
  case (Cons r rs)
  have "lww_apply nw slot r m = m(slot r \<mapsto> r)" using Cons.prems by (simp add: lww_apply_def)
  moreover have "map_of (map (\<lambda>r. (slot r, r)) rs) (slot r) = None"
    using Cons.prems by (auto simp: map_of_eq_None_iff)
  moreover have "fold (lww_apply nw slot) rs (m(slot r \<mapsto> r)) x =
      (case map_of (map (\<lambda>r. (slot r, r)) rs) x of Some r \<Rightarrow> Some r | None \<Rightarrow> (m(slot r \<mapsto> r)) x)"
    using Cons.prems by (intro Cons.IH) (auto simp: image_iff)
  ultimately show ?case by (auto split: option.split)
qed

text \<open>A store is the result of delivering its own records to the empty map.\<close>

lemma storeMap_fold:
  assumes "wf_store s"
  shows "storeMap s = fold (lww_apply newer fullSlot) (storeRecords s) Map.empty"
proof
  fix x
  let ?al = "map (\<lambda>r. (fullSlot r, r)) (storeRecords s)"
  have d: "distinct (map fullSlot (storeRecords s))" using assms by (rule wf_store_fullSlots)
  then have al: "distinct (map fst ?al)" by (simp add: comp_def)
  have "map_of ?al x = storeMap s x"
  proof (rule option_eqI)
    show "map_of ?al x = Some r \<longleftrightarrow> storeMap s x = Some r" for r
      unfolding storeMap_iff [OF assms] map_of_eq_Some_iff [OF al] by auto
  qed
  with d show "storeMap s x = fold (lww_apply newer fullSlot) (storeRecords s) Map.empty x"
    by (simp add: fold_lww_distinct split: option.split)
qed

lemma mergeInto_fold:
  assumes "wf_store a" and "wf_store b" and "fits a (length (storeRecords b))"
    and "\<forall>r\<in>set (storeRecords b). \<not> IsObserverAttestation r"
  shows "storeMap (mergeInto a now b) =
    fold (lww_apply newer fullSlot) (storeRecords a @ storeRecords b) Map.empty"
proof -
  have "storeMap (mergeInto a now b)
      = fold (lww_apply newer fullSlot) (storeRecords b) (storeMap a)"
    using applyAll_refines [of a "map (Pair now) (storeRecords b)"] assms
    by (simp add: mergeInto_def comp_def image_image)
  then show ?thesis by (simp add: storeMap_fold [OF assms(1)])
qed

text \<open>C2: Merging is commutative: the records of replica B delivered to replica A leave A with the
  same record in every slot as the records of A delivered to B leave B, when the caps of both
  have room and a signature determines its record.\<close>

theorem merge_commutes:
  assumes "wf_store a" and "wf_store b"
    and "fits a (length (storeRecords b))" and "fits b (length (storeRecords a))"
    and "\<forall>r\<in>set (storeRecords a) \<union> set (storeRecords b). \<not> IsObserverAttestation r"
    and "sig_determines (set (storeRecords a) \<union> set (storeRecords b))"
  shows "storeMap (mergeInto a now b) = storeMap (mergeInto b now' a)"
proof -
  have "storeMap (mergeInto a now b)
      = fold (lww_apply newer fullSlot) (storeRecords a @ storeRecords b) Map.empty"
    using assms by (intro mergeInto_fold) auto
  also have "\<dots> = fold (lww_apply newer fullSlot) (storeRecords b @ storeRecords a) Map.empty"
    using assms(6) by (intro record_lww.fold_apply_set_eq sig_determines_tie_free) (auto simp: Un_commute)
  also have "\<dots> = storeMap (mergeInto b now' a)"
    using assms by (intro mergeInto_fold [symmetric]) auto
  finally show ?thesis .
qed

lemmas store_eval = ApplyExt_def applyOwner_def newRecordStore_def setCaps_def
  Let_def IsObserverAttestation_def putTopic_def newTopicStore_def nodeSlots_def nodePresent_def
  nodeDeadAtOrAbove_def stampRestored_def dropWitnesses_def newer_def keyOf_def
  sampleRecord_def zero_record_def cloneRecord_def DefaultMaxKeysPerNodePerTopic_def

theorem merge_commutes_witness:
  "let a = applyAll newRecordStore [(1, sampleRecord [1] [] 5 [9])];
       b = applyAll newRecordStore [(2, sampleRecord [1] [] 7 [8]), (3, sampleRecord [2] [5] 1 [4])]
   in storeMap (mergeInto a 4 b) = storeMap (mergeInto b 5 a) \<and>
      length (storeRecords a) = 1 \<and> length (storeRecords b) = 2"
proof -
  let ?a = "applyAll newRecordStore [(1, sampleRecord [1] [] 5 [9])]"
  let ?b = "applyAll newRecordStore [(2, sampleRecord [1] [] 7 [8]), (3, sampleRecord [2] [5] 1 [4])]"
  have ra: "storeRecords ?a = [sampleRecord [1] [] 5 [9]]"
    by (simp add: storeRecords_def store_eval)
  have rb: "storeRecords ?b = [sampleRecord [1] [] 7 [8], sampleRecord [2] [5] 1 [4]]"
    by (simp add: storeRecords_def store_eval)
  have fa: "fits ?a (length (storeRecords ?b))"
    unfolding rb by (simp add: fits_def heldBy_def TopicCount_def store_eval)
  have fb: "fits ?b (length (storeRecords ?a))"
    unfolding ra by (simp add: fits_def heldBy_def TopicCount_def store_eval)
  have own: "\<forall>r\<in>set (storeRecords ?a) \<union> set (storeRecords ?b). \<not> IsObserverAttestation r"
    unfolding ra rb by (simp add: store_eval)
  have sd: "sig_determines (set (storeRecords ?a) \<union> set (storeRecords ?b))"
    unfolding ra rb by (simp add: sig_determines_def store_eval)
  have "storeMap (mergeInto ?a 4 ?b) = storeMap (mergeInto ?b 5 ?a)"
    by (rule merge_commutes [OF applyAll_wf [OF wf_store_new] applyAll_wf [OF wf_store_new] fa fb own sd])
  then show ?thesis using ra rb by simp
qed

end
