(* ===== verification/Crdt_Quorum.thy ===== *)
theory Crdt_Quorum
  imports Crdt_Merge
begin

text \<open>
  The observer-attestation path of the store: what a quorum does to the slots of its target, that
  fewer observers than the quorum change no slot at all, that the witnesses of a synthesised
  tombstone lie within the corroboration window, and what the restored-at fence keeps out.
\<close>

subsection \<open>Slots under synthesis\<close>

definition buried :: "Record \<Rightarrow> (NodeID, Record) gomap \<Rightarrow> recordKey \<Rightarrow> Record" where
  "buried att wset k = (synthTombstone att wset)\<lparr>Key := rkKey k\<rparr>"

lemma nodeSlots_Nil_iff: "nodeSlots ts n = [] \<longleftrightarrow> (\<forall>k. rkNodeID k = n \<longrightarrow> map_of (records ts) k = None)"
proof -
  have "nodeSlots ts n = [] \<longleftrightarrow> {k \<in> mkeys (records ts). rkNodeID k = n} = {}"
    using set_nodeSlots [of ts n] by (metis set_empty)
  also have "\<dots> \<longleftrightarrow> (\<forall>k. rkNodeID k = n \<longrightarrow> map_of (records ts) k = None)"
    by (auto simp: map_of_eq_None_iff)
  finally show ?thesis .
qed

lemma synthTombstone_fields [simp]:
  "Topic (synthTombstone att w) = Topic att" "NodeID (synthTombstone att w) = NodeID att"
  "HLC (synthTombstone att w) = maxWitnessHLC w + 1" "Tombstone (synthTombstone att w)"
  "Key (synthTombstone att w) = []" "Sig (synthTombstone att w) = []"
  by (simp_all add: synthTombstone_def zero_record_def)

lemma buried_fields [simp]:
  "HLC (buried att w k) = maxWitnessHLC w + 1" "Tombstone (buried att w k)"
  by (simp_all add: buried_def)

lemma synthesise_slots:
  assumes "wf_records (Topic att) (records ts)"
    and "slotMap s (Topic att) = map_of (records ts)"
  shows "slotMap (fst (synthesise s ts att w)) t k =
    (if t = Topic att \<and> rkNodeID k = NodeID att
     then (case slotMap s t k of
             Some c \<Rightarrow> Some (if HLC c < maxWitnessHLC w + 1 then buried att w k else c)
           | None \<Rightarrow> if (\<forall>k'. rkNodeID k' = NodeID att \<longrightarrow> slotMap s t k' = None) \<and> rkKey k = []
                     then Some (buried att w k) else None)
     else slotMap s t k)"
proof (cases "nodeSlots ts (NodeID att) = []")
  case True
  then have none: "\<forall>k. rkNodeID k = NodeID att \<longrightarrow> map_of (records ts) k = None"
    by (simp only: nodeSlots_Nil_iff)
  have "(synthTombstone att w)\<lparr>Key := []\<rparr> = synthTombstone att w"
    by (simp add: synthTombstone_def zero_record_def)
  moreover have "k = RecordKey (NodeID att) [] \<longleftrightarrow> rkNodeID k = NodeID att \<and> rkKey k = []"
    by (cases k) auto
  ultimately show ?thesis
    using True none assms(2) by (auto simp: synthesise_def slotMap_putTopic buried_def)
next
  case False
  then have ne: "\<not> (\<forall>k'. rkNodeID k' = NodeID att \<longrightarrow> map_of (records ts) k' = None)"
    by (simp only: nodeSlots_Nil_iff not_False_eq_True)
  have d: "distinct (nodeSlots ts (NodeID att))" using assms(1) by (rule distinct_nodeSlots)
  have "k \<in> set (nodeSlots ts (NodeID att)) \<longleftrightarrow>
      rkNodeID k = NodeID att \<and> map_of (records ts) k \<noteq> None"
    by (auto simp: set_nodeSlots map_of_eq_None_iff)
  with False ne assms(2) show ?thesis
    by (auto simp: synthesise_def Let_def case_prod_beta slotMap_putTopic buried_def
        tombstoneSlots_lookup [OF d] split: option.split)
qed

text \<open>The target's witness set with an attestation filed under its observer and the window pruned.\<close>

definition filed :: "recordStore \<Rightarrow> Record \<Rightarrow> (NodeID, Record) gomap" where
  "filed s r =
     pruneWitnesses (AList.update (ObserverNodeID r) r (witnessesOf s (Topic r) (NodeID r)))
       (Milliseconds (observerCorroborationWindow s))"

lemma witnessesOf_putTopic:
  "witnessesOf (putTopic s t ts) t' n =
     (if t' = t then currentWitnesses ts n else witnessesOf s t' n)"
  by (simp add: witnessesOf_def currentWitnesses_def)

lemma witnessesOf_bump [simp]: "witnessesOf (bumpRejected s) = witnessesOf s"
  by (simp add: witnessesOf_def fun_eq_iff)

lemma witnessesOf_topic: "map_of (byTopic s) t = Some ts \<Longrightarrow> witnessesOf s t = currentWitnesses ts"
  by (simp add: witnessesOf_def currentWitnesses_def fun_eq_iff)

lemma currentWitnesses_put [simp]:
  "currentWitnesses (putWitnesses ts n w) n' = (if n' = n then w else currentWitnesses ts n')"
  by (simp add: currentWitnesses_def)

lemma currentWitnesses_drop [simp]:
  "currentWitnesses (dropWitnesses ts n) n' = (if n' = n then [] else currentWitnesses ts n')"
  by (simp add: currentWitnesses_def)

lemma synthesise_witnesses:
  "witnessesOf (fst (synthesise s ts att w)) t n =
     (if t = Topic att then currentWitnesses ts n else witnessesOf s t n)"
  by (simp add: synthesise_def Let_def case_prod_beta witnessesOf_putTopic currentWitnesses_def)

text \<open>
  The two outcomes of an attestation: no slot changes, or the filed witness set has reached the
  quorum and every slot of the target that is not newer than the witnesses is buried.
\<close>

definition slotsAfterQuorum ::
  "recordStore \<Rightarrow> Record \<Rightarrow> (NodeID, Record) gomap \<Rightarrow> Topic \<Rightarrow> recordKey \<rightharpoonup> Record" where
  "slotsAfterQuorum s r w t k =
     (if t = Topic r \<and> rkNodeID k = NodeID r
      then (case slotMap s t k of
              Some c \<Rightarrow> Some (if HLC c < maxWitnessHLC w + 1 then buried r w k else c)
            | None \<Rightarrow> if (\<forall>k'. rkNodeID k' = NodeID r \<longrightarrow> slotMap s t k' = None) \<and> rkKey k = []
                      then Some (buried r w k) else None)
      else slotMap s t k)"

lemma attestation_outcome:
  assumes "wf_store s" and "IsObserverAttestation r"
  obtains (below) "slotMap (fst (ApplyExt s nowMs r)) = slotMap s"
      "\<not> fst (snd (ApplyExt s nowMs r))"
      "\<And>t n. witnessesOf (fst (ApplyExt s nowMs r)) t n =
         (if t = Topic r \<and> n = NodeID r \<and> snd (snd (snd (ApplyExt s nowMs r)))
          then filed s r else witnessesOf s t n)"
      "snd (snd (snd (ApplyExt s nowMs r))) \<longrightarrow> int (length (filed s r)) < observerQuorum s"
  | (quorum) "int (length (filed s r)) \<ge> observerQuorum s"
      "snd (snd (snd (ApplyExt s nowMs r)))"
      "\<And>t k. slotMap (fst (ApplyExt s nowMs r)) t k = slotsAfterQuorum s r (filed s r) t k"
      "\<And>t n. witnessesOf (fst (ApplyExt s nowMs r)) t n =
         (if t = Topic r \<and> n = NodeID r then filed s r else witnessesOf s t n)"
  using assms(1)
proof (cases rule: ApplyExt_cases [where r = r and nowMs = nowMs])
  case capped
  show ?thesis by (rule below) (simp_all add: capped)
next
  case (owner s1 ts)
  with assms(2) show ?thesis by simp
next
  case (attestation s1 ts)
  have cfg: "storeConfig s1 = storeConfig s" using attestation(6) by auto
  have wit: "witnessesOf s (Topic r) = currentWitnesses ts"
    using attestation(3,9) by (simp only: flip: witnessesOf_topic)
  have filed: "nextWitnesses s1 ts r = filed s r"
    by (simp add: nextWitnesses_def filed_def wit storeConfigD(2) [OF cfg])
  have slot: "slotMap s (Topic r) = map_of (records ts)"
    using attestation(3,7) by (simp only: flip: slotMap_topic)
  have put: "slotMap (putTopic s1 (Topic r) ts') = slotMap s" if "records ts' = records ts" for ts'
    using that slot attestation(7) by (simp add: fun_eq_iff slotMap_putTopic)
  note eq = attestation(2)
  show ?thesis
  proof (cases rule: attestation_cases [where s = s1 and ts = ts and nowMs = nowMs and att = r])
    case (refused b)
    show ?thesis by (rule below) (simp_all add: eq refused attestation)
  next
    case stale
    show ?thesis
      by (rule below) (simp_all add: eq stale put witnessesOf_putTopic attestation wit)
  next
    case capped
    show ?thesis
      by (rule below) (simp_all add: eq capped put witnessesOf_putTopic attestation wit)
  next
    case accumulated
    show ?thesis
      using accumulated(4)
      by (intro below)
        (simp_all add: eq accumulated(5) put witnessesOf_putTopic attestation wit filed
          storeConfigD(1) [OF cfg])
  next
    case synthesised
    let ?ts = "putWitnesses ts (NodeID r) (filed s r)"
    have "slotMap (fst (ApplyExt s nowMs r)) t k = slotsAfterQuorum s r (filed s r) t k" for t k
      unfolding eq synthesised(5) filed slotsAfterQuorum_def attestation(7) [symmetric]
      using attestation(5,7) slot by (intro synthesise_slots) (simp_all add: wf_topic_def)
    moreover have "snd (snd (snd (ApplyExt s nowMs r)))"
      by (simp add: eq synthesised(5) synthesise_def Let_def case_prod_beta)
    ultimately show ?thesis
      using synthesised(4)
      by (intro quorum)
        (simp_all add: eq synthesised(5) synthesise_witnesses attestation wit filed
          storeConfigD(1) [OF cfg])
  qed
qed

subsection \<open>The corroboration window\<close>

lemma foldl_max:
  fixes g :: "'b \<Rightarrow> 'c::linorder"
  shows "g z \<le> g (foldl (\<lambda>n (_, a). if g (f a) > g n then f a else n) z xs) \<and>
    (\<forall>(o', a)\<in>set xs. g (f a) \<le> g (foldl (\<lambda>n (_, a). if g (f a) > g n then f a else n) z xs))"
  by (induction xs rule: rev_induct) (auto simp: case_prod_beta not_less intro: order.trans less_imp_le)

lemma newestObserved_ge:
  "0 \<le> sint (newestObserved w)"
  "(o', a) \<in> set w \<Longrightarrow> sint (ObservedAtUnixMs a) \<le> sint (newestObserved w)"
  using foldl_max [where g = sint and f = ObservedAtUnixMs and z = 0 and xs = w]
  by (auto simp: newestObserved_def)

lemma maxWitnessHLC_ge: "(o', a) \<in> set w \<Longrightarrow> HLC a \<le> maxWitnessHLC w"
  using foldl_max [where g = "\<lambda>x. x" and f = HLC and z = 0 and xs = w]
  by (auto simp: maxWitnessHLC_def)

lemma sint_diff_nonneg:
  fixes x y :: i64
  assumes "0 \<le> sint y" and "sint y \<le> sint x"
  shows "sint (x - y) = sint x - sint y"
proof -
  have "sint x < 2 ^ 63" using sint_range_size [of x] by (simp add: word_size)
  with assms show ?thesis
    by (simp add: sint_word_ariths(2) signed_take_bit_int_eq_self)
qed

lemma pruneWitnesses_window:
  assumes "(p, a) \<in> set (pruneWitnesses w winMs)" and "0 \<le> sint (ObservedAtUnixMs a)"
    and "(q, b) \<in> set (pruneWitnesses w winMs)"
  shows "sint (ObservedAtUnixMs b) - sint (ObservedAtUnixMs a) \<le> winMs"
proof -
  have mem: "(p, a) \<in> set w" "(q, b) \<in> set w"
    and "sint (newestObserved w - ObservedAtUnixMs a) \<le> winMs"
    using assms by (auto simp: pruneWitnesses_def Let_def)
  moreover have "sint (newestObserved w - ObservedAtUnixMs a)
      = sint (newestObserved w) - sint (ObservedAtUnixMs a)"
    using assms(2) newestObserved_ge(2) [OF mem(1)] by (rule sint_diff_nonneg)
  ultimately show ?thesis using newestObserved_ge(2) [OF mem(2)] by linarith
qed

lemma filed_wf:
  assumes "wf_store s" and "IsObserverAttestation r"
  shows "wf_witnesses (Topic r) (NodeID r) (filed s r)"
proof -
  have "wf_witnesses (Topic r) (NodeID r) (witnessesOf s (Topic r) (NodeID r))"
  proof (cases "map_of (byTopic s) (Topic r)")
    case None
    then show ?thesis by (simp add: witnessesOf_def wf_witnesses_def)
  next
    case (Some ts)
    with assms(1) have "wf_topic (Topic r) ts" by (rule wf_storeD)
    with Some show ?thesis by (simp add: witnessesOf_topic wf_topic_witnesses)
  qed
  with assms(2) show ?thesis
    unfolding filed_def by (intro wf_witnesses_prune wf_witnesses_update) simp_all
qed

lemma filed_subset:
  "set (filed s r) \<subseteq> insert (ObserverNodeID r, r) (set (witnessesOf s (Topic r) (NodeID r)))"
  using set_update_subset [of "ObserverNodeID r" r "witnessesOf s (Topic r) (NodeID r)"]
  by (auto simp: filed_def pruneWitnesses_def Let_def)

text \<open>C3: A tombstone is synthesised only with a quorum of witnesses: whenever an attestation is
  reported as applied, the target's witness set holds at least the quorum of attestations about
  that node and topic by pairwise different observers, each of them either the attestation just
  delivered or one accumulated before, and the observation times of those that are not negative
  lie within the corroboration window of each other.\<close>

theorem applied_attestation_has_quorum:
  assumes "wf_store s" and "IsObserverAttestation r"
    and "ApplyExt s nowMs r = (s', True, replaced, accumulated)"
    and "w = witnessesOf s' (Topic r) (NodeID r)"
  shows "int (length w) \<ge> observerQuorum s \<and> distinct (map (ObserverNodeID \<circ> snd) w) \<and>
    (\<forall>a\<in>snd ` set w. IsObserverAttestation a \<and> NodeID a = NodeID r \<and> Topic a = Topic r \<and>
       (a = r \<or> a \<in> snd ` set (witnessesOf s (Topic r) (NodeID r)))) \<and>
    (\<forall>a\<in>snd ` set w. \<forall>b\<in>snd ` set w. 0 \<le> sint (ObservedAtUnixMs a) \<longrightarrow>
       sint (ObservedAtUnixMs b) - sint (ObservedAtUnixMs a)
         \<le> Milliseconds (observerCorroborationWindow s))"
  using assms(1,2)
proof (cases rule: attestation_outcome [where nowMs = nowMs])
  case below
  with assms(3) show ?thesis by simp
next
  case quorum
  then have w: "w = filed s r" and q: "int (length w) \<ge> observerQuorum s"
    using assms(3,4) by simp_all
  have wf: "wf_witnesses (Topic r) (NodeID r) w" unfolding w using assms(1,2) by (rule filed_wf)
  then have eq: "map (ObserverNodeID \<circ> snd) w = map fst w" by (auto simp: wf_witnesses_def)
  have "distinct (map (ObserverNodeID \<circ> snd) w)"
    unfolding eq using wf by (simp add: wf_witnesses_def)
  moreover have "\<forall>a\<in>snd ` set w. IsObserverAttestation a \<and> NodeID a = NodeID r \<and> Topic a = Topic r \<and>
       (a = r \<or> a \<in> snd ` set (witnessesOf s (Topic r) (NodeID r)))"
  proof
    fix a assume "a \<in> snd ` set w"
    then obtain p where "(p, a) \<in> set w" by auto
    moreover from this have "a = r \<or> (p, a) \<in> set (witnessesOf s (Topic r) (NodeID r))"
      using filed_subset [of s r] w by auto
    then have "a = r \<or> a \<in> snd ` set (witnessesOf s (Topic r) (NodeID r))" by (auto simp: rev_image_eqI)
    ultimately show "IsObserverAttestation a \<and> NodeID a = NodeID r \<and> Topic a = Topic r \<and>
       (a = r \<or> a \<in> snd ` set (witnessesOf s (Topic r) (NodeID r)))"
      using wf by (auto simp: wf_witnesses_def)
  qed
  moreover have "\<forall>a\<in>snd ` set w. \<forall>b\<in>snd ` set w. 0 \<le> sint (ObservedAtUnixMs a) \<longrightarrow>
       sint (ObservedAtUnixMs b) - sint (ObservedAtUnixMs a)
         \<le> Milliseconds (observerCorroborationWindow s)"
    unfolding w filed_def by (auto intro: pruneWitnesses_window)
  ultimately show ?thesis using q by simp
qed

subsection \<open>What a quorum does, and what less than a quorum cannot do\<close>

text \<open>C4: What a quorum does to every slot: when the witness set of the target reaches the quorum (and
  the witness clocks are not at the 64-bit maximum), each slot the node holds on the topic whose
  clock the witnesses reach is replaced by a tombstone that outranks every contributing
  attestation and is invisible to reads, and newer slots stay. An empty slot of the target stays
  empty, except that a target with no slot on the topic at all gets such a tombstone in its
  keyless slot. No slot of another node or topic changes.\<close>

theorem quorum_tombstones_every_slot:
  assumes "wf_store s" and "IsObserverAttestation r"
    and "ApplyExt s nowMs r = (s', applied, replaced, True)"
    and "w = witnessesOf s' (Topic r) (NodeID r)"
    and "int (length w) \<ge> observerQuorum s" and "maxWitnessHLC w \<noteq> - 1"
  shows "(\<forall>k c. rkNodeID k = NodeID r \<longrightarrow> slotMap s (Topic r) k = Some c \<longrightarrow>
      (if HLC c \<le> maxWitnessHLC w
       then \<exists>c'. slotMap s' (Topic r) k = Some c' \<and> Tombstone c' \<and> newer c' c \<and>
              (\<forall>a\<in>snd ` set w. HLC a < HLC c') \<and> GetKeyed s' (Topic r) (NodeID r) (rkKey k) = None
       else slotMap s' (Topic r) k = Some c)) \<and>
    (\<forall>k. rkNodeID k = NodeID r \<longrightarrow> slotMap s (Topic r) k = None \<longrightarrow>
      (if rkKey k = [] \<and> (\<forall>k'. rkNodeID k' = NodeID r \<longrightarrow> slotMap s (Topic r) k' = None)
       then \<exists>c'. slotMap s' (Topic r) k = Some c' \<and> Tombstone c' \<and>
              (\<forall>a\<in>snd ` set w. HLC a < HLC c') \<and> GetKeyed s' (Topic r) (NodeID r) (rkKey k) = None
       else slotMap s' (Topic r) k = None)) \<and>
    (\<forall>t k. t \<noteq> Topic r \<or> rkNodeID k \<noteq> NodeID r \<longrightarrow> slotMap s' t k = slotMap s t k)"
  using assms(1,2)
proof (cases rule: attestation_outcome [where nowMs = nowMs])
  case below
  with assms(3-5) show ?thesis by simp
next
  case quorum
  then have w: "w = filed s r"
    and slots: "slotMap s' t k = slotsAfterQuorum s r w t k" for t k
    using assms(3,4) by simp_all
  have inc: "x < maxWitnessHLC w + 1 \<longleftrightarrow> x \<le> maxWitnessHLC w" for x
    using assms(6) by (rule less_plus1_iff)
  have above: "\<forall>a\<in>snd ` set w. HLC a < HLC (buried r w k)" for k
    by (auto simp: inc dest: maxWitnessHLC_ge)
  have dead: "GetKeyed s' (Topic r) (NodeID r) (rkKey k) = None"
    if "rkNodeID k = NodeID r" "slotMap s' (Topic r) k = Some (buried r w k)" for k
    using that by (cases k) (auto simp: GetKeyed_def slotMap_def split: option.splits)
  show ?thesis
  proof (intro conjI allI impI)
    fix k c assume k: "rkNodeID k = NodeID r" "slotMap s (Topic r) k = Some c"
    then have "slotMap s' (Topic r) k = Some (if HLC c \<le> maxWitnessHLC w then buried r w k else c)"
      by (simp add: slots slotsAfterQuorum_def inc)
    then show "if HLC c \<le> maxWitnessHLC w
       then \<exists>c'. slotMap s' (Topic r) k = Some c' \<and> Tombstone c' \<and> newer c' c \<and>
              (\<forall>a\<in>snd ` set w. HLC a < HLC c') \<and> GetKeyed s' (Topic r) (NodeID r) (rkKey k) = None
       else slotMap s' (Topic r) k = Some c"
      using dead [OF k(1)] above [of k] by (simp add: newer_def inc)
  next
    fix k assume k: "rkNodeID k = NodeID r" "slotMap s (Topic r) k = None"
    let ?fresh = "rkKey k = [] \<and> (\<forall>k'. rkNodeID k' = NodeID r \<longrightarrow> slotMap s (Topic r) k' = None)"
    have "slotMap s' (Topic r) k = (if ?fresh then Some (buried r w k) else None)"
      using k by (auto simp: slots slotsAfterQuorum_def)
    then show "if ?fresh
       then \<exists>c'. slotMap s' (Topic r) k = Some c' \<and> Tombstone c' \<and>
              (\<forall>a\<in>snd ` set w. HLC a < HLC c') \<and> GetKeyed s' (Topic r) (NodeID r) (rkKey k) = None
       else slotMap s' (Topic r) k = None"
      using dead [OF k(1)] above [of k] by (cases ?fresh) simp_all
  next
    fix t k assume "t \<noteq> Topic r \<or> rkNodeID k \<noteq> NodeID r"
    then show "slotMap s' t k = slotMap s t k" by (auto simp: slots slotsAfterQuorum_def)
  qed
qed

lemma slot_kept:
  assumes "wf_store s" and "slotMap s t k = Some c"
  shows "\<exists>c'. slotMap (fst (ApplyExt s nowMs r)) t k = Some c' \<and> (c' = c \<or> newer c' c)"
proof (cases "IsObserverAttestation r")
  case True
  with assms(1) show ?thesis
  proof (cases rule: attestation_outcome [where nowMs = nowMs])
    case below
    with assms(2) show ?thesis by simp
  next
    case quorum
    then show ?thesis using assms(2) by (auto simp: slotsAfterQuorum_def newer_def)
  qed
next
  case False
  from assms(1) show ?thesis
  proof (cases rule: ApplyExt_cases [where r = r and nowMs = nowMs])
    case capped
    with assms(2) show ?thesis by simp
  next
    case (owner s1 ts)
    have "slotMap s1 (Topic r) = map_of (records ts)" using owner(3) by (rule slotMap_topic)
    then show ?thesis
      using assms(2) owner(2,7)
      by (auto simp: applyOwner_def Let_def slotMap_putTopic split: option.split)
  next
    case (attestation s1 ts)
    with False show ?thesis by simp
  qed
qed

text \<open>C18: A slot never goes backwards or disappears under deliveries: whatever records and attestations
  arrive, in whatever order and at whatever local times, every occupied slot still holds its
  record or a strictly newer one. In particular the cardinality caps never evict.\<close>

theorem slot_never_regresses:
  assumes "wf_store s" and "slotMap s t k = Some c"
  shows "\<exists>c'. slotMap (applyAll s ds) t k = Some c' \<and> (c' = c \<or> newer c' c)"
  using assms
proof (induction ds arbitrary: s c)
  case (Cons d ds)
  obtain nw r where d: "d = (nw, r)" by (cases d)
  from slot_kept [OF Cons.prems, of nw r] obtain c1 where
    c1: "slotMap (fst (ApplyExt s nw r)) t k = Some c1" "c1 = c \<or> newer c1 c" by blast
  from Cons.IH [OF ApplyExt_wf [OF Cons.prems(1)] c1(1)] obtain c2 where
    "slotMap (applyAll s (d # ds)) t k = Some c2" "c2 = c1 \<or> newer c2 c1" by (auto simp: d)
  with c1(2) record_lww.nw_trans show ?case by blast
qed simp

subsection \<open>A minority of observers has no influence\<close>

lemma TopicCount_slotMap: "wf_store s \<Longrightarrow> TopicCount s t = card (dom (slotMap s t))"
proof (cases "map_of (byTopic s) t")
  case (Some ts)
  assume "wf_store s"
  then have "distinct (map fst (records ts))"
    using Some by (auto simp: wf_topic_def wf_records_def dest: wf_storeD)
  then have "card (set (map fst (records ts))) = length (records ts)"
    by (simp add: distinct_card del: set_map)
  then show ?thesis using Some by (simp add: TopicCount_def slotMap_def dom_map_of_conv_image_fst)
qed (simp add: TopicCount_def slotMap_def)

lemma heldBy_slotMap:
  "wf_store s \<Longrightarrow> heldBy s t node = card {k \<in> dom (slotMap s t). rkNodeID k = node}"
proof (cases "map_of (byTopic s) t")
  case (Some ts)
  assume "wf_store s"
  then have "distinct (map fst (records ts))"
    using Some by (auto simp: wf_topic_def wf_records_def dest: wf_storeD)
  then have "distinct (map fst (filter (\<lambda>(k, _). rkNodeID k = node) (records ts)))"
    by (rule wf_filter)
  then have "card (set (map fst (filter (\<lambda>(k, _). rkNodeID k = node) (records ts)))) = heldBy s t node"
    using Some by (simp add: heldBy_def distinct_card del: set_map)
  moreover have "set (map fst (filter (\<lambda>(k, _). rkNodeID k = node) (records ts)))
      = {k \<in> dom (slotMap s t). rkNodeID k = node}"
    using Some by (auto simp: slotMap_def dom_map_of_conv_image_fst rev_image_eqI)
  ultimately show ?thesis by simp
qed (simp add: heldBy_def slotMap_def)

lemma applyAttestationLocked_topics:
  assumes "map_of (byTopic s) (Topic att) = Some ts"
  shows "length (byTopic (fst (applyAttestationLocked s ts nowMs att))) = length (byTopic s)"
proof -
  have put: "length (AList.update (Topic att) x (byTopic s)) = length (byTopic s)" for x
    using assms by (simp add: length_update mkeys_map_of)
  show ?thesis
    by (cases rule: attestation_cases [where s = s and ts = ts and nowMs = nowMs and att = att])
      (simp_all add: put synthesise_def Let_def case_prod_beta)
qed

lemma ApplyExt_topics:
  assumes "wf_store s"
  shows "length (byTopic (fst (ApplyExt s nowMs r))) \<le> Suc (length (byTopic s))"
  using assms
proof (cases rule: ApplyExt_cases [where r = r and nowMs = nowMs])
  case capped
  then show ?thesis by simp
next
  case (owner s1 ts)
  then show ?thesis
    using applyOwner_counts(1) [OF owner(3)] length_update_le [of "Topic r" newTopicStore "byTopic s"]
    by auto
next
  case (attestation s1 ts)
  then show ?thesis
    using applyAttestationLocked_topics [OF attestation(3)]
      length_update_le [of "Topic r" newTopicStore "byTopic s"]
    by auto
qed

lemma owner_witnesses:
  assumes "wf_store s" and "\<not> IsObserverAttestation r"
  shows "set (witnessesOf (fst (ApplyExt s nowMs r)) t n) \<subseteq> set (witnessesOf s t n)"
  using assms(1)
proof (cases rule: ApplyExt_cases [where r = r and nowMs = nowMs])
  case capped
  then show ?thesis by simp
next
  case (owner s1 ts)
  have "witnessesOf s (Topic r) = currentWitnesses ts"
    using owner(3,9) by (simp only: flip: witnessesOf_topic)
  then show ?thesis
    using owner(2,9)
    by (auto simp: applyOwner_def Let_def witnessesOf_putTopic currentWitnesses_def
        split: option.splits if_splits)
next
  case (attestation s1 ts)
  with assms(2) show ?thesis by simp
qed

definition observersWithin :: "NodeID set \<Rightarrow> recordStore \<Rightarrow> bool" where
  "observersWithin B s \<longleftrightarrow> (\<forall>t n. fst ` set (witnessesOf s t n) \<subseteq> B)"

lemma minority_step:
  assumes "wf_store s" and "IsObserverAttestation r" and "ObserverNodeID r \<in> B"
    and "finite B" and "int (card B) < observerQuorum s" and "observersWithin B s"
  shows "slotMap (fst (ApplyExt s nowMs r)) = slotMap s"
    and "observersWithin B (fst (ApplyExt s nowMs r))"
proof -
  have sub: "fst ` set (filed s r) \<subseteq> B"
    using assms(3,6) filed_subset [of s r] unfolding observersWithin_def by fastforce
  have "distinct (map fst (filed s r))"
    using filed_wf [OF assms(1,2)] by (simp add: wf_witnesses_def)
  then have "length (filed s r) = card (fst ` set (filed s r))"
    by (metis distinct_card length_map set_map)
  also have "\<dots> \<le> card B" using assms(4) sub by (rule card_mono)
  finally have small: "int (length (filed s r)) < observerQuorum s" using assms(5) by linarith
  show "slotMap (fst (ApplyExt s nowMs r)) = slotMap s"
    using assms(1,2) small by (cases rule: attestation_outcome [where nowMs = nowMs]) simp_all
  have "witnessesOf (fst (ApplyExt s nowMs r)) t n \<in> {witnessesOf s t n, filed s r}" for t n
    using assms(1,2) by (cases rule: attestation_outcome [where nowMs = nowMs]) simp_all
  then show "observersWithin B (fst (ApplyExt s nowMs r))"
    using sub assms(6) unfolding observersWithin_def by (metis insertE singletonD)
qed

lemma attestation_fits:
  assumes "wf_store s" and "slotMap (fst (ApplyExt s nowMs r)) = slotMap s" and "fits s (Suc n)"
  shows "fits (fst (ApplyExt s nowMs r)) n"
  using assms(3) ApplyExt_config ApplyExt_topics [OF assms(1)]
  by (rule fits_step)
    (simp_all add: TopicCount_slotMap heldBy_slotMap ApplyExt_wf assms(1,2))

text \<open>C5: A minority cannot evict: as long as all attestations, accumulated and delivered, come from
  fewer observers than the quorum, and the caps leave room for all the deliveries (attestations
  open topics too, so they use up the topic cap), any interleaving of owner records and
  attestations leaves every slot exactly as the owner records alone leave it.\<close>

theorem minority_cannot_evict:
  assumes "wf_store s" and "fits s (length ds)" and "finite B" and "int (card B) < observerQuorum s"
    and "observersWithin B s"
    and "\<forall>r\<in>snd ` set ds. IsObserverAttestation r \<longrightarrow> ObserverNodeID r \<in> B"
  shows "storeMap (applyAll s ds) =
    fold (lww_apply newer fullSlot) (filter (\<lambda>r. \<not> IsObserverAttestation r) (map snd ds)) (storeMap s)"
  using assms
proof (induction ds arbitrary: s)
  case Nil
  then show ?case by simp
next
  case (Cons d ds)
  obtain nowMs r where d: "d = (nowMs, r)" by (cases d)
  let ?s' = "fst (ApplyExt s nowMs r)"
  let ?rest = "filter (\<lambda>r. \<not> IsObserverAttestation r) (map snd ds)"
  have fit: "fits s (Suc (length ds))" and wf': "wf_store ?s'"
    using Cons.prems(1,2) by (simp_all add: ApplyExt_wf)
  have IH: "storeMap (applyAll ?s' ds) = fold (lww_apply newer fullSlot) ?rest (storeMap ?s')"
    if "fits ?s' (length ds)" "observersWithin B ?s'"
    using that Cons.prems(3,4,6) wf' by (intro Cons.IH) (simp_all add: ApplyExt_configD)
  show ?case
  proof (cases "IsObserverAttestation r")
    case True
    then have "ObserverNodeID r \<in> B" using Cons.prems(6) d by simp
    note step = minority_step [OF Cons.prems(1) True this Cons.prems(3-5)]
    have "storeMap ?s' = storeMap s" using step(1) by (simp add: storeMap_def)
    then show ?thesis
      using IH [OF attestation_fits [OF Cons.prems(1) step(1) fit] step(2)] True d by simp
  next
    case False
    have "observersWithin B ?s'"
      using owner_witnesses [OF Cons.prems(1) False] Cons.prems(5)
      unfolding observersWithin_def by (meson image_mono order.trans)
    with IH [OF ApplyExt_fits [OF Cons.prems(1) False fit]]
      ApplyExt_refines [OF Cons.prems(1) False fit] False d
    show ?thesis by simp
  qed
qed

subsection \<open>Sample runs\<close>

definition sampleAttestation :: "NodeID \<Rightarrow> NodeID \<Rightarrow> u64 \<Rightarrow> i64 \<Rightarrow> Record" where
  "sampleAttestation obs n h at =
     zero_record\<lparr>Topic := [116], NodeID := n, HLC := h, Tombstone := True, ObserverNodeID := obs,
       ObservedAtUnixMs := at\<rparr>"

lemmas attestation_eval = store_eval applyAttestationLocked_def currentWitnesses_def
  putWitnesses_def pruneWitnesses_def newestObserved_def maxWitnessHLC_def synthesise_def
  synthTombstone_def tombstoneSlots_def sampleAttestation_def bumpRejected_def
  DefaultObserverQuorum_def sort_slice_def lessRecordKey_def

lemma Milliseconds_default [simp]:
  "Milliseconds DefaultObserverCorroborationWindow = 300000"
  by (rule Milliseconds_window)

text \<open>One live record of node 1, and one attestation of its death by observer 2.\<close>

definition oneWitness :: recordStore where
  "oneWitness = applyAll newRecordStore
     [(1000, sampleRecord [1] [] 5 [9]), (2000, sampleAttestation [2] [1] 6 1500)]"

lemma oneWitness_wf: "wf_store oneWitness"
  unfolding oneWitness_def by (rule applyAll_wf) simp

lemma oneWitness_eq: "oneWitness = newRecordStore\<lparr>byTopic :=
    [([116], \<lparr>records = [(RecordKey [1] [], sampleRecord [1] [] 5 [9])],
       attestations = [([1], [([2], sampleAttestation [2] [1] 6 1500)])],
       restoredAtUnixMs = [([1], 1000)]\<rparr>)]\<rparr>"
  by (simp add: oneWitness_def attestation_eval)

text \<open>The second observer's attestation reaches the default quorum of two.\<close>

definition secondWitness :: Record where
  "secondWitness = sampleAttestation [3] [1] 7 1600"

definition afterQuorum :: recordStore where
  "afterQuorum = fst (ApplyExt oneWitness 2000 secondWitness)"

lemma secondWitness_fields:
  "IsObserverAttestation secondWitness" "Topic secondWitness = [116]" "NodeID secondWitness = [1]"
  by (simp_all add: secondWitness_def sampleAttestation_def IsObserverAttestation_def zero_record_def)

lemma secondWitness_applied:
  "ApplyExt oneWitness 2000 secondWitness = (afterQuorum, True, True, True)"
  by (simp add: afterQuorum_def oneWitness_eq secondWitness_def attestation_eval)

lemma afterQuorum_witnesses:
  "witnessesOf afterQuorum [116] [1] =
     [([2], sampleAttestation [2] [1] 6 1500), ([3], secondWitness)]"
  by (simp add: afterQuorum_def witnessesOf_def oneWitness_eq secondWitness_def attestation_eval)

theorem applied_attestation_has_quorum_witness:
  "let (s', applied, _) = ApplyExt oneWitness 2000 secondWitness;
       w = witnessesOf s' [116] [1]
   in applied \<and> int (length w) \<ge> 2 \<and> distinct (map (ObserverNodeID \<circ> snd) w)"
  using applied_attestation_has_quorum [OF oneWitness_wf secondWitness_fields(1)
      secondWitness_applied refl] secondWitness_applied
  by (simp add: secondWitness_fields Let_def oneWitness_eq attestation_eval)

theorem quorum_tombstones_every_slot_witness:
  "GetKeyed oneWitness [116] [1] [] = Some (sampleRecord [1] [] 5 [9]) \<and>
   GetKeyed afterQuorum [116] [1] [] = None"
proof -
  have slot: "slotMap oneWitness [116] (RecordKey [1] []) = Some (sampleRecord [1] [] 5 [9])"
    by (simp add: oneWitness_eq slotMap_def)
  have q: "observerQuorum oneWitness = 2"
    by (simp add: oneWitness_eq attestation_eval)
  have m: "maxWitnessHLC (witnessesOf afterQuorum [116] [1]) = 7"
    unfolding afterQuorum_witnesses by (simp add: secondWitness_def attestation_eval)
  have "GetKeyed afterQuorum [116] [1] [] = None"
    using quorum_tombstones_every_slot [OF oneWitness_wf secondWitness_fields(1)
        secondWitness_applied refl] slot m
    unfolding secondWitness_fields q
    by (auto simp: afterQuorum_witnesses sampleRecord_def dest!: spec [of _ "RecordKey [1] []"])
  then show ?thesis
    by (simp add: oneWitness_eq GetKeyed_def cloneRecord_def sampleRecord_def zero_record_def)
qed

theorem slot_never_regresses_witness:
  "slotMap oneWitness [116] (RecordKey [1] []) = Some (sampleRecord [1] [] 5 [9]) \<and>
   (\<exists>c'. slotMap afterQuorum [116] (RecordKey [1] []) = Some c' \<and>
      (c' = sampleRecord [1] [] 5 [9] \<or> newer c' (sampleRecord [1] [] 5 [9])))"
proof -
  have slot: "slotMap oneWitness [116] (RecordKey [1] []) = Some (sampleRecord [1] [] 5 [9])"
    by (simp add: oneWitness_eq slotMap_def)
  show ?thesis
    using slot slot_never_regresses [OF oneWitness_wf slot, of "[(2000, secondWitness)]"]
    by (simp add: afterQuorum_def)
qed

theorem minority_cannot_evict_witness:
  "storeMap (applyAll newRecordStore
     [(1000, sampleRecord [1] [] 5 [9]), (2000, sampleAttestation [2] [1] 6 1500),
      (3000, sampleAttestation [2] [1] 8 2500)]) ([116], RecordKey [1] [])
   = Some (sampleRecord [1] [] 5 [9])"
proof -
  let ?ds = "[(1000 :: i64, sampleRecord [1] [] 5 [9]), (2000, sampleAttestation [2] [1] 6 1500),
      (3000, sampleAttestation [2] [1] 8 2500)]"
  have "observersWithin {[2]} newRecordStore"
    by (simp add: observersWithin_def witnessesOf_def newRecordStore_def setCaps_def)
  moreover have "\<forall>r\<in>snd ` set ?ds. IsObserverAttestation r \<longrightarrow> ObserverNodeID r \<in> {[2]}"
    by (simp add: attestation_eval)
  moreover have "int (card {[2 :: 8 word]}) < observerQuorum newRecordStore"
    by (simp add: attestation_eval)
  ultimately have "storeMap (applyAll newRecordStore ?ds) =
    fold (lww_apply newer fullSlot) (filter (\<lambda>r. \<not> IsObserverAttestation r) (map snd ?ds))
      (storeMap newRecordStore)"
    by (intro minority_cannot_evict [where B = "{[2]}"]) (simp_all add: fits_new)
  then show ?thesis
    by (simp add: attestation_eval lww_apply_def fullSlot_def storeMap_def slotMap_def)
qed

end
