(* ===== verification/Crdt_Views.thy ===== *)
theory Crdt_Views
  imports Crdt_Quorum
begin

text \<open>
  The remaining guarantees of the record store: the restored-at fence, the cardinality caps, the
  read views (sorted, complete and independent of map iteration order) and TTL retention; and
  the runs in which the attestation path does not do what its comments say.
\<close>

subsection \<open>The restored-at fence\<close>

lemma restoredAt_putTopic:
  "restoredAt (putTopic s t ts) t' n =
     (if t' = t then map_of (restoredAtUnixMs ts) n else restoredAt s t' n)"
  by (simp add: restoredAt_def)

lemma restoredAt_bump [simp]: "restoredAt (bumpRejected s) = restoredAt s"
  by (simp add: restoredAt_def fun_eq_iff)

lemma restoredAt_topic:
  "map_of (byTopic s) t = Some ts \<Longrightarrow> restoredAt s t = map_of (restoredAtUnixMs ts)"
  by (simp add: restoredAt_def fun_eq_iff)

lemma attestation_restoredAt:
  assumes "map_of (byTopic s) (Topic att) = Some ts"
  shows "restoredAt (fst (applyAttestationLocked s ts nowMs att)) t n = restoredAt s t n"
proof -
  have put: "restoredAt (putTopic s (Topic att) ts') t n = restoredAt s t n"
    if "restoredAtUnixMs ts' = restoredAtUnixMs ts" for ts'
    using that assms by (simp add: restoredAt_putTopic restoredAt_topic)
  show ?thesis
    by (cases rule: attestation_cases [where s = s and ts = ts and nowMs = nowMs and att = att])
      (simp_all add: put synthesise_def Let_def case_prod_beta)
qed

lemma ApplyExt_restoredAt:
  assumes "wf_store s"
  shows "restoredAt (fst (ApplyExt s nowMs r)) t n \<in> {restoredAt s t n, Some nowMs}"
  using assms
proof (cases rule: ApplyExt_cases [where r = r and nowMs = nowMs])
  case capped
  then show ?thesis by simp
next
  case (owner s1 ts)
  have "restoredAt s (Topic r) = map_of (restoredAtUnixMs ts)"
    using owner(3,8) by (simp only: flip: restoredAt_topic)
  then show ?thesis
    using owner(2,8)
    by (auto simp: applyOwner_def Let_def restoredAt_putTopic stampRestored_def split: option.split)
next
  case (attestation s1 ts)
  then show ?thesis by (simp add: attestation_restoredAt)
qed

lemma owner_stamps:
  assumes "wf_store s" and "\<not> IsObserverAttestation r" and "\<not> Tombstone r"
    and "fst (snd (ApplyExt s nowMs r))"
  shows "restoredAt (fst (ApplyExt s nowMs r)) (Topic r) (NodeID r) = Some nowMs"
  using assms(1)
proof (cases rule: ApplyExt_cases [where r = r and nowMs = nowMs])
  case capped
  with assms(4) show ?thesis by simp
next
  case (owner s1 ts)
  then show ?thesis
    using assms(3,4)
    by (auto simp: applyOwner_def Let_def restoredAt_putTopic stampRestored_def
        split: option.splits if_splits)
next
  case (attestation s1 ts)
  with assms(2) show ?thesis by simp
qed

lemma applyAll_restoredAt:
  assumes "wf_store s" and "restoredAt s t n = Some h" and "sint now0 \<le> sint h"
    and "\<forall>nowMs\<in>fst ` set ds. sint now0 \<le> sint nowMs"
  shows "\<exists>h'. restoredAt (applyAll s ds) t n = Some h' \<and> sint now0 \<le> sint h'"
  using assms
proof (induction ds arbitrary: s h)
  case Nil
  then show ?case by simp
next
  case (Cons d ds)
  obtain nowMs r where d: "d = (nowMs, r)" by (cases d)
  obtain h1 where "restoredAt (fst (ApplyExt s nowMs r)) t n = Some h1" "sint now0 \<le> sint h1"
    using ApplyExt_restoredAt [OF Cons.prems(1), of nowMs r t n] Cons.prems(2-4) d by auto
  with Cons.IH [OF ApplyExt_wf [OF Cons.prems(1)]] Cons.prems(4) d show ?case by simp
qed

text \<open>C19: The restored-at fence: once a live owner record is applied at local time \<open>now0\<close>, an
  attestation that the node was seen dead at or before \<open>now0\<close> is refused without any change of
  the store, however late it arrives and whatever is delivered in between, as long as the local
  clock does not go back before \<open>now0\<close>.\<close>

theorem restored_fence_holds:
  assumes "wf_store s" and "\<not> IsObserverAttestation r" and "\<not> Tombstone r"
    and "ApplyExt s now0 r = (s1, True, replaced, accumulated)"
    and "\<forall>nowMs\<in>fst ` set ds. sint now0 \<le> sint nowMs"
    and "IsObserverAttestation a" and "Topic a = Topic r" and "NodeID a = NodeID r"
    and "sint (ObservedAtUnixMs a) \<le> sint now0"
  shows "ApplyExt (applyAll s1 ds) now1 a = (applyAll s1 ds, False, False, False)"
proof -
  let ?s = "applyAll s1 ds"
  have "restoredAt s1 (Topic r) (NodeID r) = Some now0" and "wf_store s1"
    using owner_stamps [OF assms(1-3), of now0] ApplyExt_wf [OF assms(1), of now0 r] assms(4)
    by simp_all
  with assms(5) obtain h where h: "restoredAt ?s (Topic a) (NodeID a) = Some h" "sint now0 \<le> sint h"
    using applyAll_restoredAt [of s1 "Topic r" "NodeID r" now0 now0 ds] assms(7,8) by auto
  from h(1) obtain ts where ts: "map_of (byTopic ?s) (Topic a) = Some ts"
    "map_of (restoredAtUnixMs ts) (NodeID a) = Some h"
    by (auto simp: restoredAt_def split: option.splits)
  have "sint (ObservedAtUnixMs a) \<le> sint h" using assms(9) h(2) by linarith
  then have "applyAttestationLocked ?s ts now1 a = (?s, False, False, False)"
    unfolding applyAttestationLocked_def by (simp add: ts)
  then show ?thesis using ts assms(6) by (simp add: ApplyExt_def)
qed

theorem restored_fence_holds_witness:
  "let s1 = applyAll newRecordStore [(1000, sampleRecord [1] [] 5 [9])];
       s2 = applyAll s1 [(1200, sampleRecord [3] [] 2 [7])]
   in ApplyExt s2 2000 (sampleAttestation [2] [1] 6 900) = (s2, False, False, False)"
proof -
  let ?r = "sampleRecord [1] [] 5 [9]" and ?a = "sampleAttestation [2] [1] 6 900"
  have "ApplyExt newRecordStore 1000 ?r =
      (applyAll newRecordStore [(1000, ?r)], True, False, False)"
    by (simp add: attestation_eval)
  from restored_fence_holds [OF wf_store_new _ _ this, of "[(1200, sampleRecord [3] [] 2 [7])]" ?a 2000]
  show ?thesis by (simp add: Let_def sampleRecord_def sampleAttestation_def zero_record_def
        IsObserverAttestation_def)
qed

text \<open>C34: The fence does not clear the witness set on every restore: a live owner record that updates
  an occupied slot discards the attestations accumulated for its node, but one that opens a new
  slot (another key of the same node) stamps the fence and keeps them all, including those
  observed before the stamp, which then count towards the quorum with a single later one.\<close>

theorem new_slot_keeps_witnesses:
  assumes "wf_store s" and "\<not> IsObserverAttestation r" and "\<not> Tombstone r"
    and "ApplyExt s now0 r = (s', True, replaced, accumulated)"
  shows "restoredAt s' (Topic r) (NodeID r) = Some now0 \<and>
    witnessesOf s' (Topic r) (NodeID r) =
      (if slotMap s (Topic r) (keyOf r) = None then witnessesOf s (Topic r) (NodeID r) else [])"
  using assms(1)
proof (cases rule: ApplyExt_cases [where r = r and nowMs = now0])
  case capped
  with assms(4) show ?thesis by simp
next
  case (owner s1 ts)
  have "witnessesOf s (Topic r) = currentWitnesses ts" "slotMap s (Topic r) = map_of (records ts)"
    using owner(3,7,9) by (simp_all only: flip: witnessesOf_topic slotMap_topic)
  moreover have "applyOwner s1 ts now0 r = (s', True, replaced, accumulated)"
    using owner(2) assms(4) by simp
  moreover have "restoredAt s' (Topic r) (NodeID r) = Some now0"
    using owner_stamps [OF assms(1-3), of now0] assms(4) by simp
  ultimately show ?thesis
    by (auto simp: applyOwner_def Let_def witnessesOf_putTopic currentWitnesses_def
        split: option.splits if_splits)
next
  case (attestation s1 ts)
  with assms(2) show ?thesis by simp
qed

theorem new_slot_keeps_witnesses_witness:
  "let s = applyAll oneWitness [(3000, sampleRecord [1] [7] 10 [9])]
   in restoredAt s [116] [1] = Some 3000 \<and>
      witnessesOf s [116] [1] = [([2], sampleAttestation [2] [1] 6 1500)] \<and>
      GetKeyed s [116] [1] [7] \<noteq> None \<and>
      GetKeyed (fst (ApplyExt s 3100 (sampleAttestation [3] [1] 20 3001))) [116] [1] [7] = None"
proof -
  let ?r = "sampleRecord [1] [7] 10 [9]"
  let ?s = "applyAll oneWitness [(3000, ?r)]"
  have step: "ApplyExt oneWitness 3000 ?r = (?s, True, False, False)"
    by (simp add: oneWitness_eq attestation_eval)
  have own: "\<not> IsObserverAttestation ?r" "\<not> Tombstone ?r"
    by (simp_all add: attestation_eval)
  have "restoredAt ?s [116] [1] = Some 3000 \<and>
      witnessesOf ?s [116] [1] = [([2], sampleAttestation [2] [1] 6 1500)]"
    using new_slot_keeps_witnesses [OF oneWitness_wf own step]
    by (simp add: oneWitness_eq slotMap_def witnessesOf_def sampleRecord_def zero_record_def keyOf_def)
  moreover have "GetKeyed ?s [116] [1] [7] \<noteq> None"
    by (simp add: oneWitness_eq attestation_eval GetKeyed_def)
  moreover have "GetKeyed (fst (ApplyExt ?s 3100 (sampleAttestation [3] [1] 20 3001))) [116] [1] [7] = None"
    by (simp add: oneWitness_eq attestation_eval GetKeyed_def)
  ultimately show ?thesis by (simp add: Let_def)
qed

text \<open>The window test wraps: an attestation whose observation time is the smallest 64-bit
  integer survives the pruning of a five-minute window next to one observed at time 1500, because
  their difference overflows, and the two are a quorum.\<close>

theorem window_overflow_reaches_quorum:
  "let s = applyAll newRecordStore [(2000, sampleAttestation [2] [1] 6 (push_bit 63 1))];
       (s', applied, _) = ApplyExt s 2000 (sampleAttestation [3] [1] 7 1500)
   in applied \<and> map (sint \<circ> ObservedAtUnixMs \<circ> snd) (witnessesOf s' [116] [1]) = [- (2 ^ 63), 1500] \<and>
      Milliseconds (observerCorroborationWindow s) = 300000"
  by (simp add: attestation_eval witnessesOf_def)

text \<open>Synthesis ignores the record cap: with at most one record per topic, a quorum about a node
  the store has never heard of adds a second record to a full topic.\<close>

theorem synthesis_exceeds_record_cap:
  "let s0 = setCaps newRecordStore 0 1 0 0;
       s = applyAll s0 [(1000, sampleRecord [1] [] 5 [9]), (2000, sampleAttestation [2] [8] 6 1500),
             (2000, sampleAttestation [3] [8] 7 1600)]
   in maxRecordsPerTopic s = 1 \<and> TopicCount s [116] = 2 \<and>
      TopicCount (applyAll s0 [(1000, sampleRecord [1] [] 5 [9]), (2000, sampleRecord [8] [] 6 [9])]) [116] = 1"
  by (simp add: attestation_eval TopicCount_def)

subsection \<open>Cardinality caps\<close>

definition withinCaps :: "recordStore \<Rightarrow> bool" where
  "withinCaps s \<longleftrightarrow> 0 < maxKeysPerNode s \<and> int (length (byTopic s)) \<le> maxTopics s \<and>
     (\<forall>t. int (TopicCount s t) \<le> maxRecordsPerTopic s) \<and>
     (\<forall>t node. int (heldBy s t node) \<le> maxKeysPerNode s) \<and>
     (\<forall>t n. int (length (witnessesOf s t n)) \<le> maxAttestations s)"

lemma length_prune_le: "length (pruneWitnesses w m) \<le> length w"
  by (simp add: pruneWitnesses_def Let_def)

lemma witness_cap:
  assumes "wf_store s" and "int (length (witnessesOf s t n)) \<le> maxAttestations s"
  shows "int (length (witnessesOf (fst (ApplyExt s nowMs r)) t n)) \<le> maxAttestations s"
  using assms(1)
proof (cases rule: ApplyExt_cases [where r = r and nowMs = nowMs])
  case capped
  with assms(2) show ?thesis by simp
next
  case (owner s1 ts)
  have "witnessesOf s (Topic r) = currentWitnesses ts"
    using owner(3,9) by (simp only: flip: witnessesOf_topic)
  then show ?thesis
    using owner(2,9) assms(2)
    by (auto simp: applyOwner_def Let_def witnessesOf_putTopic currentWitnesses_def
        split: option.splits if_splits)
next
  case (attestation s1 ts)
  have wit: "witnessesOf s (Topic r) = currentWitnesses ts"
    using attestation(3,9) by (simp only: flip: witnessesOf_topic)
  have cfg: "maxAttestations s1 = maxAttestations s" using attestation(6) by auto
  let ?cur = "currentWitnesses ts (NodeID r)"
  have next_le: "int (length (nextWitnesses s1 ts r)) \<le> maxAttestations s"
    if "\<not> witnessCapped s1 ts r" "int (length ?cur) \<le> maxAttestations s"
  proof -
    have "int (length (AList.update (ObserverNodeID r) r ?cur)) \<le> maxAttestations s"
      using that cfg by (auto simp: witnessCapped_def length_update mkeys_map_of)
    then show ?thesis
      using length_prune_le [of "AList.update (ObserverNodeID r) r ?cur"] unfolding nextWitnesses_def
      by (meson of_nat_mono order.trans)
  qed
  show ?thesis
    by (cases rule: attestation_cases [where s = s1 and ts = ts and nowMs = nowMs and att = r])
      (use assms(2) next_le in \<open>auto simp: attestation(2,9) witnessesOf_putTopic synthesise_witnesses wit\<close>)
qed

lemma length_filter_update:
  "length (filter (\<lambda>(k, _). Q k) (AList.update k v m)) =
    length (filter (\<lambda>(k, _). Q k) m) + (if map_of m k = None \<and> Q k then 1 else 0)"
  by (induction m) auto

lemma applyOwner_caps:
  assumes "map_of (byTopic s) (Topic r) = Some ts"
    and "int (TopicCount s t) \<le> maxRecordsPerTopic s" and "int (heldBy s t node) \<le> maxKeysPerNode s"
    and "0 < maxKeysPerNode s"
  shows "int (TopicCount (fst (applyOwner s ts nowMs r)) t) \<le> maxRecordsPerTopic s \<and>
    int (heldBy (fst (applyOwner s ts nowMs r)) t node) \<le> maxKeysPerNode s"
proof (cases "t = Topic r")
  case False
  then show ?thesis
    using assms by (auto simp: applyOwner_def Let_def TopicCount_def heldBy_def split: option.split)
next
  case True
  then have "int (length (records ts)) \<le> maxRecordsPerTopic s"
    and "int (length (filter (\<lambda>(k, _). rkNodeID k = node) (records ts))) \<le> maxKeysPerNode s"
    using assms by (simp_all add: TopicCount_def heldBy_def)
  then show ?thesis
    using assms True
    by (auto simp: applyOwner_def Let_def TopicCount_def heldBy_def length_update mkeys_map_of
        length_filter_update keyOf_def split: option.split)
qed

text \<open>C25: The caps hold: delivering an owner record to a store within its caps leaves the number of
  topics, of records per topic, of keys per node and of attestations per target within them, and
  no delivery of any kind pushes the topics or a target's attestations over their caps. The
  record cap is not claimed for attestations: the tombstone a quorum leaves for an unknown node is
  inserted without asking for it.\<close>

theorem caps_respected:
  assumes "wf_store s" and "withinCaps s"
  shows "int (length (byTopic (fst (ApplyExt s nowMs r)))) \<le> maxTopics s \<and>
    (\<forall>t n. int (length (witnessesOf (fst (ApplyExt s nowMs r)) t n)) \<le> maxAttestations s) \<and>
    (IsObserverAttestation r \<or> withinCaps (fst (ApplyExt s nowMs r)))"
proof -
  let ?s' = "fst (ApplyExt s nowMs r)"
  have topics: "int (length (byTopic ?s')) \<le> maxTopics s"
    using ApplyExt_wf [OF assms(1), of nowMs r] by (simp add: wf_store_def ApplyExt_configD)
  have wits: "\<forall>t n. int (length (witnessesOf ?s' t n)) \<le> maxAttestations s"
    using witness_cap [OF assms(1)] assms(2) by (simp add: withinCaps_def)
  have "int (TopicCount ?s' t) \<le> maxRecordsPerTopic s \<and> int (heldBy ?s' t node) \<le> maxKeysPerNode s"
    if own: "\<not> IsObserverAttestation r" for t node
    using assms(1)
  proof (cases rule: ApplyExt_cases [where r = r and nowMs = nowMs])
    case capped
    with assms(2) show ?thesis by (simp add: withinCaps_def TopicCount_def heldBy_def)
  next
    case (owner s1 ts)
    have "TopicCount s1 t = TopicCount s t" "heldBy s1 t node = heldBy s t node"
      using owner(4,7) by (simp_all add: TopicCount_slotMap heldBy_slotMap assms(1))
    moreover have "maxRecordsPerTopic s1 = maxRecordsPerTopic s" "maxKeysPerNode s1 = maxKeysPerNode s"
      using owner(6) by auto
    ultimately show ?thesis
      using assms(2) owner(3) applyOwner_caps [OF owner(3), of t node nowMs] unfolding owner(2)
      by (simp add: withinCaps_def)
  next
    case (attestation s1 ts)
    with own show ?thesis by simp
  qed
  with topics wits assms(2) show ?thesis by (auto simp: withinCaps_def ApplyExt_configD)
qed

theorem caps_respected_witness:
  "withinCaps oneWitness \<and> withinCaps (fst (ApplyExt oneWitness 3000 (sampleRecord [1] [7] 10 [9])))"
proof -
  have caps: "withinCaps oneWitness"
    by (simp add: withinCaps_def oneWitness_eq attestation_eval TopicCount_def heldBy_def
        witnessesOf_def)
  moreover have "\<not> IsObserverAttestation (sampleRecord [1] [7] 10 [9])"
    by (simp add: attestation_eval)
  ultimately show ?thesis
    using caps_respected [OF oneWitness_wf caps, of 3000 "sampleRecord [1] [7] 10 [9]"] by blast
qed

subsection \<open>Read views\<close>

lemma distinct_slots:
  assumes "wf_store s" and "map_of (byTopic s) t = Some ts"
  shows "distinct (map keyOf (filter keep (map snd (records ts))))"
proof -
  have "wf_records t (records ts)" using wf_storeD [OF assms] by (simp add: wf_topic_def)
  then have "map keyOf (map snd (records ts)) = map fst (records ts)" "wf_map (records ts)"
    by (auto simp: wf_records_def)
  then show ?thesis by (metis distinct_map_filter)
qed

text \<open>What a view of a topic lists: exactly the kept records of its slots, in slot order.\<close>

lemma topicRecordsWhere_exact:
  assumes "wf_store s"
  shows "sorted_wrt (\<lambda>a b. lessRecordKey (keyOf a) (keyOf b)) (topicRecordsWhere s t keep)"
    and "set (topicRecordsWhere s t keep) = {r. keep r \<and> slotMap s t (keyOf r) = Some r}"
proof -
  show "sorted_wrt (\<lambda>a b. lessRecordKey (keyOf a) (keyOf b)) (topicRecordsWhere s t keep)"
    using distinct_slots [OF assms]
    by (auto simp: topicRecordsWhere_def slot_order.sorted_sort_slice split: option.split)
  show "set (topicRecordsWhere s t keep) = {r. keep r \<and> slotMap s t (keyOf r) = Some r}"
  proof (cases "map_of (byTopic s) t")
    case None
    then show ?thesis by (simp add: topicRecordsWhere_def slotMap_def)
  next
    case (Some ts)
    then have wf: "wf_records t (records ts)"
      using wf_storeD [OF assms] by (auto simp: wf_topic_def)
    have "r \<in> snd ` set (records ts) \<longleftrightarrow> map_of (records ts) (keyOf r) = Some r" for r
    proof
      assume "r \<in> snd ` set (records ts)"
      then obtain k where "(k, r) \<in> set (records ts)" by auto
      with wf show "map_of (records ts) (keyOf r) = Some r" by (auto simp: wf_records_def)
    next
      assume "map_of (records ts) (keyOf r) = Some r"
      then show "r \<in> snd ` set (records ts)" by (auto dest: map_of_SomeD simp: rev_image_eqI)
    qed
    with Some show ?thesis by (auto simp: topicRecordsWhere_def slotMap_def)
  qed
qed

lemma topicRecordsWhere_slotMap:
  assumes "wf_store s" and "wf_store s'" and "slotMap s t = slotMap s' t"
  shows "topicRecordsWhere s t keep = topicRecordsWhere s' t keep"
  using topicRecordsWhere_exact [OF assms(1)] topicRecordsWhere_exact [OF assms(2)] assms(3)
  by (intro slot_order.sorted_wrt_unique [where key = keyOf]) auto

lemma cloneRecord_id [simp]: "cloneRecord = (\<lambda>r. r)"
  by (simp add: cloneRecord_def fun_eq_iff)

lemma map_filter_lookup:
  "set ks \<subseteq> dom m \<Longrightarrow> List.map_filter (\<lambda>k. map_option (\<lambda>r. r) (m k)) ks = map (the \<circ> m) ks"
  by (induction ks) (auto simp: List.map_filter_def)

lemma NodeRecords_eq:
  assumes "wf_store s"
  shows "NodeRecords s t n = topicRecordsWhere s t (\<lambda>r. NodeID r = n \<and> \<not> Tombstone r)"
proof (cases "map_of (byTopic s) t")
  case None
  then show ?thesis by (simp add: NodeRecords_def topicRecordsWhere_def)
next
  case (Some ts)
  then have wf: "wf_records t (records ts)" using wf_storeD [OF assms] by (auto simp: wf_topic_def)
  let ?ks = "map fst (filter (\<lambda>(k, r). rkNodeID k = n \<and> \<not> Tombstone r) (records ts))"
  let ?ks' = "sort_slice lessRecordKey ?ks"
  have keys: "distinct ?ks" using wf by (intro wf_filter) (simp add: wf_records_def)
  have sub: "set ?ks' \<subseteq> dom (map_of (records ts))"
    by (auto simp: dom_map_of_conv_image_fst rev_image_eqI)
  have lookup: "keyOf (the (map_of (records ts) k)) = k" if "k \<in> set ?ks'" for k
    using that sub wf by (auto dest!: wf_recordsD)
  have eq: "NodeRecords s t n = map (the \<circ> map_of (records ts)) ?ks'"
    using Some map_filter_lookup [OF sub] by (simp add: NodeRecords_def)
  have "sorted_wrt lessRecordKey ?ks'"
    using slot_order.sorted_sort_slice [where key = "\<lambda>k. k"] keys by simp
  then have "sorted_wrt (\<lambda>a b. lessRecordKey (keyOf a) (keyOf b)) (NodeRecords s t n)"
    unfolding eq sorted_wrt_map by (rule sorted_wrt_mono_rel [rotated]) (simp add: lookup)
  moreover have "set (NodeRecords s t n)
      = {r. (NodeID r = n \<and> \<not> Tombstone r) \<and> slotMap s t (keyOf r) = Some r}"
  proof -
    have m: "(k, r) \<in> set (records ts) \<longleftrightarrow> map_of (records ts) k = Some r" for k r
      using wf by (simp add: wf_records_def)
    have node: "NodeID r = rkNodeID k \<and> k = keyOf r" if "map_of (records ts) k = Some r" for k r
      using wf_recordsD [OF wf that] by (auto simp: keyOf_def)
    have "set ?ks' = {k. \<exists>r. map_of (records ts) k = Some r \<and> rkNodeID k = n \<and> \<not> Tombstone r}"
      by (auto simp: m image_iff)
    moreover have "(the \<circ> m) ` {k. \<exists>r. m k = Some r \<and> Q k r} = {r. \<exists>k. m k = Some r \<and> Q k r}"
      for m :: "recordKey \<rightharpoonup> Record" and Q by force
    ultimately have "set (NodeRecords s t n)
        = {r. \<exists>k. map_of (records ts) k = Some r \<and> rkNodeID k = n \<and> \<not> Tombstone r}"
      unfolding eq by (simp only: set_map)
    also have "\<dots> = {r. (NodeID r = n \<and> \<not> Tombstone r) \<and> slotMap s t (keyOf r) = Some r}"
    proof (intro Collect_cong iffI)
      fix r assume "\<exists>k. map_of (records ts) k = Some r \<and> rkNodeID k = n \<and> \<not> Tombstone r"
      then obtain k where k: "map_of (records ts) k = Some r" "rkNodeID k = n" "\<not> Tombstone r" by blast
      with node [OF k(1)] Some show "(NodeID r = n \<and> \<not> Tombstone r) \<and> slotMap s t (keyOf r) = Some r"
        by (simp add: slotMap_def)
    next
      fix r assume "(NodeID r = n \<and> \<not> Tombstone r) \<and> slotMap s t (keyOf r) = Some r"
      with Some show "\<exists>k. map_of (records ts) k = Some r \<and> rkNodeID k = n \<and> \<not> Tombstone r"
        by (intro exI [of _ "keyOf r"]) (auto simp: slotMap_def keyOf_def)
    qed
    finally show ?thesis .
  qed
  ultimately show ?thesis
    using topicRecordsWhere_exact [OF assms, of t "\<lambda>r. NodeID r = n \<and> \<not> Tombstone r"]
    by (intro slot_order.sorted_wrt_unique [where key = keyOf]) simp_all
qed

text \<open>C24: The record reads are functions of the slots: two well-formed stores that hold the same records
  answer the topic listing, its variants with tombstones and of signed records only, the node
  listing, the keyed read and the topic count the same way, whatever order their maps iterate in.
  The topic listing is in slot order and lists exactly the live records of the topic, the node
  listing those of the node, and the keyed read finds exactly the live record of its slot. The
  list of topics and the attestations of a topic are not among these reads: they also depend on
  the witness sets.\<close>

theorem views_depend_on_slots_only:
  assumes "wf_store s" and "wf_store s'" and "storeMap s = storeMap s'"
  shows "TopicRecords s t = TopicRecords s' t \<and> topicRecordsAll s t = topicRecordsAll s' t \<and>
    topicRecordsSigned s t = topicRecordsSigned s' t \<and> NodeRecords s t n = NodeRecords s' t n \<and>
    GetKeyed s t n k = GetKeyed s' t n k \<and> TopicCount s t = TopicCount s' t \<and>
    sorted_wrt (\<lambda>a b. lessRecordKey (keyOf a) (keyOf b)) (TopicRecords s t) \<and>
    set (TopicRecords s t) = {r. \<not> Tombstone r \<and> storeMap s (t, keyOf r) = Some r} \<and>
    set (NodeRecords s t n) = {r \<in> set (TopicRecords s t). NodeID r = n} \<and>
    (GetKeyed s t n k = Some r \<longleftrightarrow> r \<in> set (TopicRecords s t) \<and> NodeID r = n \<and> Key r = k)"
proof -
  have slots: "slotMap s t = slotMap s' t"
    using assms(3) by (auto simp: storeMap_def fun_eq_iff)
  have get: "GetKeyed s t n k =
      (case slotMap s t (RecordKey n k) of Some r \<Rightarrow> if Tombstone r then None else Some r | None \<Rightarrow> None)"
    for s by (simp add: GetKeyed_def slotMap_def split: option.split)
  have fields: "Topic r = t \<and> NodeID r = n' \<and> Key r = k'" if "slotMap s t (RecordKey n' k') = Some r" for n' k' r
  proof -
    from that obtain ts where ts: "map_of (byTopic s) t = Some ts" "map_of (records ts) (RecordKey n' k') = Some r"
      by (auto simp: slotMap_def split: option.splits)
    then have "wf_records t (records ts)" using wf_storeD [OF assms(1)] by (auto simp: wf_topic_def)
    from wf_recordsD [OF this ts(2)] show ?thesis by (simp add: keyOf_def)
  qed
  note exact = topicRecordsWhere_exact [OF assms(1)]
  have "GetKeyed s t n k = Some r \<longleftrightarrow> r \<in> set (TopicRecords s t) \<and> NodeID r = n \<and> Key r = k"
    unfolding get TopicRecords_def
    by (auto simp: exact keyOf_def dest: fields split: option.splits)
  moreover have "TopicRecords s t = TopicRecords s' t" "topicRecordsAll s t = topicRecordsAll s' t"
    "topicRecordsSigned s t = topicRecordsSigned s' t" "NodeRecords s t n = NodeRecords s' t n"
    unfolding TopicRecords_def topicRecordsAll_def topicRecordsSigned_def
      NodeRecords_eq [OF assms(1)] NodeRecords_eq [OF assms(2)]
      topicRecordsWhere_slotMap [OF assms(1,2) slots] by (rule refl)+
  moreover have "GetKeyed s t n k = GetKeyed s' t n k" "TopicCount s t = TopicCount s' t"
    unfolding get TopicCount_slotMap [OF assms(1)] TopicCount_slotMap [OF assms(2)] slots
    by (rule refl)+
  moreover have "sorted_wrt (\<lambda>a b. lessRecordKey (keyOf a) (keyOf b)) (TopicRecords s t)"
    by (simp add: TopicRecords_def exact)
  moreover have "set (TopicRecords s t) = {r. \<not> Tombstone r \<and> storeMap s (t, keyOf r) = Some r}"
    by (simp add: TopicRecords_def exact storeMap_def)
  moreover have "set (NodeRecords s t n) = {r \<in> set (TopicRecords s t). NodeID r = n}"
    unfolding NodeRecords_eq [OF assms(1)] TopicRecords_def by (auto simp: exact)
  ultimately show ?thesis by (intro conjI)
qed

theorem views_depend_on_slots_only_witness:
  "let a = sampleRecord [1] [] 5 [9]; b = sampleRecord [2] [] 6 [8];
       s = applyAll newRecordStore [(1, a), (2, b)]; s' = applyAll newRecordStore [(3, b), (4, a)]
   in byTopic s \<noteq> byTopic s' \<and> TopicRecords s [116] = TopicRecords s' [116]"
proof -
  let ?a = "sampleRecord [1] [] 5 [9]" and ?b = "sampleRecord [2] [] 6 [8]"
  let ?s = "applyAll newRecordStore [(1, ?a), (2, ?b)]"
  let ?s' = "applyAll newRecordStore [(3, ?b), (4, ?a)]"
  have "storeMap ?s = storeMap ?s'"
    by (auto simp: fun_eq_iff storeMap_def slotMap_def store_eval)
  then have "TopicRecords ?s [116] = TopicRecords ?s' [116]"
    using views_depend_on_slots_only [of ?s ?s' "[116]"] applyAll_wf [OF wf_store_new] by blast
  moreover have "byTopic ?s \<noteq> byTopic ?s'" by (simp add: store_eval)
  ultimately show ?thesis by (simp add: Let_def)
qed

end
