(* ===== verification/Crdt_Reap.thy ===== *)
theory Crdt_Reap
  imports Crdt_Views
begin

text \<open>
  TTL retention: \<open>reapExpired\<close> drops exactly the expired records of topics with a TTL, counts them,
  keeps the fence of every node that still holds a slot, and keeps a tombstone one TTL longer than
  the live records it supersedes.
\<close>

subsection \<open>One topic\<close>

lemma reapTopic_fields:
  "records (fst (reapTopic nowMs ttlMs ts)) = filter (\<lambda>(_, r). \<not> expired nowMs ttlMs r) (records ts)"
  "attestations (fst (reapTopic nowMs ttlMs ts)) = attestations ts"
  "snd (reapTopic nowMs ttlMs ts) + length (records (fst (reapTopic nowMs ttlMs ts))) = length (records ts)"
proof -
  have split: "length (filter (\<lambda>(_, r). P r) xs) + length (filter (\<lambda>(_, r). \<not> P r) xs) = length xs"
    for P and xs :: "(recordKey, Record) gomap" by (induction xs) auto
  show "records (fst (reapTopic nowMs ttlMs ts)) = filter (\<lambda>(_, r). \<not> expired nowMs ttlMs r) (records ts)"
    "attestations (fst (reapTopic nowMs ttlMs ts)) = attestations ts"
    "snd (reapTopic nowMs ttlMs ts) + length (records (fst (reapTopic nowMs ttlMs ts))) = length (records ts)"
    by (simp_all add: reapTopic_def Let_def split)
qed

lemma reapTopic_restored:
  "wf_map (restoredAtUnixMs ts) \<Longrightarrow>
   map_of (restoredAtUnixMs (fst (reapTopic nowMs ttlMs ts))) n =
     (if nodePresent (fst (reapTopic nowMs ttlMs ts)) n then map_of (restoredAtUnixMs ts) n else None)"
  by (simp add: reapTopic_def Let_def nodePresent_def map_of_filter_case split: option.split)

subsection \<open>All topics\<close>

lemma reapTopics_lookup:
  assumes "wf_map bt"
  shows "map_of (fst (reapTopics nowMs f bt)) t =
    (case map_of bt t of
       None \<Rightarrow> None
     | Some ts \<Rightarrow>
         if f t \<le> 0 then Some ts
         else let ts' = fst (reapTopic nowMs (Milliseconds (f t)) ts)
              in if records ts' = [] \<and> attestations ts' = [] then None else Some ts')"
  using assms
proof (induction nowMs f bt rule: reapTopics.induct)
  case (1 nowMs f)
  then show ?case by simp
next
  case (2 nowMs f t' ts rest)
  have "map_of (fst (reapTopics nowMs f rest)) t' = None"
    using 2 reapTopics_keys [of nowMs f rest] by (auto simp: map_of_eq_None_iff)
  with 2 show ?case by (auto simp: Let_def case_prod_beta)
qed

lemma reapTopics_count:
  "snd (reapTopics nowMs f bt) + sum_list (map (\<lambda>(_, ts). length (records ts)) (fst (reapTopics nowMs f bt)))
     = sum_list (map (\<lambda>(_, ts). length (records ts)) bt)"
proof (induction nowMs f bt rule: reapTopics.induct)
  case (1 nowMs f)
  then show ?case by simp
next
  case (2 nowMs f t ts rest)
  then show ?case
    using reapTopic_fields(3) [of nowMs "Milliseconds (f t)" ts]
    by (auto simp: Let_def case_prod_beta)
qed

lemma Count_sum: "Count s = sum_list (map (\<lambda>(_, ts). length (records ts)) (byTopic s))"
proof -
  have "foldl (\<lambda>total (_, ts). total + length (records ts)) n bt
      = n + sum_list (map (\<lambda>(_, ts). length (records ts)) bt)" for n and bt :: "(Topic, topicStore) gomap"
    by (induction bt arbitrary: n) (auto simp: case_prod_beta)
  then show ?thesis by (simp add: Count_def)
qed

lemma reapExpired_topic:
  assumes "wf_store s"
  shows "map_of (byTopic (fst (reapExpired s nowMs (Some f)))) t =
    (case map_of (byTopic s) t of
       None \<Rightarrow> None
     | Some ts \<Rightarrow>
         if f t \<le> 0 then Some ts
         else let ts' = fst (reapTopic nowMs (Milliseconds (f t)) ts)
              in if records ts' = [] \<and> attestations ts' = [] then None else Some ts')"
  using assms by (simp add: reapExpired_def case_prod_beta wf_store_def reapTopics_lookup)

lemma nodePresent_iff:
  "nodePresent ts n \<longleftrightarrow> (\<exists>k. rkNodeID k = n \<and> map_of (records ts) k \<noteq> None)"
  by (force simp: nodePresent_def list_ex_iff map_of_eq_None_iff)

lemma reap_slots:
  assumes "wf_store s"
  shows "slotMap (fst (reapExpired s nowMs (Some f))) t k =
    (case slotMap s t k of
       Some r \<Rightarrow> if 0 < f t \<and> expired nowMs (Milliseconds (f t)) r then None else Some r
     | None \<Rightarrow> None)"
proof (cases "map_of (byTopic s) t")
  case None
  then show ?thesis by (simp add: slotMap_def reapExpired_topic [OF assms])
next
  case (Some ts)
  let ?ts' = "fst (reapTopic nowMs (Milliseconds (f t)) ts)"
  have "wf_map (records ts)" using wf_storeD [OF assms Some] by (simp add: wf_topic_def wf_records_def)
  then have "map_of (records ?ts') k = (case map_of (records ts) k of
      Some r \<Rightarrow> if expired nowMs (Milliseconds (f t)) r then None else Some r | None \<Rightarrow> None)"
    by (simp add: reapTopic_fields map_of_filter_case split: option.split)
  moreover have "slotMap (fst (reapExpired s nowMs (Some f))) t =
      (if f t \<le> 0 then map_of (records ts) else map_of (records ?ts'))"
    using Some by (simp add: slotMap_def reapExpired_topic [OF assms] Let_def)
  ultimately show ?thesis using Some by (auto simp: slotMap_topic split: option.split)
qed

text \<open>C26: Retention is exact: reaping removes a record if and only if its topic has a positive TTL and
  the record is expired (a live record older than the TTL, a tombstone older than twice the TTL),
  changes no other slot, reports the number removed, and forgets the restored-at stamp of a node
  exactly when none of its slots on the topic is left.\<close>

theorem reap_is_exact:
  assumes "wf_store s" and "reapExpired s nowMs (Some f) = (s', dropped)"
  shows "slotMap s' t k =
      (case slotMap s t k of
         Some r \<Rightarrow> if 0 < f t \<and> expired nowMs (Milliseconds (f t)) r then None else Some r
       | None \<Rightarrow> None) \<and>
    dropped + Count s' = Count s \<and>
    restoredAt s' t n =
      (if f t \<le> 0 \<or> (\<exists>k. rkNodeID k = n \<and> slotMap s' t k \<noteq> None) then restoredAt s t n else None)"
proof -
  have s': "s' = fst (reapExpired s nowMs (Some f))" using assms(2) by simp
  have count: "dropped + Count s' = Count s"
    using assms(2) reapTopics_count [of nowMs f "byTopic s"]
    by (auto simp: Count_sum reapExpired_def case_prod_beta)
  show ?thesis
  proof (cases "map_of (byTopic s) t")
    case None
    then have "map_of (byTopic s') t = None" by (simp add: s' reapExpired_topic [OF assms(1)])
    with None count show ?thesis by (simp add: slotMap_def restoredAt_def)
  next
    case (Some ts)
    let ?ts' = "fst (reapTopic nowMs (Milliseconds (f t)) ts)"
    have wf: "wf_topic t ts" using wf_storeD [OF assms(1) Some] .
    have fence: "map_of (restoredAtUnixMs ?ts') n =
        (if \<exists>k. rkNodeID k = n \<and> map_of (records ?ts') k \<noteq> None then map_of (restoredAtUnixMs ts) n else None)"
      unfolding nodePresent_iff [symmetric] using wf by (intro reapTopic_restored) (simp add: wf_topic_def)
    have slots: "slotMap s' t = (if f t \<le> 0 then map_of (records ts) else map_of (records ?ts'))"
      using Some by (simp add: s' slotMap_def reapExpired_topic [OF assms(1)] Let_def)
    have stamp: "restoredAt s' t n = (if f t \<le> 0 then map_of (restoredAtUnixMs ts) n
        else if records ?ts' = [] \<and> attestations ?ts' = [] then None else map_of (restoredAtUnixMs ?ts') n)"
      using Some by (simp add: s' restoredAt_def reapExpired_topic [OF assms(1)] Let_def)
    have "restoredAt s' t n =
        (if f t \<le> 0 \<or> (\<exists>k. rkNodeID k = n \<and> slotMap s' t k \<noteq> None) then restoredAt s t n else None)"
      using Some fence by (auto simp: slots stamp restoredAt_topic)
    with count reap_slots [OF assms(1), of nowMs f t k] show ?thesis by (simp add: s')
  qed
qed

theorem reap_is_exact_witness:
  "let s = applyAll newRecordStore
         [(1, sampleRecord [1] [] (packHLC 1000 0) [9]), (1, sampleRecord [2] [] (packHLC 8000 0) [9])];
       (s', dropped) = reapExpired s 9000 (Some (\<lambda>_. 5 * second))
   in slotMap s' [116] (RecordKey [1] []) = None \<and> slotMap s' [116] (RecordKey [2] []) \<noteq> None \<and>
      dropped + Count s' = 2"
proof -
  let ?a = "sampleRecord [1] [] (packHLC 1000 0) [9]" and ?b = "sampleRecord [2] [] (packHLC 8000 0) [9]"
  let ?s = "applyAll newRecordStore [(1, ?a), (1, ?b)]"
  obtain s' dropped where r: "reapExpired ?s 9000 (Some (\<lambda>_. 5 * second)) = (s', dropped)"
    by (cases "reapExpired ?s 9000 (Some (\<lambda>_. 5 * second))")
  have slots: "slotMap ?s [116] (RecordKey [1] []) = Some ?a" "slotMap ?s [116] (RecordKey [2] []) = Some ?b"
    "Count ?s = 2"
    by (simp_all add: slotMap_def store_eval Count_def)
  have "Milliseconds (5 * second) = 5000"
    by (simp add: Milliseconds_def second_def millisecond_def go_quot_def)
  then have "expired 9000 (Milliseconds (5 * second)) ?a" "\<not> expired 9000 (Milliseconds (5 * second)) ?b"
    "0 < 5 * second"
    by (simp_all add: expired_def Decompose_def unpackHLC_def packHLC_def sampleRecord_def
        zero_record_def second_def millisecond_def Let_def)
  then show ?thesis
    using reap_is_exact [OF applyAll_wf [OF wf_store_new] r, of "[116]" "RecordKey [1] []" "[]"]
      reap_is_exact [OF applyAll_wf [OF wf_store_new] r, of "[116]" "RecordKey [2] []" "[]"] r slots
    by (simp add: Let_def)
qed

subsection \<open>Tombstones outlive what they supersede\<close>

lemma hlc_wall_mono: "h \<le> h' \<Longrightarrow> unat (hlc_wall h) \<le> unat (hlc_wall h')"
  for h h' :: u64
  by (simp add: unpackHLC_def drop_bit_eq_div unat_div_distrib word_le_nat_alt div_le_mono)

lemma age_eq:
  fixes nowMs :: i64
  assumes "0 \<le> sint nowMs"
  shows "sint (nowMs - hlc_wall h) = sint nowMs - int (unat (hlc_wall h))"
proof -
  have "int a < 2 ^ 48" if "a < 2 ^ 48" for a using that by simp
  then have lt: "int (unat (hlc_wall h)) < 2 ^ 48" using hlc_wall_bound [of h] by blast
  have "sint (hlc_wall h) = int (unat (hlc_wall h))"
  proof -
    have "signed_take_bit 63 u = u" if "0 \<le> u" "u < 2 ^ 48" for u :: int
      using that by (intro signed_take_bit_int_eq_self) simp_all
    then show ?thesis using lt by (simp add: sint_uint)
  qed
  moreover have "sint nowMs < 2 ^ 63" using sint_range_size [of nowMs] by (simp add: word_size)
  moreover have "signed_take_bit 63 (x - u) = x - u"
    if "0 \<le> x" "x < 2 ^ 63" "0 \<le> u" "u < 2 ^ 48" for x u :: int
    using that by (intro signed_take_bit_int_eq_self) simp_all
  ultimately show ?thesis
    using assms lt by (simp add: sint_word_ariths(2))
qed

text \<open>C27: No resurrection through retention: once a replica's reaping has dropped a tombstone, no other
  replica whose clock lags behind by at most one TTL holds, after its own reaping, a live record
  the tombstone supersedes in that topic, so none is left there to be served back. This is what
  the double retention time of tombstones is for.\<close>

theorem tombstone_outlives_superseded:
  assumes "wf_store s" and "slotMap s t k = Some tomb" and "Tombstone tomb"
    and "slotMap (fst (reapExpired s now (Some f))) t k = None"
    and "wf_store peer" and "0 \<le> sint now" and "0 \<le> sint peerNow"
    and "sint now - sint peerNow \<le> Milliseconds (f t)"
    and "\<not> Tombstone live" and "HLC live \<le> HLC tomb"
  shows "slotMap (fst (reapExpired peer peerNow (Some f))) t k' \<noteq> Some live"
proof -
  have ttl: "0 < f t" and old: "expired now (Milliseconds (f t)) tomb"
    using assms(2,4) by (simp_all add: reap_slots [OF assms(1)] split: if_splits)
  have "expired peerNow (Milliseconds (f t)) live"
    using old assms(3,6-10) of_nat_mono [OF hlc_wall_mono [OF assms(10)], where 'a = int]
    by (simp add: expired_def Decompose_def Let_def case_prod_beta age_eq)
  with ttl show ?thesis by (auto simp: reap_slots [OF assms(5)] split: option.splits)
qed

theorem tombstone_outlives_superseded_witness:
  "let live = sampleRecord [1] [] (packHLC 9000 0) [9];
       tomb = (sampleRecord [1] [] (packHLC 9500 0) [])\<lparr>Tombstone := True\<rparr>;
       k = RecordKey [1] [];
       holder = applyAll newRecordStore [(1, tomb)];
       peer = applyAll newRecordStore [(1, live)]
   in slotMap holder [116] k = Some tomb \<and>
      slotMap (fst (reapExpired holder 20000 (Some (\<lambda>_. 5 * second)))) [116] k = None \<and>
      slotMap peer [116] k = Some live \<and>
      slotMap (fst (reapExpired peer 15000 (Some (\<lambda>_. 5 * second)))) [116] k \<noteq> Some live"
proof -
  let ?live = "sampleRecord [1] [] (packHLC 9000 0) [9]"
  let ?tomb = "(sampleRecord [1] [] (packHLC 9500 0) [])\<lparr>Tombstone := True\<rparr>"
  let ?k = "RecordKey [1] []"
  let ?holder = "applyAll newRecordStore [(1, ?tomb)]" and ?peer = "applyAll newRecordStore [(1, ?live)]"
  have wf: "wf_store ?holder" "wf_store ?peer" by (rule applyAll_wf [OF wf_store_new])+
  have slots: "slotMap ?holder [116] ?k = Some ?tomb" "slotMap ?peer [116] ?k = Some ?live"
    by (simp_all add: slotMap_def store_eval)
  have ms: "Milliseconds (5 * second) = 5000"
    by (simp add: Milliseconds_def second_def millisecond_def go_quot_def)
  have pos: "0 < 5 * second" by (simp add: second_def millisecond_def)
  have "expired 20000 5000 ?tomb"
    by (simp add: expired_def Decompose_def unpackHLC_def packHLC_def sampleRecord_def Let_def)
  then have gone: "slotMap (fst (reapExpired ?holder 20000 (Some (\<lambda>_. 5 * second)))) [116] ?k = None"
    unfolding reap_slots [OF wf(1)] slots(1) using pos by (simp only: option.case ms simp_thms if_True)
  have "slotMap (fst (reapExpired ?peer 15000 (Some (\<lambda>_. 5 * second)))) [116] ?k \<noteq> Some ?live"
    by (rule tombstone_outlives_superseded [OF wf(1) slots(1) _ gone wf(2)])
      (simp_all add: ms sampleRecord_def zero_record_def packHLC_def)
  with slots gone show ?thesis by (simp only: Let_def simp_thms)
qed

end
