(* ===== verification/Sig.thy ===== *)
theory Sig
  imports Swarm_Types
begin

text \<open>
  The canonical signing bytes, record signing and verification, and the NodeID/public-key encoding
  of \<open>src/sig.go\<close>. SHA-256 and Ed25519 are not part of the program: they are the fields of a
  \<open>crypto\<close> record that every definition using them takes, and what is relied on is the named
  hypothesis \<open>ed25519_ok\<close> (sizes, and that a signature made with a private key verifies under
  its public key). It is an idealisation in that it holds for every byte string as private key;
  Ed25519 has it for the keys its key generation makes, and \<open>New\<close> checks their length only.
\<close>

unbundle bit_operations_syntax

subsection \<open>The cryptographic interface\<close>

record crypto =
  Sum256 :: "bytes \<Rightarrow> bytes"
  ed_Public :: "bytes \<Rightarrow> bytes"
  ed_Sign :: "bytes \<Rightarrow> bytes \<Rightarrow> bytes"
  ed_Verify :: "bytes \<Rightarrow> bytes \<Rightarrow> bytes \<Rightarrow> bool"

definition PublicKeySize :: nat where "PublicKeySize = 32"
definition SignatureSize :: nat where "SignatureSize = 64"

definition ed25519_ok :: "crypto \<Rightarrow> bool" where
  "ed25519_ok C \<longleftrightarrow>
     (\<forall>priv. length (ed_Public C priv) = PublicKeySize) \<and>
     (\<forall>priv m. length (ed_Sign C priv m) = SignatureSize \<and>
        ed_Verify C (ed_Public C priv) m (ed_Sign C priv m))"

subsection \<open>Signing bytes\<close>

definition signableBytes :: "Record \<Rightarrow> bytes" where
  "signableBytes r =
     be 2 (length (Topic r)) @ Topic r @
     NodeID r @
     be 8 (unat (HLC r)) @
     [if Tombstone r then 1 else 0] @
     be 4 (length (Body r)) @ Body r @
     PubKey r @
     be 2 (length (ObserverNodeID r)) @ ObserverNodeID r @
     be 8 (unat (ObservedAtUnixMs r)) @
     (if length (Key r) > 0 then be 2 (length (Key r)) @ Key r else [])"

definition signRecord :: "crypto \<Rightarrow> Record \<Rightarrow> bytes \<Rightarrow> Record" where
  "signRecord C r priv =
     (let r1 = r\<lparr>PubKey := ed_Public C priv\<rparr>
      in r1\<lparr>Sig := ed_Sign C priv (signableBytes r1)\<rparr>)"

definition verifyRecord :: "crypto \<Rightarrow> Record \<Rightarrow> bytes \<Rightarrow> bool" where
  "verifyRecord C r pub =
     (if length (Sig r) \<noteq> SignatureSize then False
      else ed_Verify C pub (signableBytes r) (Sig r))"

record manifestSig =
  ms_BlobHash :: bytes
  ms_TotalSize :: u64
  ms_ChunkSize :: u32
  ms_Chunks :: "bytes list"
  ms_Filename :: gostring
  ms_Mime :: gostring
  ms_PublishedAt :: i64
  ms_Publisher :: bytes

definition signableManifestBytes :: "manifestSig \<Rightarrow> bytes" where
  "signableManifestBytes m =
     ms_BlobHash m @
     be 8 (unat (ms_TotalSize m)) @
     be 4 (unat (ms_ChunkSize m)) @
     be 4 (length (ms_Chunks m)) @ concat (ms_Chunks m) @
     be 2 (length (ms_Filename m)) @ ms_Filename m @
     be 2 (length (ms_Mime m)) @ ms_Mime m @
     be 8 (unat (ms_PublishedAt m)) @
     be 2 (length (ms_Publisher m)) @ ms_Publisher m"

subsection \<open>NodeIDs and public keys\<close>

definition hexNibble :: "byte \<Rightarrow> byte option" where
  "hexNibble c =
     (if 48 \<le> c \<and> c \<le> 57 then Some (c - 48)
      else if 97 \<le> c \<and> c \<le> 102 then Some (c - 97 + 10)
      else if 65 \<le> c \<and> c \<le> 70 then Some (c - 65 + 10)
      else None)"

text \<open>The decoding loop of \<open>pubFromNodeID\<close> over pairs of digits.\<close>

fun hexPairs :: "gostring \<Rightarrow> bytes option" where
  "hexPairs (h # l # s) =
     (case (hexNibble h, hexNibble l) of
        (Some hi, Some lo) \<Rightarrow>
          (case hexPairs s of Some pub \<Rightarrow> Some ((push_bit 4 hi OR lo) # pub) | None \<Rightarrow> None)
      | _ \<Rightarrow> None)"
| "hexPairs [] = Some []"
| "hexPairs [_] = None"

definition pubFromNodeID :: "NodeID \<Rightarrow> bytes option" where
  "pubFromNodeID s = (if length s \<noteq> 2 * PublicKeySize then None else hexPairs s)"

definition hexDigit :: "byte \<Rightarrow> byte" where
  "hexDigit n = (if n < 10 then 48 + n else 87 + n)"

definition nodeIDFromPub :: "bytes \<Rightarrow> NodeID" where
  "nodeIDFromPub pub = concat (map (\<lambda>b. [hexDigit (drop_bit 4 b), hexDigit (b AND 15)]) pub)"

definition VerifyRecord :: "crypto \<Rightarrow> Record \<Rightarrow> bool" where
  "VerifyRecord C r =
     (case pubFromNodeID (NodeID r) of
        None \<Rightarrow> False
      | Some pub \<Rightarrow>
          if length (PubKey r) \<noteq> 0 \<and> PubKey r \<noteq> pub then False
          else verifyRecord C r pub)"

subsection \<open>The canonical bytes determine the record\<close>

lemma length_prefixed_inject:
  assumes "length xs < 256 ^ n" and "length ys < 256 ^ n"
  shows "be n (length xs) @ xs @ us = be n (length ys) @ ys @ vs \<longleftrightarrow> xs = ys \<and> us = vs"
  using assms by (auto simp: be_inject)

definition MaxKeyBytes :: nat where "MaxKeyBytes = 2 ^ 16 - 1"

text \<open>Lengths that their prefixes can hold.\<close>

definition encodable :: "Record \<Rightarrow> bool" where
  "encodable r \<longleftrightarrow> length (Topic r) < 2 ^ 16 \<and> length (Body r) < 2 ^ 32 \<and>
     length (ObserverNodeID r) < 2 ^ 16 \<and> length (Key r) \<le> MaxKeyBytes"

text \<open>C29: The signature covers the whole record: for records whose variable-length fields fit their
  length prefixes and whose NodeIDs and public keys have the same (fixed) lengths, equal canonical
  bytes mean equal records up to the signature itself. In particular neither the key, nor the
  observer fields, nor the tombstone flag can be stripped, added or moved under one signature.\<close>

theorem signableBytes_injective:
  assumes "encodable r" and "encodable r'" and "length (NodeID r) = length (NodeID r')"
    and "length (PubKey r) = length (PubKey r')" and "signableBytes r = signableBytes r'"
  shows "r\<lparr>Sig := []\<rparr> = r'\<lparr>Sig := []\<rparr>"
proof -
  have bounds: "length (Topic r) < 256 ^ 2" "length (Topic r') < 256 ^ 2"
    "length (Body r) < 256 ^ 4" "length (Body r') < 256 ^ 4"
    "length (ObserverNodeID r) < 256 ^ 2" "length (ObserverNodeID r') < 256 ^ 2"
    "length (Key r) < 256 ^ 2" "length (Key r') < 256 ^ 2"
    using assms(1,2) by (simp_all add: encodable_def MaxKeyBytes_def)
  note split = length_prefixed_inject [OF bounds(1,2)] length_prefixed_inject [OF bounds(3,4)]
    length_prefixed_inject [OF bounds(5,6)] append_eq_same_length [OF assms(3)]
    append_eq_same_length [OF assms(4)]
  have key: "(if length (Key r) > 0 then be 2 (length (Key r)) @ Key r else []) =
      (if length (Key r') > 0 then be 2 (length (Key r')) @ Key r' else []) \<Longrightarrow> Key r = Key r'"
    using length_prefixed_inject [OF bounds(7,8), of "[]" "[]"]
    by (auto split: if_splits dest: arg_cong [where f = length])
  have bit: "(if a then 1 else 0 :: byte) = (if b then 1 else 0) \<Longrightarrow> a = b" for a b
    by (simp split: if_splits)
  have be8: "be 8 a @ us = be 8 b @ vs \<longleftrightarrow> be 8 a = be 8 b \<and> us = vs" for a b us vs by simp
  have parts: "Topic r = Topic r' \<and> NodeID r = NodeID r' \<and>
      be 8 (unat (HLC r)) = be 8 (unat (HLC r')) \<and>
      (if Tombstone r then 1 else 0 :: byte) = (if Tombstone r' then 1 else 0) \<and>
      Body r = Body r' \<and> PubKey r = PubKey r' \<and> ObserverNodeID r = ObserverNodeID r' \<and>
      be 8 (unat (ObservedAtUnixMs r)) = be 8 (unat (ObservedAtUnixMs r')) \<and>
      (if length (Key r) > 0 then be 2 (length (Key r)) @ Key r else []) =
        (if length (Key r') > 0 then be 2 (length (Key r')) @ Key r' else [])"
    using assms(5) unfolding signableBytes_def
    by (simp only: split be8 append_Cons append_Nil list.inject)
  then have "Tombstone r = Tombstone r'" and "Key r = Key r'" using bit key by blast+
  with parts have "Topic r = Topic r'" "NodeID r = NodeID r'" "HLC r = HLC r'"
    "Tombstone r = Tombstone r'" "Body r = Body r'" "PubKey r = PubKey r'"
    "ObserverNodeID r = ObserverNodeID r'" "ObservedAtUnixMs r = ObservedAtUnixMs r'" "Key r = Key r'"
    by (simp_all only: be_unat_inject)
  then show ?thesis by (cases r; cases r') simp
qed

subsection \<open>The NodeID encoding\<close>

lemma nibble_cases:
  assumes "n < (16 :: byte)"
  obtains "n = 0" | "n = 1" | "n = 2" | "n = 3" | "n = 4" | "n = 5" | "n = 6" | "n = 7"
    | "n = 8" | "n = 9" | "n = 10" | "n = 11" | "n = 12" | "n = 13" | "n = 14" | "n = 15"
proof -
  have "unat n < 16" using assms by (simp add: word_less_nat_alt)
  then have "unat n \<in> set [0..<16]" by simp
  moreover have "n = word_of_nat (unat n)" by simp
  ultimately have "n \<in> set (map word_of_nat [0..<16])" unfolding set_map by blast
  then have "n \<in> {0, 1, 2, 3, 4, 5, 6, 7, 8, 9, 10, 11, 12, 13, 14, 15}" by (simp add: upt_rec)
  then show ?thesis using that by blast
qed

text \<open>Lower case of a hexadecimal digit.\<close>

definition lowerHex :: "byte \<Rightarrow> byte" where
  "lowerHex c = (if 65 \<le> c \<and> c \<le> 70 then c + 32 else c)"

lemma hexNibble_lower:
  assumes "hexNibble c = Some n"
  shows "n < 16 \<and> hexDigit n = lowerHex c"
proof -
  consider "48 \<le> c" "c \<le> 57" "n = c - 48" | "97 \<le> c" "c \<le> 102" "n = c - 87"
    | "65 \<le> c" "c \<le> 70" "n = c - 55"
    using assms by (auto simp: hexNibble_def split: if_splits)
  then show ?thesis
  proof cases
    case 1
    then have "unat n = unat c - 48" by (simp add: unat_sub)
    with 1 show ?thesis
      by (auto simp: hexDigit_def lowerHex_def word_le_nat_alt word_less_nat_alt)
  next
    case 2
    then have "unat n = unat c - 87" by (simp add: unat_sub word_le_nat_alt)
    with 2 show ?thesis
      by (auto simp: hexDigit_def lowerHex_def word_le_nat_alt word_less_nat_alt)
  next
    case 3
    then have "unat n = unat c - 55" by (simp add: unat_sub word_le_nat_alt)
    with 3 show ?thesis
      by (auto simp: hexDigit_def lowerHex_def word_le_nat_alt word_less_nat_alt)
  qed
qed

lemma lower_hexNibble:
  assumes "n < 16" and "lowerHex c = hexDigit n"
  shows "hexNibble c = Some n"
proof -
  have "c = hexDigit n \<or> c = hexDigit n - 32 \<and> 65 \<le> c \<and> c \<le> 70"
    using assms(2) by (auto simp: lowerHex_def eq_diff_eq split: if_splits)
  with assms(1) show ?thesis
    by (cases rule: nibble_cases) (auto simp: hexDigit_def hexNibble_def)
qed

lemma hexNibble_iff: "hexNibble c = Some n \<longleftrightarrow> n < 16 \<and> lowerHex c = hexDigit n"
  using hexNibble_lower lower_hexNibble by metis

lemma nibbles_of_byte:
  "drop_bit 4 b < (16 :: byte)" "b AND 15 < (16 :: byte)" "push_bit 4 (drop_bit 4 b) OR (b AND 15) = b"
proof -
  have m: "b AND 15 = take_bit 4 b" by (simp add: take_bit_eq_mask mask_eq_exp_minus_1)
  have "unat b < 256" using unsigned_less [of b] by simp
  then show "drop_bit 4 b < (16 :: byte)"
    by (simp add: word_less_nat_alt drop_bit_eq_div unat_div_distrib)
  show "b AND 15 < (16 :: byte)"
    unfolding m by (simp add: word_less_nat_alt take_bit_eq_mod unat_mod_distrib)
  show "push_bit 4 (drop_bit 4 b) OR (b AND 15) = b"
    unfolding m by (rule bit_word_eqI) (auto simp: bit_simps)
qed

lemma byte_of_nibbles:
  assumes "hi < (16 :: byte)" and "lo < 16"
  shows "drop_bit 4 (push_bit 4 hi OR lo) = hi" and "(push_bit 4 hi OR lo) AND 15 = lo"
proof -
  have hi: "take_bit 4 hi = hi" and lo: "take_bit 4 lo = lo"
    using assms by (simp_all add: take_bit_eq_mod word_unat_eq_iff unat_mod_distrib word_less_nat_alt)
  have m: "x AND 15 = take_bit 4 x" for x :: byte by (simp add: take_bit_eq_mask mask_eq_exp_minus_1)
  have nolo: "\<not> bit lo (4 + n)" for n using lo by (metis bit_take_bit_iff not_add_less1)
  have nohi: "n < 4" if "bit hi n" for n using hi that by (metis bit_take_bit_iff)
  show "drop_bit 4 (push_bit 4 hi OR lo) = hi"
    by (rule bit_word_eqI) (use nolo nohi in \<open>auto simp: bit_simps\<close>)
  show "(push_bit 4 hi OR lo) AND 15 = lo"
    unfolding m by (subst lo [symmetric]) (rule bit_word_eqI, auto simp: bit_simps)
qed

lemma hexPairs_iff: "hexPairs s = Some pub \<longleftrightarrow> map lowerHex s = nodeIDFromPub pub"
proof (induction s arbitrary: pub rule: induct_list012)
  case (3 h l s)
  show ?case
  proof
    assume "hexPairs (h # l # s) = Some pub"
    then obtain hi lo pub' where n: "hexNibble h = Some hi" "hexNibble l = Some lo"
      and p: "hexPairs s = Some pub'" "pub = (push_bit 4 hi OR lo) # pub'"
      by (auto split: option.splits)
    have "map lowerHex s = nodeIDFromPub pub'" using 3(1) [of pub'] p(1) by simp
    moreover have "hi < 16" "lo < 16" "hexDigit hi = lowerHex h" "hexDigit lo = lowerHex l"
      using n by (simp_all add: hexNibble_iff)
    ultimately show "map lowerHex (h # l # s) = nodeIDFromPub pub"
      unfolding p(2) by (simp only: nodeIDFromPub_def byte_of_nibbles list.map concat.simps append.simps)
  next
    assume "map lowerHex (h # l # s) = nodeIDFromPub pub"
    then obtain b pub' where p: "pub = b # pub'" "lowerHex h = hexDigit (drop_bit 4 b)"
      "lowerHex l = hexDigit (b AND 15)" "map lowerHex s = nodeIDFromPub pub'"
      by (cases pub) (auto simp: nodeIDFromPub_def)
    then have "hexNibble h = Some (drop_bit 4 b)" "hexNibble l = Some (b AND 15)"
      by (simp_all add: hexNibble_iff nibbles_of_byte)
    moreover from this p have "hexPairs s = Some pub'" by (simp add: 3(1))
    ultimately show "hexPairs (h # l # s) = Some pub" using p(1) by (simp add: nibbles_of_byte)
  qed
next
  case 1
  then show ?case by (cases pub) (auto simp: nodeIDFromPub_def)
next
  case (2 c)
  have "map lowerHex [c] \<noteq> nodeIDFromPub pub" by (cases pub) (auto simp: nodeIDFromPub_def)
  then show ?case by simp
qed

lemma length_nodeIDFromPub: "length (nodeIDFromPub pub) = 2 * length pub"
  by (induction pub) (auto simp: nodeIDFromPub_def)

lemma lowerHex_hexDigit: "n < 16 \<Longrightarrow> lowerHex (hexDigit n) = hexDigit n"
  by (cases n rule: nibble_cases) (simp_all add: lowerHex_def hexDigit_def)

lemma lowerHex_nodeID: "map lowerHex (nodeIDFromPub pub) = nodeIDFromPub pub"
  by (induction pub) (auto simp: nodeIDFromPub_def lowerHex_hexDigit nibbles_of_byte)

lemma pubFromNodeID_iff:
  "pubFromNodeID s = Some pub \<longleftrightarrow> length pub = PublicKeySize \<and> map lowerHex s = nodeIDFromPub pub"
proof -
  have "length s = 2 * length pub" if "map lowerHex s = nodeIDFromPub pub"
    using arg_cong [OF that, of length] by (simp add: length_nodeIDFromPub)
  then show ?thesis by (auto simp: pubFromNodeID_def hexPairs_iff)
qed

lemma nodeIDFromPub_inject: "nodeIDFromPub p = nodeIDFromPub q \<Longrightarrow> p = q"
  by (metis hexPairs_iff lowerHex_nodeID option.inject)

text \<open>What the exported verifier accepts: exactly the records whose NodeID is, up to the case of
  its digits, the hexadecimal form of a 32-byte key, whose \<open>PubKey\<close> field is empty or that key,
  and whose 64-byte signature verifies under that key over the canonical bytes. So acceptance
  always binds the signer's key to the claimed NodeID, but upper- and lower-case spellings of one
  key are accepted as different NodeIDs.\<close>

theorem VerifyRecord_iff:
  "VerifyRecord C r \<longleftrightarrow>
     (\<exists>pub. length pub = 32 \<and> map lowerHex (NodeID r) = nodeIDFromPub pub \<and>
        (PubKey r = [] \<or> PubKey r = pub) \<and> length (Sig r) = 64 \<and>
        ed_Verify C pub (signableBytes r) (Sig r))"
proof -
  have "VerifyRecord C r \<longleftrightarrow> (\<exists>pub. pubFromNodeID (NodeID r) = Some pub \<and>
      (PubKey r = [] \<or> PubKey r = pub) \<and> verifyRecord C r pub)"
    by (auto simp: VerifyRecord_def split: option.split)
  then show ?thesis
    by (auto simp: pubFromNodeID_iff verifyRecord_def PublicKeySize_def SignatureSize_def)
qed

text \<open>C30: Signing completes verification: a record signed with a private key passes the internal verifier
  under its public key; if its NodeID encodes that public key, it also passes the exported
  verifier, and decoding the NodeID gives the key back.\<close>

theorem signRecord_verifies:
  assumes "ed25519_ok C"
  shows "verifyRecord C (signRecord C r priv) (ed_Public C priv) \<and>
    (NodeID r = nodeIDFromPub (ed_Public C priv) \<longrightarrow>
       VerifyRecord C (signRecord C r priv) \<and> pubFromNodeID (NodeID r) = Some (PubKey (signRecord C r priv)))"
proof -
  have len: "length (ed_Public C priv) = PublicKeySize" using assms by (simp add: ed25519_ok_def)
  have pub: "pubFromNodeID (NodeID r) = Some (ed_Public C priv)" if "NodeID r = nodeIDFromPub (ed_Public C priv)"
    using that len by (simp add: pubFromNodeID_iff lowerHex_nodeID)
  have bytes: "signableBytes (r\<lparr>PubKey := p, Sig := g\<rparr>) = signableBytes (r\<lparr>PubKey := p\<rparr>)" for p g
    by (simp add: signableBytes_def)
  have "verifyRecord C (signRecord C r priv) (ed_Public C priv)"
    using assms by (simp add: verifyRecord_def signRecord_def Let_def bytes ed25519_ok_def)
  with pub show ?thesis by (simp add: VerifyRecord_def signRecord_def Let_def)
qed

subsection \<open>Sample records\<close>

text \<open>A scheme with the sizes and the sign/verify law of Ed25519, to evaluate the definitions.\<close>

definition fit32 :: "bytes \<Rightarrow> bytes" where
  "fit32 m = take 32 (m @ replicate 32 0)"

definition sampleCrypto :: crypto where
  "sampleCrypto = \<lparr>Sum256 = fit32, ed_Public = fit32,
     ed_Sign = (\<lambda>priv m. fit32 priv @ fit32 m),
     ed_Verify = (\<lambda>pub m sg. sg = pub @ fit32 m)\<rparr>"

lemma length_fit32 [simp]: "length (fit32 m) = 32"
  by (simp add: fit32_def)

lemma sampleCrypto_ok: "ed25519_ok sampleCrypto"
  by (simp add: ed25519_ok_def sampleCrypto_def PublicKeySize_def SignatureSize_def)

definition sampleSigned :: "Record" where
  "sampleSigned = signRecord sampleCrypto
     (zero_record\<lparr>Topic := [116], NodeID := nodeIDFromPub (fit32 [7]), HLC := 5, Body := [1, 2]\<rparr>) [7]"

theorem signRecord_verifies_witness: "VerifyRecord sampleCrypto sampleSigned"
  using signRecord_verifies [OF sampleCrypto_ok, where priv = "[7]"
      and r = "zero_record\<lparr>Topic := [116], NodeID := nodeIDFromPub (fit32 [7]), HLC := 5, Body := [1, 2]\<rparr>"]
  by (simp add: sampleSigned_def sampleCrypto_def)

theorem signableBytes_injective_witness:
  "signableBytes (zero_record\<lparr>NodeID := [1], Key := [2]\<rparr>) \<noteq> signableBytes (zero_record\<lparr>NodeID := [1]\<rparr>)"
  using signableBytes_injective [of "zero_record\<lparr>NodeID := [1], Key := [2]\<rparr>" "zero_record\<lparr>NodeID := [1]\<rparr>"]
  by (auto simp: encodable_def MaxKeyBytes_def zero_record_def)

text \<open>The fixed-length assumption is needed: NodeIDs are opaque strings and carry no length
  prefix, and here are two records with the same public key and the same canonical bytes, hence
  the same valid signatures, that differ in NodeID, body and observer field.\<close>

theorem signableBytes_collision:
  "let p = replicate 32 7; x = replicate 222 9;
       r = zero_record\<lparr>NodeID := [0], Body := p @ [1, 0] @ x, PubKey := p\<rparr>;
       r' = zero_record\<lparr>NodeID := [], Body := [0], PubKey := p, ObserverNodeID := x @ p @ [0, 0]\<rparr>
   in encodable r \<and> encodable r' \<and> PubKey r = PubKey r' \<and> signableBytes r = signableBytes r' \<and>
      NodeID r \<noteq> NodeID r'"
proof -
  have b: "be 2 0 = [0, 0]" "be 8 0 = [0, 0, 0, 0, 0, 0, 0, 0]" "be 4 256 = [0, 0, 1, 0]"
    "be 4 (Suc 0) = [0, 0, 0, 1]" "be 2 256 = [1, 0]"
    by (simp_all add: be_numeral)
  show ?thesis
    unfolding Let_def
    by (simp add: encodable_def MaxKeyBytes_def zero_record_def signableBytes_def b)
qed

end
