(* ===== verification/Harden.thy ===== *)
theory Harden
  imports Sig Hlc
begin

text \<open>
  The inbound admission gate of \<open>src/harden.go\<close>: the checks every record off the wire passes after
  signature verification and before the store, with their per-reason counters. The wall clock
  \<open>g.nowFn().UnixMilli()\<close> is the argument \<open>nowMs\<close>; the application's \<open>TrustCheck\<close> hook is a field,
  returning \<open>None\<close> for a nil error.
\<close>

datatype gateError =
    errGateKeyTooLong
  | errGateTooLarge
  | errGateSkew
  | errGateBinding
  | errGateTrust gostring

record inboundGate =
  maxBytes :: int
  maxSkew :: duration
  binding :: bool
  trustCheck :: "(Record \<Rightarrow> gostring option) option"
  rejectedSize :: u64
  rejectedSkew :: u64
  rejectedBinding :: u64
  rejectedTrust :: u64

definition newInboundGate :: "Config \<Rightarrow> inboundGate" where
  "newInboundGate cfg =
     \<lparr>maxBytes = cfg_MaxRecordBytes cfg,
      maxSkew = (if cfg_MaxClockSkew cfg \<le> 0 then 10 * minute else cfg_MaxClockSkew cfg),
      binding = cfg_RequireNodeKeyBinding cfg,
      trustCheck = cfg_TrustCheck cfg,
      rejectedSize = 0, rejectedSkew = 0, rejectedBinding = 0, rejectedTrust = 0\<rparr>"

text \<open>The identity a record's key must bind to: the observer of an attestation, else the owner.\<close>

definition bindID :: "Record \<Rightarrow> NodeID" where
  "bindID r = (if IsObserverAttestation r then ObserverNodeID r else NodeID r)"

definition Admit :: "inboundGate \<Rightarrow> i64 \<Rightarrow> Record \<Rightarrow> inboundGate \<times> gateError option" where
  "Admit g nowMs r =
     (if length (Key r) > MaxKeyBytes
      then (g\<lparr>rejectedSize := rejectedSize g + 1\<rparr>, Some errGateKeyTooLong)
      else if maxBytes g > 0 \<and> int (length (Body r)) > maxBytes g
      then (g\<lparr>rejectedSize := rejectedSize g + 1\<rparr>, Some errGateTooLarge)
      else if fst (Decompose (HLC r)) > nowMs + word_of_int (Milliseconds (maxSkew g))
      then (g\<lparr>rejectedSkew := rejectedSkew g + 1\<rparr>, Some errGateSkew)
      else if binding g \<and>
        (length (PubKey r) \<noteq> PublicKeySize \<or> bindID r \<noteq> nodeIDFromPub (PubKey r))
      then (g\<lparr>rejectedBinding := rejectedBinding g + 1\<rparr>, Some errGateBinding)
      else case trustCheck g of
        None \<Rightarrow> (g, None)
      | Some check \<Rightarrow>
          (case check r of
             Some err \<Rightarrow> (g\<lparr>rejectedTrust := rejectedTrust g + 1\<rparr>, Some (errGateTrust err))
           | None \<Rightarrow> (g, None)))"

definition Rejections :: "inboundGate \<Rightarrow> u64 \<times> u64 \<times> u64 \<times> u64" where
  "Rejections g = (rejectedSize g, rejectedSkew g, rejectedBinding g, rejectedTrust g)"

subsection \<open>What admission guarantees\<close>

lemma skew_limit:
  fixes nowMs :: i64
  assumes "0 \<le> sint nowMs" and "0 \<le> m" and "sint nowMs + m < 2 ^ 64"
  shows "w \<le> nowMs + word_of_int m \<longleftrightarrow> int (unat w) \<le> sint nowMs + m"
proof -
  have "sint nowMs < 2 ^ 63" using sint_range_size [of nowMs] by (simp add: word_size)
  with assms(1) have u: "uint nowMs = sint nowMs"
    by (simp add: uint_sint take_bit_int_eq_self)
  have "uint (nowMs + word_of_int m) = (sint nowMs + m) mod 2 ^ 64"
    by (simp add: uint_word_ariths u uint_word_of_int mod_add_right_eq)
  also have "\<dots> = sint nowMs + m" using assms by simp
  finally have "uint (nowMs + word_of_int m) = sint nowMs + m" .
  then show ?thesis by (simp add: word_le_def)
qed

text \<open>The four counters of a gate together.\<close>

definition totalRejections :: "inboundGate \<Rightarrow> u64" where
  "totalRejections g = rejectedSize g + rejectedSkew g + rejectedBinding g + rejectedTrust g"

text \<open>C31: Admission is exactly the conjunction of its checks: a record passes if and only if its key
  and body fit, its clock's wall part is at most the skew allowance ahead of the local wall clock
  (as integers, without wrap-around), its key binds to its signer's identity when binding is
  required, and the trust hook raises no error; a passing record leaves the gate as it was and a
  refused one adds one to exactly one counter.\<close>

theorem Admit_iff:
  assumes "0 \<le> sint nowMs" and "0 \<le> Milliseconds (maxSkew g)" and "Milliseconds (maxSkew g) < 2 ^ 63"
  shows "(snd (Admit g nowMs r) = None \<longleftrightarrow>
      length (Key r) \<le> 65535 \<and> (maxBytes g \<le> 0 \<or> int (length (Body r)) \<le> maxBytes g) \<and>
      int (unat (hlc_wall (HLC r))) \<le> sint nowMs + Milliseconds (maxSkew g) \<and>
      (binding g \<longrightarrow> length (PubKey r) = 32 \<and> bindID r = nodeIDFromPub (PubKey r)) \<and>
      (\<forall>check. trustCheck g = Some check \<longrightarrow> check r = None)) \<and>
    (snd (Admit g nowMs r) = None \<longrightarrow> fst (Admit g nowMs r) = g) \<and>
    (snd (Admit g nowMs r) \<noteq> None \<longrightarrow>
       totalRejections (fst (Admit g nowMs r)) = totalRejections g + 1)"
proof -
  have "sint nowMs < 2 ^ 63" using sint_range_size [of nowMs] by (simp add: word_size)
  then have small: "sint nowMs + Milliseconds (maxSkew g) < 2 ^ 64" using assms(3) by simp
  have skew: "\<not> fst (Decompose (HLC r)) > nowMs + word_of_int (Milliseconds (maxSkew g)) \<longleftrightarrow>
      int (unat (hlc_wall (HLC r))) \<le> sint nowMs + Milliseconds (maxSkew g)"
    unfolding skew_limit [OF assms(1,2) small, symmetric]
    by (simp add: Decompose_def case_prod_beta not_less)
  have acc: "snd (Admit g nowMs r) = None \<longleftrightarrow>
      length (Key r) \<le> 65535 \<and> (maxBytes g \<le> 0 \<or> int (length (Body r)) \<le> maxBytes g) \<and>
      \<not> fst (Decompose (HLC r)) > nowMs + word_of_int (Milliseconds (maxSkew g)) \<and>
      (binding g \<longrightarrow> length (PubKey r) = 32 \<and> bindID r = nodeIDFromPub (PubKey r)) \<and>
      (\<forall>check. trustCheck g = Some check \<longrightarrow> check r = None)"
    by (auto simp: Admit_def MaxKeyBytes_def PublicKeySize_def split: option.split)
  have keep: "snd (Admit g nowMs r) = None \<longrightarrow> fst (Admit g nowMs r) = g"
    by (simp add: Admit_def split: option.split)
  have bump: "snd (Admit g nowMs r) \<noteq> None \<longrightarrow>
      totalRejections (fst (Admit g nowMs r)) = totalRejections g + 1"
    by (simp add: Admit_def totalRejections_def split: option.split)
  show ?thesis using acc [unfolded skew] keep bump by (intro conjI)
qed

text \<open>With key binding on, the internal path is as strict as the exported verifier: an owner
  record that the gate admits and that verifies under the key it carries is accepted by
  \<open>VerifyRecord\<close>, and two admitted owner records with different keys claim different NodeIDs.\<close>

theorem binding_implies_VerifyRecord:
  assumes "binding g" and "\<not> IsObserverAttestation r" and "snd (Admit g nowMs r) = None"
    and "verifyRecord C r (PubKey r)"
  shows "VerifyRecord C r \<and>
    (\<forall>r' nowMs'. \<not> IsObserverAttestation r' \<longrightarrow> snd (Admit g nowMs' r') = None \<longrightarrow>
       PubKey r' \<noteq> PubKey r \<longrightarrow> NodeID r' \<noteq> NodeID r)"
proof -
  have bound: "length (PubKey x) = PublicKeySize \<and> NodeID x = nodeIDFromPub (PubKey x)"
    if "\<not> IsObserverAttestation x" "snd (Admit g now x) = None" for x now
    using that assms(1) by (auto simp: Admit_def bindID_def split: if_splits)
  note b = bound [OF assms(2,3)]
  then have "pubFromNodeID (NodeID r) = Some (PubKey r)"
    by (simp add: pubFromNodeID_iff lowerHex_nodeID)
  then have "VerifyRecord C r" using assms(4) by (simp add: VerifyRecord_def)
  with b bound nodeIDFromPub_inject show ?thesis by metis
qed

definition sampleGate :: inboundGate where
  "sampleGate = \<lparr>maxBytes = 100, maxSkew = 10 * minute, binding = True, trustCheck = None,
     rejectedSize = 0, rejectedSkew = 0, rejectedBinding = 0, rejectedTrust = 0\<rparr>"

lemma Milliseconds_10_minutes: "Milliseconds (10 * minute) = 600000"
  by (simp add: Milliseconds_def minute_def go_quot_def)

lemma sampleSigned_fields:
  "Key sampleSigned = []" "Body sampleSigned = [1, 2]" "HLC sampleSigned = 5"
  "PubKey sampleSigned = fit32 [7]" "NodeID sampleSigned = nodeIDFromPub (fit32 [7])"
  "\<not> IsObserverAttestation sampleSigned"
  by (simp_all add: sampleSigned_def signRecord_def Let_def zero_record_def sampleCrypto_def
      IsObserverAttestation_def)

theorem Admit_iff_witness:
  "snd (Admit sampleGate 1000 sampleSigned) = None \<and>
   totalRejections (fst (Admit sampleGate 1000 (sampleSigned\<lparr>HLC := packHLC 900000 0\<rparr>))) = 1"
proof -
  have g: "0 \<le> Milliseconds (maxSkew sampleGate)" "Milliseconds (maxSkew sampleGate) < 2 ^ 63"
    by (simp_all add: sampleGate_def Milliseconds_10_minutes)
  have "snd (Admit sampleGate 1000 sampleSigned) = None"
    using Admit_iff [OF _ g, of 1000 sampleSigned]
    by (simp add: sampleGate_def Milliseconds_10_minutes sampleSigned_fields bindID_def unpackHLC_def)
  moreover have "snd (Admit sampleGate 1000 (sampleSigned\<lparr>HLC := packHLC 900000 0\<rparr>)) \<noteq> None"
    using Admit_iff [OF _ g, of 1000 "sampleSigned\<lparr>HLC := packHLC 900000 0\<rparr>"]
    by (simp add: sampleGate_def Milliseconds_10_minutes unpackHLC_def packHLC_def)
  ultimately show ?thesis
    using Admit_iff [OF _ g, of 1000 "sampleSigned\<lparr>HLC := packHLC 900000 0\<rparr>"]
    by (simp add: totalRejections_def sampleGate_def)
qed

theorem binding_implies_VerifyRecord_witness: "VerifyRecord sampleCrypto sampleSigned"
proof -
  have "binding sampleGate" by (simp add: sampleGate_def)
  moreover have "snd (Admit sampleGate 1000 sampleSigned) = None"
    by (simp add: Admit_def sampleGate_def Milliseconds_10_minutes sampleSigned_fields bindID_def
        Decompose_def unpackHLC_def MaxKeyBytes_def PublicKeySize_def)
  moreover have "verifyRecord sampleCrypto sampleSigned (PubKey sampleSigned)"
    by (simp add: sampleSigned_def verifyRecord_def signRecord_def Let_def sampleCrypto_def
        SignatureSize_def signableBytes_def)
  ultimately show ?thesis
    using binding_implies_VerifyRecord sampleSigned_fields(6) by blast
qed

end
