(* ===== verification/Codec.thy ===== *)
theory Codec
  imports Sig
begin

text \<open>
  The wire messages of \<open>src/proto/pb/swarm.pb.go\<close> and their conversion in \<open>src/codec.go\<close>. A oneof is
  a datatype with one constructor per alternative. Protobuf marshalling is not part of the
  program: \<open>Marshal\<close> and \<open>Unmarshal\<close> are the fields of a \<open>wire\<close> record, and what is relied on is
  the hypothesis \<open>wire_ok\<close> for the frames in question (marshalling fails, for instance, on
  strings that are not UTF-8).
\<close>

subsection \<open>Messages\<close>

record pbRecord =
  pb_Topic :: gostring
  pb_NodeId :: bytes
  pb_Hlc :: u64
  pb_Body :: bytes
  pb_Tombstone :: bool
  pb_Sig :: bytes
  pb_PubKey :: bytes
  pb_ObserverNodeId :: bytes
  pb_ObservedAtUnixMs :: i64
  pb_Key :: gostring

record EagerPush =
  ep_Record :: "pbRecord option"
  ep_Ttl :: u32

record IHave =
  ih_Topic :: gostring
  ih_NodeId :: bytes
  ih_Hlc :: u64
  ih_BodyHash :: bytes
  ih_Key :: gostring

record Graft =
  gr_Topic :: gostring
  gr_NodeId :: bytes
  gr_Hlc :: u64
  gr_Key :: gostring

record Prune =
  pr_Topic :: gostring

text \<open>The handlers compare the range bounds with \<open>nil\<close>; \<open>None\<close> is \<open>nil\<close>.\<close>

record MerkleProbe =
  mp_Topic :: gostring
  mp_RangeStart :: "bytes option"
  mp_RangeEnd :: "bytes option"
  mp_RootHash :: bytes

record MerkleRange =
  mr_Topic :: gostring
  mr_Records :: "pbRecord list"
  mr_Truncated :: bool

record ContentFetchRequest =
  fq_RequestId :: u64
  fq_Hash :: bytes

record ContentFetchResponse =
  fr_RequestId :: u64
  fr_Body :: bytes
  fr_Error :: gostring

datatype Frame =
    Frame_Eager EagerPush
  | Frame_Ihave IHave
  | Frame_Graft Graft
  | Frame_Prune Prune
  | Frame_Merkle MerkleProbe
  | Frame_MerkleRange MerkleRange
  | Frame_Keepalive
  | Frame_FetchReq ContentFetchRequest
  | Frame_FetchResp ContentFetchResponse
  | Frame_None

record wire =
  Marshal :: "Frame \<Rightarrow> bytes option"
  Unmarshal :: "bytes \<Rightarrow> Frame option"

definition wire_ok :: "wire \<Rightarrow> Frame \<Rightarrow> bool" where
  "wire_ok W f \<longleftrightarrow> (\<exists>b. Marshal W f = Some b \<and> Unmarshal W b = Some f)"

subsection \<open>Conversion\<close>

definition encodeFrame :: "wire \<Rightarrow> Frame \<Rightarrow> bytes option" where
  "encodeFrame W f = Marshal W f"

definition decodeFrame :: "wire \<Rightarrow> bytes \<Rightarrow> error + Frame" where
  "decodeFrame W b =
     (case Unmarshal W b of
        None \<Rightarrow> Inl (ErrOther (str ''swarm: decode frame''))
      | Some f \<Rightarrow> Inr f)"

definition recordToProto :: "Record \<Rightarrow> pbRecord" where
  "recordToProto r =
     \<lparr>pb_Topic = Topic r, pb_NodeId = NodeID r, pb_Hlc = HLC r, pb_Body = Body r,
      pb_Tombstone = Tombstone r, pb_Sig = Sig r, pb_PubKey = PubKey r,
      pb_ObserverNodeId = ObserverNodeID r, pb_ObservedAtUnixMs = ObservedAtUnixMs r,
      pb_Key = Key r\<rparr>"

definition recordFromProto :: "pbRecord \<Rightarrow> Record" where
  "recordFromProto p =
     \<lparr>Topic = pb_Topic p, NodeID = pb_NodeId p, HLC = pb_Hlc p, Body = pb_Body p,
      Tombstone = pb_Tombstone p, PubKey = pb_PubKey p, Sig = pb_Sig p, Key = pb_Key p,
      ObserverNodeID = pb_ObserverNodeId p, ObservedAtUnixMs = pb_ObservedAtUnixMs p\<rparr>"

definition bodyHash :: "crypto \<Rightarrow> Record \<Rightarrow> bytes" where
  "bodyHash C r = Sum256 C (Body r)"

definition frameEagerPush :: "Record \<Rightarrow> u32 \<Rightarrow> Frame" where
  "frameEagerPush r ttl = Frame_Eager \<lparr>ep_Record = Some (recordToProto r), ep_Ttl = ttl\<rparr>"

definition frameIHave :: "Topic \<Rightarrow> NodeID \<Rightarrow> gostring \<Rightarrow> u64 \<Rightarrow> bytes \<Rightarrow> Frame" where
  "frameIHave topic nodeID key hlc h =
     Frame_Ihave \<lparr>ih_Topic = topic, ih_NodeId = nodeID, ih_Hlc = hlc, ih_BodyHash = h, ih_Key = key\<rparr>"

definition frameGraft :: "Topic \<Rightarrow> NodeID \<Rightarrow> gostring \<Rightarrow> u64 \<Rightarrow> Frame" where
  "frameGraft topic nodeID key hlc =
     Frame_Graft \<lparr>gr_Topic = topic, gr_NodeId = nodeID, gr_Hlc = hlc, gr_Key = key\<rparr>"

definition framePrune :: "Topic \<Rightarrow> Frame" where
  "framePrune topic = Frame_Prune \<lparr>pr_Topic = topic\<rparr>"

definition frameKeepalive :: Frame where
  "frameKeepalive = Frame_Keepalive"

subsection \<open>Round trips\<close>

lemma recordFromProto_recordToProto [simp]: "recordFromProto (recordToProto r) = r"
  by (cases r) (simp add: recordFromProto_def recordToProto_def)

lemma recordToProto_recordFromProto [simp]: "recordToProto (recordFromProto p) = p"
  by (cases p) (simp add: recordFromProto_def recordToProto_def)

lemma wire_ok_decode:
  "wire_ok W f \<Longrightarrow> encodeFrame W f = Some b \<Longrightarrow> decodeFrame W b = Inr f"
  by (auto simp: wire_ok_def encodeFrame_def decodeFrame_def)

text \<open>A codec that round-trips every frame it is told to, to evaluate the definitions.\<close>

definition sampleWire :: "Frame list \<Rightarrow> wire" where
  "sampleWire fs =
     \<lparr>Marshal = (\<lambda>f. map_option (\<lambda>(i, _). [word_of_nat i]) (List.find (\<lambda>(_, g). g = f) (enumerate 0 fs))),
      Unmarshal = (\<lambda>b. case b of [i] \<Rightarrow> (if unat i < length fs then Some (fs ! unat i) else None)
                       | _ \<Rightarrow> None)\<rparr>"

end
