(* ===== verification/Peer.thy ===== *)
theory Peer
  imports Swarm_Types
begin

text \<open>
  The peer table of \<open>src/peer.go\<close>: per-peer configuration, tree-edge flags, the bounded lazy-push
  queue and the token bucket. Every operation runs under the table's and the peer's lock, so it is
  a function on the table. The instants read from the clock are arguments (\<open>now\<close> for the injected
  clock, \<open>wall\<close> for \<open>time.Now\<close>); \<open>None\<close> is the zero \<open>time.Time\<close>. Token counts are \<open>int64\<close>
  words and keep their wrap-around.
\<close>

unbundle bit_operations_syntax

record lazyEntry =
  le_topic :: Topic
  le_nodeID :: NodeID
  le_hlc :: u64
  le_bodyHash :: bytes
  le_queuedAt :: "instant option"

record peerCtx =
  pc_id :: NodeID
  pc_cfg :: PerPeerConfig
  lazyQueue :: "lazyEntry list"
  lastSeen :: "instant option"
  isTreeEdge :: bool
  tokens :: i64
  lastRefill :: "instant option"

record peerTable =
  ctxBy :: "(NodeID, peerCtx) gomap"
  configFn :: "NodeID \<Rightarrow> PerPeerConfig"

definition newPeerTable :: "(NodeID \<Rightarrow> PerPeerConfig) option \<Rightarrow> peerTable" where
  "newPeerTable fn =
     \<lparr>ctxBy = [], configFn = (case fn of None \<Rightarrow> (\<lambda>_. DefaultPerPeerConfig) | Some f \<Rightarrow> f)\<rparr>"

definition newPeerCtx :: "peerTable \<Rightarrow> NodeID \<Rightarrow> instant \<Rightarrow> peerCtx" where
  "newPeerCtx pt i wall =
     \<lparr>pc_id = i, pc_cfg = configFn pt i, lazyQueue = [], lastSeen = Some wall, isTreeEdge = False,
      tokens = 0, lastRefill = None\<rparr>"

text \<open>\<open>Ensure\<close> returns the entry, which callers update in place; \<open>putPeer\<close> writes it back.\<close>

definition Ensure :: "peerTable \<Rightarrow> NodeID \<Rightarrow> instant \<Rightarrow> peerTable \<times> peerCtx" where
  "Ensure pt i wall =
     (case map_of (ctxBy pt) i of
        Some p \<Rightarrow> (pt, p)
      | None \<Rightarrow> (let p = newPeerCtx pt i wall
                 in (pt\<lparr>ctxBy := AList.update i p (ctxBy pt)\<rparr>, p)))"

definition putPeer :: "peerTable \<Rightarrow> NodeID \<Rightarrow> peerCtx \<Rightarrow> peerTable" where
  "putPeer pt i p = pt\<lparr>ctxBy := AList.update i p (ctxBy pt)\<rparr>"

definition Remove :: "peerTable \<Rightarrow> NodeID \<Rightarrow> peerTable" where
  "Remove pt i = pt\<lparr>ctxBy := AList.delete i (ctxBy pt)\<rparr>"

definition AllPeers :: "peerTable \<Rightarrow> NodeID list" where
  "AllPeers pt = map fst (ctxBy pt)"

definition TreeEdges :: "peerTable \<Rightarrow> NodeID list" where
  "TreeEdges pt = map fst (filter (\<lambda>(_, p). isTreeEdge p) (ctxBy pt))"

definition NonTreeEdges :: "peerTable \<Rightarrow> NodeID list" where
  "NonTreeEdges pt = map fst (filter (\<lambda>(_, p). \<not> isTreeEdge p) (ctxBy pt))"

definition SetTreeEdge :: "peerTable \<Rightarrow> NodeID \<Rightarrow> bool \<Rightarrow> instant \<Rightarrow> peerTable" where
  "SetTreeEdge pt i isEdge wall =
     (let (pt1, p) = Ensure pt i wall in putPeer pt1 i (p\<lparr>isTreeEdge := isEdge\<rparr>))"

definition Snapshot :: "peerTable \<Rightarrow> NodeID \<Rightarrow> PerPeerConfig" where
  "Snapshot pt i =
     (case map_of (ctxBy pt) i of None \<Rightarrow> configFn pt i | Some p \<Rightarrow> pc_cfg p)"

definition LazyQueueDepth :: "peerTable \<Rightarrow> NodeID \<Rightarrow> nat" where
  "LazyQueueDepth pt i =
     (case map_of (ctxBy pt) i of None \<Rightarrow> 0 | Some p \<Rightarrow> length (lazyQueue p))"

text \<open>\<open>queuedAt.Before(cutoff)\<close>: the zero time lies before every instant of the program.\<close>

definition queuedBefore :: "instant \<Rightarrow> lazyEntry \<Rightarrow> bool" where
  "queuedBefore cutoff e = (case le_queuedAt e of None \<Rightarrow> True | Some q \<Rightarrow> q < cutoff)"

definition EnqueueLazy ::
  "peerTable \<Rightarrow> NodeID \<Rightarrow> lazyEntry \<Rightarrow> duration \<Rightarrow> instant \<Rightarrow> instant \<Rightarrow> peerTable \<times> bool" where
  "EnqueueLazy pt i e maxAge now wall =
     (let (pt1, p) = Ensure pt i wall;
          q = (if maxAge > 0 then dropWhile (queuedBefore (now - maxAge)) (lazyQueue p)
               else lazyQueue p);
          p1 = p\<lparr>lazyQueue := q\<rparr>
      in if BackpressureMax (pc_cfg p) > 0 \<and> int (length q) \<ge> BackpressureMax (pc_cfg p)
         then (putPeer pt1 i p1, False)
         else (putPeer pt1 i (p1\<lparr>lazyQueue := q @ [e\<lparr>le_queuedAt := Some now\<rparr>]\<rparr>), True))"

definition DrainLazy :: "peerTable \<Rightarrow> NodeID \<Rightarrow> peerTable \<times> lazyEntry list" where
  "DrainLazy pt i =
     (case map_of (ctxBy pt) i of
        None \<Rightarrow> (pt, [])
      | Some p \<Rightarrow> (putPeer pt i (p\<lparr>lazyQueue := []\<rparr>), lazyQueue p))"

text \<open>Go's truncating division of \<open>int64\<close> words.\<close>

definition i64_quot :: "i64 \<Rightarrow> i64 \<Rightarrow> i64" where
  "i64_quot a b = word_of_int (go_quot (sint a) (sint b))"

text \<open>\<open>now.Sub(last)\<close> saturates at the range of \<open>int64\<close> nanoseconds.\<close>

definition timeSub :: "instant \<Rightarrow> instant \<Rightarrow> i64" where
  "timeSub a b = word_of_int (max (- (2 ^ 63)) (min (2 ^ 63 - 1) (a - b)))"

definition refill :: "peerCtx \<Rightarrow> i64 \<Rightarrow> instant \<Rightarrow> peerCtx" where
  "refill p cap now =
     (let p1 = (case lastRefill p of
                  None \<Rightarrow> p\<lparr>tokens := (if EgressTokens (pc_cfg p) = 0 then cap else EgressTokens (pc_cfg p)),
                           lastRefill := Some now\<rparr>
                | Some _ \<Rightarrow> p);
          elapsed = timeSub now (the (lastRefill p1))
      in if sint elapsed > 0
         then let add = i64_quot (cap * elapsed) (word_of_int second)
              in if sint add > 0
                 then let t = tokens p1 + add
                      in p1\<lparr>tokens := (if sint t > sint cap then cap else t), lastRefill := Some now\<rparr>
                 else p1
         else p1)"

definition ConsumeTokens ::
  "peerTable \<Rightarrow> NodeID \<Rightarrow> i64 \<Rightarrow> instant \<Rightarrow> instant \<Rightarrow> peerTable \<times> bool" where
  "ConsumeTokens pt i cost now wall =
     (if sint cost \<le> 0 then (pt, True)
      else
        let (pt1, p) = Ensure pt i wall;
            cap = BandwidthCap (pc_cfg p)
        in if cap = 0 then (pt1, True)
           else
             let p1 = refill p cap now
             in if sint (tokens p1) < sint cost then (putPeer pt1 i p1, False)
                else (putPeer pt1 i (p1\<lparr>tokens := tokens p1 - cost\<rparr>), True))"

subsection \<open>The table\<close>

definition wf_peers :: "peerTable \<Rightarrow> bool" where
  "wf_peers pt \<longleftrightarrow> wf_map (ctxBy pt) \<and>
     (\<forall>(i, p)\<in>set (ctxBy pt). pc_id p = i \<and>
        (BackpressureMax (pc_cfg p) > 0 \<longrightarrow> int (length (lazyQueue p)) \<le> BackpressureMax (pc_cfg p)))"

lemma wf_peersD:
  "wf_peers pt \<Longrightarrow> map_of (ctxBy pt) i = Some p \<Longrightarrow> pc_id p = i \<and>
     (BackpressureMax (pc_cfg p) > 0 \<longrightarrow> int (length (lazyQueue p)) \<le> BackpressureMax (pc_cfg p))"
  by (auto simp: wf_peers_def dest: map_of_SomeD)

lemma map_of_putPeer [simp]:
  "map_of (ctxBy (putPeer pt i p)) j = (if j = i then Some p else map_of (ctxBy pt) j)"
  by (simp add: putPeer_def)

lemma Ensure_lookup:
  "map_of (ctxBy (fst (Ensure pt i wall))) j =
     (if j = i then Some (snd (Ensure pt i wall)) else map_of (ctxBy pt) j)"
  by (simp add: Ensure_def Let_def split: option.split)

lemma Ensure_known: "map_of (ctxBy pt) i = Some p \<Longrightarrow> Ensure pt i wall = (pt, p)"
  by (simp add: Ensure_def)

lemma wf_putPeer:
  assumes "wf_peers pt" and "pc_id p = i"
    and "BackpressureMax (pc_cfg p) > 0 \<longrightarrow> int (length (lazyQueue p)) \<le> BackpressureMax (pc_cfg p)"
  shows "wf_peers (putPeer pt i p)"
  using assms set_update_subset [of i p "ctxBy pt"] unfolding wf_peers_def putPeer_def by fastforce

lemma wf_Ensure: "wf_peers pt \<Longrightarrow> wf_peers (fst (Ensure pt i wall))"
proof (cases "map_of (ctxBy pt) i")
  case None
  assume "wf_peers pt"
  then have "wf_peers (putPeer pt i (newPeerCtx pt i wall))"
    by (rule wf_putPeer) (simp_all add: newPeerCtx_def)
  with None show ?thesis by (simp add: Ensure_def Let_def putPeer_def)
qed (simp add: Ensure_def)

lemma Ensure_ctx:
  assumes "wf_peers pt"
  shows "pc_id (snd (Ensure pt i wall)) = i"
    and "BackpressureMax (pc_cfg (snd (Ensure pt i wall))) > 0 \<longrightarrow>
      int (length (lazyQueue (snd (Ensure pt i wall)))) \<le> BackpressureMax (pc_cfg (snd (Ensure pt i wall)))"
  using wf_peersD [OF wf_Ensure [OF assms, of i wall], of i "snd (Ensure pt i wall)"]
  by (simp_all add: Ensure_lookup)

lemma refill_fields [simp]:
  "pc_id (refill p cap now) = pc_id p" "pc_cfg (refill p cap now) = pc_cfg p"
  "lazyQueue (refill p cap now) = lazyQueue p" "isTreeEdge (refill p cap now) = isTreeEdge p"
  by (simp_all add: refill_def Let_def split: option.split)

lemma wf_ops:
  assumes "wf_peers pt"
  shows "wf_peers (Remove pt i)" and "wf_peers (SetTreeEdge pt i b wall)"
    and "wf_peers (fst (EnqueueLazy pt i e maxAge now wall))" and "wf_peers (fst (DrainLazy pt i))"
    and "wf_peers (fst (ConsumeTokens pt i cost now wall))"
proof -
  note wf = wf_Ensure [OF assms, of i wall]
  let ?p = "snd (Ensure pt i wall)"
  let ?q = "if maxAge > 0 then dropWhile (queuedBefore (now - maxAge)) (lazyQueue ?p) else lazyQueue ?p"
  have q: "length ?q \<le> length (lazyQueue ?p)" by (simp add: length_dropWhile_le)
  show "wf_peers (Remove pt i)"
    using assms by (auto simp: wf_peers_def Remove_def AList.delete_eq)
  show "wf_peers (SetTreeEdge pt i b wall)"
    using wf Ensure_ctx [OF assms, of i wall]
    by (simp add: SetTreeEdge_def case_prod_beta wf_putPeer)
  show "wf_peers (fst (EnqueueLazy pt i e maxAge now wall))"
    using q Ensure_ctx [OF assms, of i wall]
    by (auto simp: EnqueueLazy_def Let_def case_prod_beta intro!: wf_putPeer [OF wf])
  show "wf_peers (fst (DrainLazy pt i))"
    using assms wf_peersD [OF assms, of i]
    by (auto simp: DrainLazy_def intro!: wf_putPeer split: option.split)
  show "wf_peers (fst (ConsumeTokens pt i cost now wall))"
    using assms wf Ensure_ctx [OF assms, of i wall]
    by (auto simp: ConsumeTokens_def Let_def case_prod_beta intro!: wf_putPeer [OF wf])
qed

text \<open>C32: The lazy queues stay bounded: every operation of the peer table keeps one entry per peer and
  no queue of a peer with backpressure longer than its \<open>BackpressureMax\<close>; enqueueing refuses exactly
  when the entries younger than the window already fill the queue, and an accepted entry is the
  newest of the queue.\<close>

theorem peer_table_bounded:
  assumes "wf_peers pt"
  shows "wf_peers (fst (Ensure pt i wall)) \<and> wf_peers (Remove pt i) \<and>
    wf_peers (SetTreeEdge pt i b wall) \<and> wf_peers (fst (EnqueueLazy pt i e maxAge now wall)) \<and>
    wf_peers (fst (DrainLazy pt i)) \<and> wf_peers (fst (ConsumeTokens pt i cost now wall)) \<and>
    (let p = snd (Ensure pt i wall);
         q = (if maxAge > 0 then dropWhile (queuedBefore (now - maxAge)) (lazyQueue p) else lazyQueue p);
         (pt', ok) = EnqueueLazy pt i e maxAge now wall
     in (ok \<longleftrightarrow> BackpressureMax (pc_cfg p) \<le> 0 \<or> int (length q) < BackpressureMax (pc_cfg p)) \<and>
        LazyQueueDepth pt' i = (if ok then Suc (length q) else length q))"
proof -
  note wf = wf_Ensure [OF assms] wf_ops [OF assms]
  show ?thesis
    using wf
    by (auto simp: EnqueueLazy_def Let_def case_prod_beta LazyQueueDepth_def split: if_splits)
qed

subsection \<open>The token bucket\<close>

lemma sint_bounds: "- (2 ^ 63) \<le> sint (x :: i64)" "sint (x :: i64) < 2 ^ 63"
  using sint_range_size [of x] by (simp_all add: word_size)

lemma sint_word_of_int: "- (2 ^ 63) \<le> k \<Longrightarrow> k < 2 ^ 63 \<Longrightarrow> sint (word_of_int k :: i64) = k"
  by (simp add: sint_sbintrunc' signed_take_bit_int_eq_self)

lemma sint_mult_small:
  "- (2 ^ 63) \<le> sint a * sint b \<Longrightarrow> sint a * sint b < 2 ^ 63 \<Longrightarrow> sint (a * b :: i64) = sint a * sint b"
  by (simp add: sint_word_ariths(3) signed_take_bit_int_eq_self)

lemma sint_add_small:
  "- (2 ^ 63) \<le> sint a + sint b \<Longrightarrow> sint a + sint b < 2 ^ 63 \<Longrightarrow> sint (a + b :: i64) = sint a + sint b"
  by (simp add: sint_word_ariths(1) signed_take_bit_int_eq_self)

lemma sint_sub_small:
  "- (2 ^ 63) \<le> sint a - sint b \<Longrightarrow> sint a - sint b < 2 ^ 63 \<Longrightarrow> sint (a - b :: i64) = sint a - sint b"
  by (simp add: sint_word_ariths(2) signed_take_bit_int_eq_self)

lemma refill_exact:
  assumes "lastRefill p = Some l" and "l \<le> now" and "0 < sint cap"
    and "sint cap * (now - l) < 2 ^ 62" and "0 \<le> sint (tokens p)" and "sint (tokens p) < 2 ^ 62"
  defines "add \<equiv> sint cap * (now - l) div 1000000000"
  shows "sint (tokens (refill p cap now)) =
      (if 0 < add then min (sint cap) (sint (tokens p) + add) else sint (tokens p))"
    and "lastRefill (refill p cap now) = Some (if 0 < add then now else l)"
proof -
  have sec: "sint (word_of_int second :: i64) = 1000000000"
    by (simp add: second_def)
  have d: "0 \<le> now - l" "now - l < 2 ^ 62"
  proof -
    show "0 \<le> now - l" using assms(2) by simp
    then have "now - l \<le> sint cap * (now - l)" using assms(3) mult_right_mono [of 1 "sint cap" "now - l"] by simp
    then show "now - l < 2 ^ 62" using assms(4) by linarith
  qed
  have el: "sint (timeSub now l) = now - l"
  proof -
    have "max (- (2 ^ 63)) (min (2 ^ 63 - 1) (now - l)) = now - l" using d by simp
    then show ?thesis unfolding timeSub_def using d by (simp only:) (rule sint_word_of_int, simp_all)
  qed
  have nn: "0 \<le> sint cap * (now - l)" using assms(3) d(1) by simp
  have prod: "sint (cap * timeSub now l) = sint cap * (now - l)"
    using nn assms(4) by (subst sint_mult_small) (simp_all add: el)
  define A where "A = i64_quot (cap * timeSub now l) (word_of_int second)"
  have add0: "0 \<le> add" "add \<le> sint cap * (now - l)"
    using nn zdiv_mono2 [of "sint cap * (now - l)" 1 1000000000] unfolding add_def
    by (simp_all add: pos_imp_zdiv_nonneg_iff)
  have A: "sint A = add"
    using nn assms(4) add0 unfolding A_def i64_quot_def prod sec
    by (subst sint_word_of_int) (simp_all add: go_quot_nonneg flip: add_def)
  have sum: "sint (tokens p + A) = sint (tokens p) + add"
    using add0 assms(4-6) by (subst sint_add_small) (simp_all add: A)
  have p: "refill p cap now =
      (if 0 < now - l
       then if 0 < add
            then p\<lparr>tokens := (if sint (tokens p + A) > sint cap then cap else tokens p + A), lastRefill := Some now\<rparr>
            else p
       else p)"
    unfolding refill_def using assms(1) by (simp add: Let_def el A flip: A_def)
  have z: "now = l" if "\<not> 0 < now - l" using d(1) that by simp
  show "sint (tokens (refill p cap now)) =
      (if 0 < add then min (sint cap) (sint (tokens p) + add) else sint (tokens p))"
    using z sum by (auto simp: p add_def min_def)
  show "lastRefill (refill p cap now) = Some (if 0 < add then now else l)"
    using z assms(1) by (auto simp: p add_def)
qed

lemma refill_first:
  assumes "lastRefill p = None"
  shows "refill p cap now =
    p\<lparr>tokens := (if EgressTokens (pc_cfg p) = 0 then cap else EgressTokens (pc_cfg p)), lastRefill := Some now\<rparr>"
  using assms by (simp add: refill_def timeSub_def)

text \<open>The bytes granted to a peer over a sequence of requests (cost, time).\<close>

fun spend :: "peerTable \<Rightarrow> NodeID \<Rightarrow> (i64 \<times> instant) list \<Rightarrow> int" where
  "spend pt i [] = 0"
| "spend pt i ((cost, now) # ds) =
     (let (pt', ok) = ConsumeTokens pt i cost now now
      in (if ok then sint cost else 0) + spend pt' i ds)"

text \<open>
  The budget argument: tokens plus what was granted never exceed the initial tokens plus the
  cap's rate over the refilled time.
\<close>

lemma refill_budget:
  fixes p :: peerCtx and now l fin :: int
  defines "cap \<equiv> BandwidthCap (pc_cfg p)"
  assumes "lastRefill p = Some l" and "l \<le> now" and "now \<le> fin" and "0 < sint cap" and "sint cap < 2 ^ 62"
    and "0 \<le> sint (tokens p)" and "sint (tokens p) < 2 ^ 62" and "sint cap * (fin - l) < 2 ^ 62"
  obtains l' where "lastRefill (refill p cap now) = Some l'" "l \<le> l'" "l' \<le> now"
    "0 \<le> sint (tokens (refill p cap now))" "sint (tokens (refill p cap now)) < 2 ^ 62"
    "1000000000 * sint (tokens (refill p cap now)) + sint cap * (fin - l')
       \<le> 1000000000 * sint (tokens p) + sint cap * (fin - l)"
proof -
  let ?add = "sint cap * (now - l) div 1000000000"
  have "sint cap * (now - l) \<le> sint cap * (fin - l)" using assms by (intro mult_left_mono) simp_all
  then have small: "sint cap * (now - l) < 2 ^ 62" using assms(9) by linarith
  note ex = refill_exact [OF assms(2,3,5) small assms(7,8)]
  have "1000000000 * (x div 1000000000) \<le> x" for x :: int
    by (simp add: minus_mod_eq_mult_div [symmetric])
  then have div: "1000000000 * ?add \<le> sint cap * (now - l)" .
  show ?thesis
  proof (cases "0 < ?add")
    case True
    then have "sint (tokens (refill p cap now)) \<le> sint (tokens p) + ?add" using ex(1) by simp
    then have "1000000000 * sint (tokens (refill p cap now)) \<le> 1000000000 * sint (tokens p) + sint cap * (now - l)"
      using div by linarith
    moreover have "sint cap * (fin - l) = sint cap * (now - l) + sint cap * (fin - now)"
      by (simp add: algebra_simps)
    ultimately have budget: "1000000000 * sint (tokens (refill p cap now)) + sint cap * (fin - now)
        \<le> 1000000000 * sint (tokens p) + sint cap * (fin - l)" by linarith
    have "0 \<le> min a (b + c) \<and> min a (b + c) < M" if "0 < a" "a < M" "0 \<le> b" "0 < c" for a b c M :: int
      using that by auto
    from this [OF assms(5,6,7) True] have "0 \<le> sint (tokens (refill p cap now)) \<and>
        sint (tokens (refill p cap now)) < 2 ^ 62"
      using ex(1) True by (simp only: if_True)
    with budget show ?thesis using True ex(2) assms(3) by (intro that [of now]) (simp_all only: if_True)
  next
    case False
    then have "sint (tokens (refill p cap now)) = sint (tokens p)"
      and "lastRefill (refill p cap now) = Some l" using ex by (simp_all only: if_False)
    then show ?thesis using assms(3,7,8) by (intro that [of l]) (simp_all only: order_refl)
  qed
qed

lemma spend_bound:
  fixes fin :: int
  assumes "map_of (ctxBy pt) i = Some p" and "lastRefill p = Some l"
    and "0 < sint (BandwidthCap (pc_cfg p))" and "sint (BandwidthCap (pc_cfg p)) < 2 ^ 62"
    and "0 \<le> sint (tokens p)" and "sint (tokens p) < 2 ^ 62"
    and "sorted_wrt (\<le>) (l # map snd ds)" and "\<forall>now\<in>snd ` set ds. now \<le> fin" and "l \<le> fin"
    and "sint (BandwidthCap (pc_cfg p)) * (fin - l) < 2 ^ 62"
  shows "1000000000 * spend pt i ds \<le>
    1000000000 * sint (tokens p) + sint (BandwidthCap (pc_cfg p)) * (fin - l)"
  using assms
proof (induction ds arbitrary: pt p l)
  case Nil
  then show ?case by simp
next
  case (Cons d ds)
  obtain cost now where d: "d = (cost, now)" by (cases d)
  let ?cap = "BandwidthCap (pc_cfg p)"
  have ord: "l \<le> now" "now \<le> fin" "\<forall>t\<in>snd ` set ds. now \<le> t" "sorted_wrt (\<le>) (map snd ds)"
    "\<forall>t\<in>snd ` set ds. t \<le> fin"
    using Cons.prems(7,8) d by auto
  show ?case
  proof (cases "sint cost \<le> 0")
    case True
    have "1000000000 * spend pt i ds \<le> 1000000000 * sint (tokens p) + sint ?cap * (fin - l)"
      using Cons.prems ord by (intro Cons.IH) auto
    with True d show ?thesis by (simp add: ConsumeTokens_def)
  next
    case False
    obtain l' where l': "lastRefill (refill p ?cap now) = Some l'" "l \<le> l'" "l' \<le> now"
      "0 \<le> sint (tokens (refill p ?cap now))" "sint (tokens (refill p ?cap now)) < 2 ^ 62"
      "1000000000 * sint (tokens (refill p ?cap now)) + sint ?cap * (fin - l')
         \<le> 1000000000 * sint (tokens p) + sint ?cap * (fin - l)"
      using refill_budget [OF Cons.prems(2) ord(1,2) Cons.prems(3-6,10)] by blast
    have small: "sint ?cap * (fin - l') < 2 ^ 62"
    proof -
      have "sint ?cap * (fin - l') \<le> sint ?cap * (fin - l)"
        using l'(2) Cons.prems(3) by (intro mult_left_mono) simp_all
      then show ?thesis using Cons.prems(10) by linarith
    qed
    have srt: "sorted_wrt (\<le>) (l' # map snd ds)" using ord l'(3) by auto
    let ?p1 = "refill p ?cap now"
    have IH: "1000000000 * spend pt' i ds \<le> 1000000000 * sint (tokens p') + sint ?cap * (fin - l')"
      if "map_of (ctxBy pt') i = Some p'" "lastRefill p' = Some l'" "pc_cfg p' = pc_cfg p"
        "0 \<le> sint (tokens p')" "sint (tokens p') < 2 ^ 62" for pt' p'
      using Cons.IH [OF that(1,2)] that(3-5) Cons.prems(3,4) srt ord l' small by auto
    have cap: "?cap \<noteq> 0" using Cons.prems(3) by auto
    show ?thesis
    proof (cases "sint (tokens ?p1) < sint cost")
      case True
      have "spend pt i (d # ds) = spend (putPeer pt i ?p1) i ds"
        using False True cap d Cons.prems(1) by (simp add: ConsumeTokens_def Ensure_known Let_def)
      with IH [of "putPeer pt i ?p1" ?p1] l' show ?thesis by simp
    next
      case granted: False
      let ?p2 = "?p1\<lparr>tokens := tokens ?p1 - cost\<rparr>"
      have t: "sint (tokens ?p1 - cost) = sint (tokens ?p1) - sint cost"
        using granted False l'(4,5) by (intro sint_sub_small) simp_all
      have "spend pt i (d # ds) = sint cost + spend (putPeer pt i ?p2) i ds"
        using False granted cap d Cons.prems(1) by (simp add: ConsumeTokens_def Ensure_known Let_def)
      with IH [of "putPeer pt i ?p2" ?p2] l' t granted False show ?thesis by simp
    qed
  qed
qed

text \<open>C33: The token bucket enforces its rate: from a fresh bucket, however the sends to a peer are
  spaced, the bytes granted up to time \<open>fin\<close> are at most the initial allowance (the configured
  egress tokens, or one second's worth of the cap) plus the cap's rate over the elapsed time, as
  long as cap times elapsed nanoseconds stays below 2^62.\<close>

theorem token_bucket_rate:
  assumes "map_of (ctxBy pt) i = Some p" and "lastRefill p = None"
    and "cap = sint (BandwidthCap (pc_cfg p))" and "0 < cap" and "cap < 2 ^ 62"
    and "burst = (if EgressTokens (pc_cfg p) = 0 then cap else sint (EgressTokens (pc_cfg p)))"
    and "0 \<le> burst" and "burst < 2 ^ 62"
    and "ds = (cost, start) # rest" and "0 < sint cost" and "sorted_wrt (\<le>) (map snd ds)"
    and "\<forall>now\<in>snd ` set ds. now \<le> fin" and "cap * (fin - start) < 2 ^ 62"
  shows "spend pt i ds \<le> burst + cap * (fin - start) div 1000000000"
proof -
  let ?cap = "BandwidthCap (pc_cfg p)"
  let ?p1 = "refill p ?cap start"
  have p1: "pc_cfg ?p1 = pc_cfg p" "lastRefill ?p1 = Some start" "sint (tokens ?p1) = burst"
    using assms(2,3,6) by (simp_all add: refill_first)
  have "refill ?p1 ?cap start = ?p1"
    using p1 by (simp add: refill_def [of ?p1] timeSub_def)
  moreover have cap: "?cap \<noteq> 0" using assms(3,4) by auto
  ultimately have same: "ConsumeTokens pt i cost start start
      = ConsumeTokens (putPeer pt i ?p1) i cost start start"
    using assms(1,10) by (simp add: ConsumeTokens_def Ensure_known Let_def putPeer_def)
  have "1000000000 * spend (putPeer pt i ?p1) i ds \<le> 1000000000 * sint (tokens ?p1) + sint ?cap * (fin - start)"
    using assms p1 by (subst p1(1) [symmetric], intro spend_bound) auto
  then have "1000000000 * spend pt i ds \<le> 1000000000 * burst + cap * (fin - start)"
    using same p1(3) assms(3,9) by simp
  moreover have "a \<le> b + c div 1000000000" if "1000000000 * a \<le> 1000000000 * b + c" for a b c :: int
  proof -
    have "(a - b) * 1000000000 div 1000000000 \<le> c div 1000000000"
      using that by (intro zdiv_mono1) simp_all
    then show ?thesis by simp
  qed
  ultimately show ?thesis by blast
qed

definition samplePeers :: "u64 \<Rightarrow> peerTable" where
  "samplePeers cap = fst (Ensure (newPeerTable (Some (\<lambda>_. DefaultPerPeerConfig\<lparr>BandwidthCap := cap\<rparr>))) [1] 0)"

theorem token_bucket_rate_witness:
  "spend (samplePeers 1000) [1] [(800, 0), (800, 500000000), (800, 1000000000)] \<le> 2000"
proof -
  let ?p = "newPeerCtx (newPeerTable (Some (\<lambda>_. DefaultPerPeerConfig\<lparr>BandwidthCap := 1000\<rparr>))) [1] 0"
  have pos: "0 < sint (800 :: i64)" by simp
  have "spend (samplePeers 1000) [1] [(800, 0), (800, 500000000), (800, 1000000000)]
      \<le> 1000 + 1000 * (1000000000 - 0) div 1000000000"
    by (rule token_bucket_rate [where p = ?p, OF _ _ _ _ _ _ _ _ _ pos])
      (simp_all add: samplePeers_def Ensure_def newPeerTable_def newPeerCtx_def DefaultPerPeerConfig_def Let_def)
  then show ?thesis by simp
qed

theorem peer_table_bounded_witness:
  "wf_peers (fst (EnqueueLazy (samplePeers 0) [1]
     \<lparr>le_topic = [116], le_nodeID = [2], le_hlc = 1, le_bodyHash = [], le_queuedAt = None\<rparr> second 7 7))"
proof -
  have "wf_peers (samplePeers 0)"
    by (simp add: samplePeers_def Ensure_def newPeerTable_def newPeerCtx_def wf_peers_def Let_def)
  then show ?thesis using peer_table_bounded by blast
qed

text \<open>The refill overflows: at a cap of 100 MB/s, a bucket emptied by one send and then left idle
  for 100 seconds gets no tokens at all, because cap times nanoseconds exceeds 64 bits, and the
  next send is refused.\<close>

theorem token_refill_overflows:
  "let pt = samplePeers 100000000;
       (pt1, ok1) = ConsumeTokens pt [1] 100000000 1 1;
       (_, ok2) = ConsumeTokens pt1 [1] 1 (1 + 100 * second) 2;
       (_, ok3) = ConsumeTokens pt1 [1] 1 (1 + 50 * second) 2
   in ok1 \<and> \<not> ok2 \<and> ok3"
  by (simp add: samplePeers_def Ensure_def newPeerTable_def newPeerCtx_def DefaultPerPeerConfig_def
      Let_def ConsumeTokens_def refill_def timeSub_def i64_quot_def go_quot_def second_def putPeer_def)

end
