(* ===== verification/Engine.thy ===== *)
theory Engine
  imports Crdt_Reap Harden Codec Peer
begin

text \<open>
  The state the gossip engines share: \<open>plumtreesEngine\<close> (\<open>src/plumtrees.go\<close>) and
  \<open>merkleEngine\<close> (\<open>src/merkle.go\<close>) hold pointers to one record store, one peer table, one clock
  and one inbound gate, so one record holds them all. The transport's \<open>Send\<close> is an output: the
  frames handed to it are appended to \<open>sent\<close>. Callbacks into the node (record applied, fetch
  request, fetch response) are appended to \<open>calls\<close>. One handler runs to completion on the state;
  the two clocks it reads are fields of \<open>env\<close> and do not advance while it runs: \<open>clk_now\<close> is the
  configured clock (\<open>Config.NowFn\<close>), \<open>clk_wall\<close> the real one (\<open>time.Now\<close>).
\<close>

record env =
  cr :: crypto
  wr :: wire
  clk_now :: instant
  clk_wall :: instant

abbreviation nowMs :: "env \<Rightarrow> i64" where "nowMs E \<equiv> UnixMilli (clk_now E)"
abbreviation wallMs :: "env \<Rightarrow> i64" where "wallMs E \<equiv> UnixMilli (clk_wall E)"

datatype callback =
    OnApplied Record
  | OnFetchReq NodeID ContentFetchRequest
  | OnFetchResp NodeID ContentFetchResponse

datatype ihaveKey = IHaveKey (ik_topic: Topic) (ik_nodeID: NodeID) (ik_key: gostring) (ik_hlc: u64)

record ihaveEntry =
  announcer :: NodeID
  ie_bodyHash :: bytes
  seenAt :: instant
  grafted :: bool

record merkleEngine =
  probeEvery :: duration
  maxRangeSize :: int
  probeSalt :: u64
  lastProbe :: "(Topic, instant) gomap"
  lastReciprocal :: "(gostring, instant) gomap"
  merklePaused :: bool

record engine =
  localID :: NodeID
  store :: recordStore
  peers :: peerTable
  hlc :: u64
  treeDeg :: int
  eagerTTL :: u32
  graftDelay :: duration
  maxIHaves :: int
  missingIHaves :: "(ihaveKey, ihaveEntry) gomap"
  gate :: "inboundGate option"
  plumPaused :: bool
  merkle :: merkleEngine
  merkleWired :: bool
  sent :: "(NodeID \<times> bytes) list"
  calls :: "callback list"

subsection \<open>Sending\<close>

text \<open>Encode, and on an encoding error send nothing.\<close>

definition sendFrame :: "env \<Rightarrow> engine \<Rightarrow> NodeID \<Rightarrow> Frame \<Rightarrow> engine" where
  "sendFrame E e to f =
     (case encodeFrame (wr E) f of
        None \<Rightarrow> e
      | Some b \<Rightarrow> e\<lparr>sent := sent e @ [(to, b)]\<rparr>)"

text \<open>Where the code drops the encoding error, the nil frame is sent.\<close>

definition sendUnchecked :: "env \<Rightarrow> engine \<Rightarrow> NodeID \<Rightarrow> Frame \<Rightarrow> engine" where
  "sendUnchecked E e to f =
     e\<lparr>sent := sent e @ [(to, case encodeFrame (wr E) f of None \<Rightarrow> [] | Some b \<Rightarrow> b)]\<rparr>"

text \<open>
  The shared admission path of records off the wire: signature under the carried key, then the
  gate if one is installed.
\<close>

definition verifyInbound :: "env \<Rightarrow> Record \<Rightarrow> bool" where
  "verifyInbound E r \<longleftrightarrow> length (PubKey r) = PublicKeySize \<and> verifyRecord (cr E) r (PubKey r)"

definition admitInbound :: "env \<Rightarrow> engine \<Rightarrow> Record \<Rightarrow> engine \<times> bool" where
  "admitInbound E e r =
     (case gate e of
        None \<Rightarrow> (e, True)
      | Some g \<Rightarrow> (let (g', err) = Admit g (wallMs E) r in (e\<lparr>gate := Some g'\<rparr>, err = None)))"

text \<open>The effect of \<open>hlc.Observe\<close> and of the store's apply on the shared state.\<close>

definition observeHLC :: "env \<Rightarrow> engine \<Rightarrow> u64 \<Rightarrow> engine" where
  "observeHLC E e h = e\<lparr>hlc := HLC_Observe (hlc e) h (wallMs E)\<rparr>"

definition applyStore :: "env \<Rightarrow> engine \<Rightarrow> Record \<Rightarrow> engine \<times> apply_result" where
  "applyStore E e r = (let (s', res) = ApplyExt (store e) (nowMs E) r in (e\<lparr>store := s'\<rparr>, res))"

definition notifyApplied :: "engine \<Rightarrow> Record \<Rightarrow> engine" where
  "notifyApplied e r = e\<lparr>calls := calls e @ [OnApplied r]\<rparr>"

subsection \<open>Which records may reach the store\<close>

text \<open>A record the gate, in any of its counter states, lets through.\<close>

definition acceptable :: "env \<Rightarrow> inboundGate option \<Rightarrow> Record \<Rightarrow> bool" where
  "acceptable E g r \<longleftrightarrow> verifyInbound E r \<and>
     (case g of None \<Rightarrow> True | Some g' \<Rightarrow> snd (Admit g' (wallMs E) r) = None)"

text \<open>The configuration of a gate: everything but its counters.\<close>

definition gateConfig :: "inboundGate \<Rightarrow> inboundGate" where
  "gateConfig g = g\<lparr>rejectedSize := 0, rejectedSkew := 0, rejectedBinding := 0, rejectedTrust := 0\<rparr>"

lemma gateConfig_Admit: "gateConfig (fst (Admit g n r)) = gateConfig g"
  by (simp add: gateConfig_def Admit_def split: option.split)

lemma Admit_config: "gateConfig g = gateConfig g' \<Longrightarrow> snd (Admit g n r) = snd (Admit g' n r)"
proof -
  assume eq: "gateConfig g = gateConfig g'"
  have "maxBytes g = maxBytes g'" "maxSkew g = maxSkew g'" "binding g = binding g'"
    "trustCheck g = trustCheck g'"
    using arg_cong [OF eq, of maxBytes] arg_cong [OF eq, of maxSkew]
      arg_cong [OF eq, of binding] arg_cong [OF eq, of trustCheck]
    by (simp_all add: gateConfig_def)
  then show ?thesis
    unfolding Admit_def if_distrib [of snd] option.case_distrib [of snd] snd_conv by (simp only:)
qed

lemma acceptable_config:
  assumes "map_option gateConfig g = map_option gateConfig g'"
  shows "acceptable E g r = acceptable E g' r"
proof (cases g)
  case None
  with assms have "g' = None" by simp
  with None show ?thesis by simp
next
  case (Some x)
  with assms obtain y where y: "g' = Some y" "gateConfig x = gateConfig y" by (cases g') auto
  show ?thesis using Admit_config [OF y(2)] Some y(1) by (simp add: acceptable_def)
qed

lemma sendFrame_fields [simp]:
  "store (sendFrame E e to f) = store e" "peers (sendFrame E e to f) = peers e"
  "hlc (sendFrame E e to f) = hlc e" "missingIHaves (sendFrame E e to f) = missingIHaves e"
  "gate (sendFrame E e to f) = gate e" "calls (sendFrame E e to f) = calls e"
  "treeDeg (sendFrame E e to f) = treeDeg e" "maxIHaves (sendFrame E e to f) = maxIHaves e"
  "merkle (sendFrame E e to f) = merkle e" "localID (sendFrame E e to f) = localID e"
  "graftDelay (sendFrame E e to f) = graftDelay e" "eagerTTL (sendFrame E e to f) = eagerTTL e"
  "plumPaused (sendFrame E e to f) = plumPaused e" "merkleWired (sendFrame E e to f) = merkleWired e"
  by (simp_all add: sendFrame_def split: option.split)

lemma sendUnchecked_fields [simp]:
  "store (sendUnchecked E e to f) = store e" "peers (sendUnchecked E e to f) = peers e"
  "hlc (sendUnchecked E e to f) = hlc e" "missingIHaves (sendUnchecked E e to f) = missingIHaves e"
  "gate (sendUnchecked E e to f) = gate e" "calls (sendUnchecked E e to f) = calls e"
  "treeDeg (sendUnchecked E e to f) = treeDeg e" "maxIHaves (sendUnchecked E e to f) = maxIHaves e"
  "merkle (sendUnchecked E e to f) = merkle e" "localID (sendUnchecked E e to f) = localID e"
  "graftDelay (sendUnchecked E e to f) = graftDelay e" "eagerTTL (sendUnchecked E e to f) = eagerTTL e"
  "plumPaused (sendUnchecked E e to f) = plumPaused e"
  "merkleWired (sendUnchecked E e to f) = merkleWired e"
  by (simp_all add: sendUnchecked_def)

subsection \<open>Sample states\<close>

definition sampleEnv :: env where
  "sampleEnv = \<lparr>cr = sampleCrypto, wr = sampleWire [], clk_now = 2000 * millisecond,
     clk_wall = 2000 * millisecond\<rparr>"

definition sampleEngine :: "recordStore \<Rightarrow> engine" where
  "sampleEngine s =
     \<lparr>localID = [1], store = s, peers = newPeerTable None, hlc = 0, treeDeg = 4, eagerTTL = 8,
      graftDelay = 200 * millisecond, maxIHaves = 4096, missingIHaves = [], gate = None,
      plumPaused = False,
      merkle = \<lparr>probeEvery = minute, maxRangeSize = 64, probeSalt = 0, lastProbe = [],
        lastReciprocal = [], merklePaused = False\<rparr>,
      merkleWired = True, sent = [], calls = []\<rparr>"

lemma sampleSigned_inbound: "verifyInbound sampleEnv sampleSigned"
  by (simp add: verifyInbound_def sampleEnv_def sampleSigned_def verifyRecord_def signRecord_def Let_def
      sampleCrypto_def SignatureSize_def PublicKeySize_def signableBytes_def)

end
