(* ===== verification/Merkle.thy ===== *)
theory Merkle
  imports Engine
begin

text \<open>
  Anti-entropy, \<open>src/merkle.go\<close>: topic roots over NodeID ranges, probes, range replies split on a
  NodeID boundary, and the receiver's cursor. SHA-256 is the \<open>Sum256\<close> of the environment's
  \<open>crypto\<close>; hashing a stream of writes is hashing their concatenation.
\<close>

subsection \<open>Byte helpers\<close>

fun bytesLess :: "bytes \<Rightarrow> bytes \<Rightarrow> bool" where
  "bytesLess (x # xs) (y # ys) = (if x \<noteq> y then x < y else bytesLess xs ys)"
| "bytesLess xs ys = (length xs < length ys)"

fun bytesEqual :: "bytes \<Rightarrow> bytes \<Rightarrow> bool" where
  "bytesEqual (x # xs) (y # ys) = (x = y \<and> bytesEqual xs ys)"
| "bytesEqual [] [] = True"
| "bytesEqual _ _ = False"

subsection \<open>Roots\<close>

definition inRange :: "bytes option \<Rightarrow> bytes option \<Rightarrow> bytes \<Rightarrow> bool" where
  "inRange rangeStart rangeEnd nid \<longleftrightarrow>
     \<not> (case rangeStart of None \<Rightarrow> False | Some a \<Rightarrow> bytesLess nid a) \<and>
     \<not> (case rangeEnd of None \<Rightarrow> False | Some b \<Rightarrow> bytesLess b nid)"

definition rangeRecords :: "recordStore \<Rightarrow> Topic \<Rightarrow> bytes option \<Rightarrow> bytes option \<Rightarrow> Record list" where
  "rangeRecords s topic rangeStart rangeEnd =
     filter (\<lambda>r. inRange rangeStart rangeEnd (NodeID r)) (topicRecordsSigned s topic)"

definition leafBytes :: "crypto \<Rightarrow> Record \<Rightarrow> bytes" where
  "leafBytes C r = Sum256 C (NodeID r) @ be 8 (unat (HLC r)) @ Sum256 C (Sig r)"

definition topicMerkleRoot ::
  "crypto \<Rightarrow> recordStore \<Rightarrow> Topic \<Rightarrow> bytes option \<Rightarrow> bytes option \<Rightarrow> bytes" where
  "topicMerkleRoot C s topic rangeStart rangeEnd =
     Sum256 C (concat (map (leafBytes C) (rangeRecords s topic rangeStart rangeEnd)))"

subsection \<open>Construction and pacing\<close>

definition newMerkle :: "crypto \<Rightarrow> NodeID option \<Rightarrow> duration \<Rightarrow> merkleEngine" where
  "newMerkle C tport probeInterval =
     \<lparr>probeEvery = (if probeInterval \<le> 0 then 60 * second else probeInterval),
      maxRangeSize = 64,
      probeSalt = (case tport of
                     None \<Rightarrow> 0
                   | Some lid \<Rightarrow> word_of_nat (un_be (take 8 (Sum256 C lid)))),
      lastProbe = [], lastReciprocal = [], merklePaused = False\<rparr>"

definition merkleSetPaused :: "engine \<Rightarrow> bool \<Rightarrow> engine" where
  "merkleSetPaused e b = e\<lparr>merkle := (merkle e)\<lparr>merklePaused := b\<rparr>\<rparr>"

definition sendProbe ::
  "env \<Rightarrow> engine \<Rightarrow> NodeID \<Rightarrow> Topic \<Rightarrow> bytes option \<Rightarrow> bytes option \<Rightarrow> engine" where
  "sendProbe E e to topic rangeStart rangeEnd =
     sendFrame E e to (Frame_Merkle
       \<lparr>mp_Topic = topic, mp_RangeStart = rangeStart, mp_RangeEnd = rangeEnd,
        mp_RootHash = topicMerkleRoot (cr E) (store e) topic rangeStart rangeEnd\<rparr>)"

text \<open>One topic of \<open>Tick\<close>: when due, probe the peer picked by the clock and the salt.\<close>

definition tickTopic :: "env \<Rightarrow> engine \<Rightarrow> Topic \<Rightarrow> engine" where
  "tickTopic E e topic =
     (let m = merkle e;
          due = (case map_of (lastProbe m) topic of
                   None \<Rightarrow> True | Some prev \<Rightarrow> clk_now E - prev \<ge> probeEvery m)
      in if \<not> due then e
         else
           let e1 = e\<lparr>merkle := m\<lparr>lastProbe := AList.update topic (clk_now E) (lastProbe m)\<rparr>\<rparr>;
               ps = NonTreeEdges (peers e1)
           in if ps = [] then e1
              else
                let idx = unat ((nowMs E + probeSalt m) mod word_of_nat (length ps))
                in sendProbe E e1 (ps ! idx) topic None None)"

definition merkleTick :: "env \<Rightarrow> engine \<Rightarrow> engine" where
  "merkleTick E e =
     (if merklePaused (merkle e) then e else foldl (tickTopic E) e (Topics (store e)))"

definition ProbePeer :: "env \<Rightarrow> engine \<Rightarrow> NodeID \<Rightarrow> engine" where
  "ProbePeer E e target =
     (if target = [] then e
      else foldl (\<lambda>e topic. sendProbe E e target topic None None) e (Topics (store e)))"

definition Roots :: "crypto \<Rightarrow> recordStore \<Rightarrow> (Topic \<times> bytes) list" where
  "Roots C s = map (\<lambda>t. (t, topicMerkleRoot C s t None None)) (Topics s)"

subsection \<open>The responder\<close>

definition sendRange :: "env \<Rightarrow> engine \<Rightarrow> NodeID \<Rightarrow> Topic \<Rightarrow> Record list \<Rightarrow> bool \<Rightarrow> engine" where
  "sendRange E e to topic recs truncated =
     sendFrame E e to (Frame_MerkleRange
       \<lparr>mr_Topic = topic, mr_Records = map recordToProto recs, mr_Truncated = truncated\<rparr>)"

text \<open>The split moved to the end of the key group it landed in.\<close>

function advanceSplit :: "Record list \<Rightarrow> nat \<Rightarrow> nat" where
  "advanceSplit recs half =
     (if half < length recs \<and> NodeID (recs ! half) = NodeID (recs ! (half - 1))
      then advanceSplit recs (half + 1) else half)"
  by auto
termination by (relation "measure (\<lambda>(recs, half). length recs - half)") auto

text \<open>The records of a reply and its truncation mark.\<close>

definition rangeReply ::
  "recordStore \<Rightarrow> int \<Rightarrow> Topic \<Rightarrow> bytes option \<Rightarrow> bytes option \<Rightarrow> Record list \<times> bool" where
  "rangeReply s maxRange topic rangeStart rangeEnd =
     (let recs = rangeRecords s topic rangeStart rangeEnd
      in if int (length recs) \<le> maxRange
         then (if rangeStart = None \<and> rangeEnd = None
               then (let atts = topicAttestations s topic
                     in recs @ (if int (length atts) > maxRange then take (nat maxRange) atts else atts))
               else recs, False)
         else
           let half0 = length recs div 2;
               half1 = (if half0 < 1 then 1 else half0);
               half = advanceSplit recs half1
           in if half \<ge> length recs then (recs, False) else (take half recs, True))"

definition reciprocate :: "env \<Rightarrow> engine \<Rightarrow> NodeID \<Rightarrow> MerkleProbe \<Rightarrow> engine" where
  "reciprocate E e from p =
     (let m = merkle e;
          rkey = from @ [0] @ mp_Topic p;
          allowed = (case map_of (lastReciprocal m) rkey of
                       None \<Rightarrow> True | Some prev \<Rightarrow> clk_now E - prev \<ge> 5 * second)
      in if allowed
         then sendProbe E
                (e\<lparr>merkle := m\<lparr>lastReciprocal := AList.update rkey (clk_now E) (lastReciprocal m)\<rparr>\<rparr>)
                from (mp_Topic p) (mp_RangeStart p) (mp_RangeEnd p)
         else e)"

definition HandleProbe :: "env \<Rightarrow> engine \<Rightarrow> NodeID \<Rightarrow> MerkleProbe \<Rightarrow> engine" where
  "HandleProbe E e from p =
     (if bytesEqual (topicMerkleRoot (cr E) (store e) (mp_Topic p) (mp_RangeStart p) (mp_RangeEnd p))
           (mp_RootHash p)
      then e
      else
        let e1 = reciprocate E e from p;
            (recs, truncated) =
              rangeReply (store e1) (maxRangeSize (merkle e1)) (mp_Topic p) (mp_RangeStart p) (mp_RangeEnd p)
        in sendRange E e1 from (mp_Topic p) recs truncated)"

subsection \<open>The receiver\<close>

definition applyRangeRecord :: "env \<Rightarrow> engine \<Rightarrow> pbRecord \<Rightarrow> engine" where
  "applyRangeRecord E e pr =
     (let rec = recordFromProto pr
      in if \<not> verifyInbound E rec then e
         else
           let (e1, ok) = admitInbound E e rec
           in if \<not> ok then e1
              else
                let e2 = observeHLC E e1 (HLC rec);
                    (e3, applied, _, _) = applyStore E e2 rec
                in if applied then notifyApplied e3 rec else e3)"

definition nextStart :: "pbRecord list \<Rightarrow> bytes" where
  "nextStart rs = pb_NodeId (last rs) @ [1]"

definition HandleRange :: "env \<Rightarrow> engine \<Rightarrow> NodeID \<Rightarrow> MerkleRange \<Rightarrow> engine" where
  "HandleRange E e from r =
     (let e1 = foldl (applyRangeRecord E) e (mr_Records r)
      in if mr_Truncated r \<and> length (mr_Records r) > 0
         then sendProbe E e1 from (mr_Topic r) (Some (nextStart (mr_Records r))) None
         else e1)"

declare advanceSplit.simps [simp del]

end
