(* ===== verification/Crdt_Advance.thy ===== *)
theory Crdt_Advance
  imports Crdt_Quorum
begin

text \<open>
  Deliveries carry a store forward: no slot is lost or goes back, no cap gets more room. So what has
  reached a store stays reached, which is what the repair and delivery properties build on.
\<close>

subsection \<open>Stores only advance\<close>

definition advanced :: "recordStore \<Rightarrow> recordStore \<Rightarrow> bool" where
  "advanced s s' \<longleftrightarrow> storeConfig s' = storeConfig s \<and> length (byTopic s) \<le> length (byTopic s') \<and>
     (\<forall>t k c. slotMap s t k = Some c \<longrightarrow> (\<exists>c'. slotMap s' t k = Some c' \<and> (c' = c \<or> newer c' c)))"

lemma advanced_refl [simp]: "advanced s s"
  by (auto simp: advanced_def)

lemma advancedD:
  "advanced s s' \<Longrightarrow> slotMap s t k = Some c \<Longrightarrow> \<exists>c'. slotMap s' t k = Some c' \<and> (c' = c \<or> newer c' c)"
  by (simp add: advanced_def)

lemma advanced_trans:
  assumes "advanced s s1" and "advanced s1 s2"
  shows "advanced s s2"
proof -
  have "\<exists>c'. slotMap s2 t k = Some c' \<and> (c' = c \<or> newer c' c)" if "slotMap s t k = Some c" for t k c
  proof -
    from advancedD [OF assms(1) that] obtain c1 where c1: "slotMap s1 t k = Some c1" "c1 = c \<or> newer c1 c" by blast
    from advancedD [OF assms(2) c1(1)] obtain c2 where "slotMap s2 t k = Some c2" "c2 = c1 \<or> newer c2 c1" by blast
    with c1(2) record_lww.nw_trans [of c2 c1 c] show ?thesis by auto
  qed
  with assms show ?thesis by (simp add: advanced_def)
qed

lemma ApplyExt_keeps_topics: "length (byTopic s) \<le> length (byTopic (fst (ApplyExt s nw r)))"
proof -
  have "length (byTopic s1) \<le> length (byTopic (fst (synthesise s1 ts r w)))" for s1 ts w
    by (simp add: synthesise_def Let_def case_prod_beta length_update_ge)
  then have att: "length (byTopic s1) \<le> length (byTopic (fst (applyAttestationLocked s1 ts nw r)))" for s1 ts
    by (simp add: applyAttestationLocked_def Let_def length_update_ge bumpRejected_def)
  have own: "length (byTopic s1) \<le> length (byTopic (fst (applyOwner s1 ts nw r)))" for s1 ts
    by (auto simp: applyOwner_def Let_def length_update_ge bumpRejected_def split: option.split)
  have "length (byTopic s) \<le> length (byTopic (putTopic s (Topic r) newTopicStore))" by (simp add: length_update_ge)
  from att own le_trans [OF this att] le_trans [OF this own] show ?thesis
    by (simp add: ApplyExt_def Let_def bumpRejected_def split: option.split)
qed

lemma ApplyExt_advanced: "wf_store s \<Longrightarrow> advanced s (fst (ApplyExt s nw r))"
  unfolding advanced_def using slot_kept ApplyExt_config ApplyExt_keeps_topics by blast

lemma applyAll_advanced: "wf_store s \<Longrightarrow> advanced s (applyAll s ds)"
proof (induction ds arbitrary: s)
  case (Cons d ds)
  have "wf_store (fst (ApplyExt s (fst d) (snd d)))" using Cons.prems by (rule ApplyExt_wf)
  from advanced_trans [OF ApplyExt_advanced [OF Cons.prems] Cons.IH [OF this]] show ?case
    by (cases d) simp
qed simp

subsection \<open>A record that has arrived\<close>

text \<open>The slot of the record holds it, or one it does not supersede, or a cap of the store is reached.\<close>

definition hasRecord :: "Record \<Rightarrow> recordStore \<Rightarrow> bool" where
  "hasRecord r s \<longleftrightarrow> (\<exists>c. slotMap s (Topic r) (keyOf r) = Some c \<and> (c = r \<or> \<not> newer r c))"

definition arrived :: "Record \<Rightarrow> recordStore \<Rightarrow> bool" where
  "arrived r s \<longleftrightarrow> wf_store s \<and> (hasRecord r s \<or> \<not> fits s 1)"

lemma fits_back:
  assumes "advanced s s'" and "wf_store s" and "wf_store s'" and "fits s' n"
  shows "fits s n"
proof -
  have cfg: "maxTopics s' = maxTopics s" "maxRecordsPerTopic s' = maxRecordsPerTopic s" "maxKeysPerNode s' = maxKeysPerNode s"
    using storeConfigD [of s' s] assms(1) by (simp_all add: advanced_def)
  have sub: "dom (slotMap s t) \<subseteq> dom (slotMap s' t)" for t
    using advancedD [OF assms(1), of t] by (auto simp: dom_def)
  have fin: "finite (dom (slotMap s' t))" for t by (simp add: slotMap_def finite_dom_map_of split: option.split)
  have count: "TopicCount s t \<le> TopicCount s' t" "heldBy s t i \<le> heldBy s' t i" for t i
    unfolding TopicCount_slotMap [OF assms(2)] TopicCount_slotMap [OF assms(3)] heldBy_slotMap [OF assms(2)] heldBy_slotMap [OF assms(3)]
    using sub [of t] fin [of t] by (auto intro!: card_mono)
  have len: "length (byTopic s) \<le> length (byTopic s')" using assms(1) by (simp add: advanced_def)
  have f: "int (length (byTopic s')) + int n \<le> maxTopics s" "int (TopicCount s' t) + int n \<le> maxRecordsPerTopic s"
    "int (heldBy s' t i) + int n \<le> maxKeysPerNode s" for t i
    using assms(4) unfolding fits_def cfg by blast+
  show ?thesis unfolding fits_def
  proof (intro conjI allI)
    show "int (length (byTopic s)) + int n \<le> maxTopics s" using len f(1) by linarith
    show "int (TopicCount s t) + int n \<le> maxRecordsPerTopic s" for t using count(1) [of t] f(2) [of t] by linarith
    show "int (heldBy s t i) + int n \<le> maxKeysPerNode s" for t i using count(2) [of t i] f(3) [of t i] by linarith
  qed
qed

lemma arrived_advanced:
  assumes "advanced s s'" and "arrived r s" and "wf_store s'"
  shows "arrived r s'"
proof (cases "hasRecord r s")
  case True
  then obtain c where c: "slotMap s (Topic r) (keyOf r) = Some c" "c = r \<or> \<not> newer r c" by (auto simp: hasRecord_def)
  from advancedD [OF assms(1) c(1)] obtain c' where c': "slotMap s' (Topic r) (keyOf r) = Some c'" "c' = c \<or> newer c' c" by blast
  have "c' = r \<or> \<not> newer r c'"
    using c(2) c'(2) record_lww.nw_asym [of c' r] record_lww.nw_trans [of r c' c] by auto
  with c'(1) assms(3) show ?thesis by (auto simp: arrived_def hasRecord_def)
next
  case False
  with assms fits_back [OF assms(1)] show ?thesis by (auto simp: arrived_def)
qed

lemma apply_arrives:
  assumes "wf_store s" and "\<not> IsObserverAttestation r"
  shows "arrived r (fst (ApplyExt s nw r))"
proof (cases "fits s (Suc 0)")
  case True
  have "storeMap (fst (ApplyExt s nw r)) (fullSlot r) = lww_apply newer fullSlot r (storeMap s) (fullSlot r)"
    using ApplyExt_refines [OF assms True] by simp
  then have "hasRecord r (fst (ApplyExt s nw r))"
    by (auto simp: hasRecord_def lww_apply_def storeMap_fullSlot split: option.splits)
  then show ?thesis using ApplyExt_wf [OF assms(1)] by (simp add: arrived_def)
next
  case False
  then have "arrived r s" using assms(1) by (simp add: arrived_def)
  from arrived_advanced [OF ApplyExt_advanced [OF assms(1)] this ApplyExt_wf [OF assms(1)]] show ?thesis .
qed

end
