(* ===== verification/Merkle_Sync.thy ===== *)
theory Merkle_Sync
  imports Merkle Crdt_Advance
begin

text \<open>
  What anti-entropy guarantees: equal roots mean equal signed records up to a hash collision, the
  paged replies to a chain of probes end and together carry exactly the responder's signed
  records, and a range reaches the store only through verification and admission. With NodeIDs
  of different lengths the cursor can skip records; that run is proved too.
\<close>

subsection \<open>Byte helpers\<close>

lemma bytesLess_iff: "bytesLess a b \<longleftrightarrow> a < b"
  by (induction a b rule: bytesLess.induct) auto

lemma bytesEqual_iff: "bytesEqual a b \<longleftrightarrow> a = b"
  by (induction a b rule: bytesEqual.induct) auto

lemma less_append_same_length:
  "length a = length b \<Longrightarrow> a < b \<Longrightarrow> a @ x < (b :: bytes)"
  by (induction a b rule: list_induct2) auto

lemma less_snoc: "a < a @ [x :: byte]"
  by (induction a) auto

lemma inRange_iff:
  "inRange a b n \<longleftrightarrow> (\<forall>s. a = Some s \<longrightarrow> s \<le> n) \<and> (\<forall>t. b = Some t \<longrightarrow> n \<le> t)"
  by (auto simp: inRange_def bytesLess_iff not_less split: option.splits)

subsection \<open>Roots\<close>

text \<open>The byte strings hashed to compute a root, and a collision among given strings.\<close>

definition rootInputs :: "crypto \<Rightarrow> Record list \<Rightarrow> bytes list" where
  "rootInputs C rs = concat (map (leafBytes C) rs) # map NodeID rs @ map Sig rs"

definition sha_collision :: "crypto \<Rightarrow> bytes list \<Rightarrow> bool" where
  "sha_collision C xs \<longleftrightarrow> (\<exists>x\<in>set xs. \<exists>y\<in>set xs. x \<noteq> y \<and> Sum256 C x = Sum256 C y)"

lemma concat_blocks_inject:
  assumes "\<forall>x\<in>set xs. length x = n" and "\<forall>y\<in>set ys. length y = n" and "0 < n"
    and "concat xs = concat ys"
  shows "xs = ys"
  using assms
proof (induction xs arbitrary: ys)
  case Nil
  then show ?case by (cases ys) auto
next
  case (Cons x xs)
  from Cons.prems obtain y ys' where ys: "ys = y # ys'" by (cases ys) auto
  have "length x = length y" using Cons.prems(1,2) ys by simp
  then have "x = y \<and> concat xs = concat ys'" using Cons.prems(4) ys by simp
  moreover from this have "xs = ys'" using Cons.prems(1-3) ys by (intro Cons.IH) simp_all
  ultimately show ?case using ys by simp
qed

lemma leafBytes_inject:
  assumes "\<not> sha_collision C xs" and "\<And>x. length (Sum256 C x) = 32" and "leafBytes C r = leafBytes C r'"
    and "{NodeID r, NodeID r', Sig r, Sig r'} \<subseteq> set xs"
  shows "(NodeID r, HLC r, Sig r) = (NodeID r', HLC r', Sig r')"
proof -
  have "Sum256 C (NodeID r) = Sum256 C (NodeID r') \<and>
      be 8 (unat (HLC r)) @ Sum256 C (Sig r) = be 8 (unat (HLC r')) @ Sum256 C (Sig r')"
    using assms(3) unfolding leafBytes_def by (subst (asm) append_eq_same_length) (simp_all add: assms(2))
  then have "Sum256 C (NodeID r) = Sum256 C (NodeID r')" "be 8 (unat (HLC r)) = be 8 (unat (HLC r'))"
    "Sum256 C (Sig r) = Sum256 C (Sig r')" by simp_all
  then show ?thesis using assms(1,4) by (auto simp: sha_collision_def be_unat_inject)
qed

text \<open>C17: Roots detect drift: for a hash with 32-byte values, two stores have the same root over a
  NodeID range if and only if their signed records in that range carry the same sequence of
  NodeIDs, clocks and signatures, or else two of the finitely many byte strings hashed for the two
  roots collide; and stores with the same slots
  have the same root whatever order their maps iterate in.\<close>

theorem merkle_root_detects_drift:
  assumes "\<And>x. length (Sum256 C x) = 32" and "wf_store s" and "wf_store s'"
  shows "(topicMerkleRoot C s t a b = topicMerkleRoot C s' t a b \<longrightarrow>
      map (\<lambda>r. (NodeID r, HLC r, Sig r)) (rangeRecords s t a b) =
        map (\<lambda>r. (NodeID r, HLC r, Sig r)) (rangeRecords s' t a b) \<or>
      sha_collision C (rootInputs C (rangeRecords s t a b) @ rootInputs C (rangeRecords s' t a b))) \<and>
    (map (\<lambda>r. (NodeID r, HLC r, Sig r)) (rangeRecords s t a b) =
        map (\<lambda>r. (NodeID r, HLC r, Sig r)) (rangeRecords s' t a b) \<longrightarrow>
      topicMerkleRoot C s t a b = topicMerkleRoot C s' t a b) \<and>
    (storeMap s = storeMap s' \<longrightarrow> topicMerkleRoot C s t a b = topicMerkleRoot C s' t a b)"
proof (intro conjI impI)
  let ?f = "\<lambda>r. (NodeID r, HLC r, Sig r)" and ?x = "rangeRecords s t a b" and ?y = "rangeRecords s' t a b"
  let ?in = "rootInputs C ?x @ rootInputs C ?y"
  show "map ?f ?x = map ?f ?y \<or> sha_collision C ?in"
    if "topicMerkleRoot C s t a b = topicMerkleRoot C s' t a b"
  proof (cases "sha_collision C ?in")
    case False
    have "concat (map (leafBytes C) ?x) \<in> set ?in" "concat (map (leafBytes C) ?y) \<in> set ?in"
      unfolding rootInputs_def by (simp_all only: set_append list.set insertI1 UnI1 UnI2)
    with False that have "concat (map (leafBytes C) ?x) = concat (map (leafBytes C) ?y)"
      unfolding topicMerkleRoot_def sha_collision_def by blast
    then have leaves: "map (leafBytes C) ?x = map (leafBytes C) ?y"
      by (rule concat_blocks_inject [rotated 3, where n = 72])
        (auto simp: leafBytes_def assms(1))
    then have "length ?x = length ?y" by (metis length_map)
    moreover have "?f (?x ! i) = ?f (?y ! i)" if "i < length ?x" for i
    proof (rule leafBytes_inject [OF False assms(1)])
      show "leafBytes C (?x ! i) = leafBytes C (?y ! i)" using leaves that calculation by (metis nth_map)
      have "?x ! i \<in> set ?x" "?y ! i \<in> set ?y" using that calculation by simp_all
      then show "{NodeID (?x ! i), NodeID (?y ! i), Sig (?x ! i), Sig (?y ! i)} \<subseteq> set ?in"
        by (simp add: rootInputs_def)
    qed
    ultimately have "map ?f ?x = map ?f ?y" by (simp add: list_eq_iff_nth_eq)
    then show ?thesis ..
  qed simp
  show "topicMerkleRoot C s t a b = topicMerkleRoot C s' t a b" if "map ?f ?x = map ?f ?y"
  proof -
    have "map (leafBytes C) rs = map (\<lambda>(n, h, g). Sum256 C n @ be 8 (unat h) @ Sum256 C g) (map ?f rs)" for rs
      by (simp add: leafBytes_def)
    then show ?thesis using that by (simp only: topicMerkleRoot_def)
  qed
  show "topicMerkleRoot C s t a b = topicMerkleRoot C s' t a b" if "storeMap s = storeMap s'"
  proof -
    have "slotMap s t = slotMap s' t" using that by (auto simp: storeMap_def fun_eq_iff)
    from topicRecordsWhere_slotMap [OF assms(2,3) this] show ?thesis
      by (simp add: topicMerkleRoot_def rangeRecords_def topicRecordsSigned_def)
  qed
qed

subsection \<open>The split lands on a NodeID boundary\<close>

lemma advanceSplit_spec:
  assumes "1 \<le> half" and "half \<le> length recs"
  shows "half \<le> advanceSplit recs half \<and> advanceSplit recs half \<le> length recs \<and>
    (advanceSplit recs half < length recs \<longrightarrow>
       NodeID (recs ! advanceSplit recs half) \<noteq> NodeID (recs ! (advanceSplit recs half - 1)))"
  using assms
proof (induction recs half rule: advanceSplit.induct)
  case (1 recs half)
  show ?case
  proof (cases "half < length recs \<and> NodeID (recs ! half) = NodeID (recs ! (half - 1))")
    case True
    have "advanceSplit recs half = advanceSplit recs (half + 1)"
      unfolding advanceSplit.simps [of recs half] using True by (rule if_P)
    moreover have "1 \<le> half + 1" "half + 1 \<le> length recs" using True by simp_all
    note 1(1) [OF True this]
    ultimately show ?thesis by simp
  next
    case False
    have "advanceSplit recs half = half" unfolding advanceSplit.simps [of recs half] using False by (rule if_not_P)
    with False 1(3) show ?thesis by auto
  qed
qed

lemma rangeRecords_sorted:
  assumes "wf_store s"
  shows "sorted_wrt (\<lambda>a b. NodeID a \<le> NodeID b) (rangeRecords s t a b)"
proof -
  have "sorted_wrt (\<lambda>a b. lessRecordKey (keyOf a) (keyOf b)) (rangeRecords s t a b)"
    using topicRecordsWhere_exact(1) [OF assms]
    by (simp add: rangeRecords_def topicRecordsSigned_def sorted_wrt_filter)
  then show ?thesis
    by (rule sorted_wrt_mono_rel [rotated]) (auto simp: lessRecordKey_def keyOf_def split: if_splits)
qed

text \<open>A truncated reply is a nonempty proper prefix whose remainder has strictly larger NodeIDs.\<close>

lemma last_take_nth: "1 \<le> h \<Longrightarrow> h \<le> length xs \<Longrightarrow> last (take h xs) = xs ! (h - 1)"
  by (subst last_conv_nth) (auto simp: min_def)

lemma rangeReply_truncated:
  assumes "wf_store s" and "rangeReply s m t a b = (reply, True)"
  obtains h where "1 \<le> h" "h < length (rangeRecords s t a b)" "reply = take h (rangeRecords s t a b)"
    "\<forall>r\<in>set (take h (rangeRecords s t a b)). NodeID r \<le> NodeID (last reply)"
    "\<forall>r\<in>set (drop h (rangeRecords s t a b)). NodeID (last reply) < NodeID r"
proof -
  let ?recs = "rangeRecords s t a b"
  let ?mid = "if length ?recs div 2 < 1 then 1 else length ?recs div 2"
  define h where "h = advanceSplit ?recs ?mid"
  have h: "h < length ?recs" and reply: "reply = take h ?recs"
    using assms(2) by (auto simp: rangeReply_def Let_def h_def split: if_splits)
  have "1 \<le> length ?recs" using h by simp
  then have "1 \<le> ?mid" "?mid \<le> length ?recs" by auto
  note spec = advanceSplit_spec [OF this, folded h_def]
  have h1: "1 \<le> h" using spec \<open>1 \<le> ?mid\<close> by linarith
  have last: "last reply = ?recs ! (h - 1)"
    using h h1 by (simp add: reply last_take_nth)
  note srt = rangeRecords_sorted [OF assms(1), of t a b]
  have le: "NodeID (?recs ! i) \<le> NodeID (?recs ! j)" if "i \<le> j" "j < length ?recs" for i j
    using that sorted_wrt_nth_less [OF srt, of i j] by (cases "i = j") auto
  have boundary: "NodeID (?recs ! (h - 1)) < NodeID (?recs ! h)"
    using le [of "h - 1" h] h h1 spec by (metis diff_le_self order.not_eq_order_implies_strict)
  show ?thesis
  proof (rule that [OF h1 h reply])
    show "\<forall>r\<in>set (take h ?recs). NodeID r \<le> NodeID (last reply)"
    proof
      fix r assume "r \<in> set (take h ?recs)"
      then obtain i where "i < h" "r = ?recs ! i" using h by (auto simp: in_set_conv_nth)
      then show "NodeID r \<le> NodeID (last reply)" unfolding last using h le [of i "h - 1"] by simp
    qed
    show "\<forall>r\<in>set (drop h ?recs). NodeID (last reply) < NodeID r"
    proof
      fix r assume "r \<in> set (drop h ?recs)"
      then obtain j where "j < length ?recs - h" "r = ?recs ! (h + j)" by (auto simp: in_set_conv_nth)
      then obtain i where "h \<le> i" "i < length ?recs" "r = ?recs ! i" by (intro that [of "h + j"]) simp_all
      then have "NodeID (?recs ! h) \<le> NodeID r" using le [of h i] by simp
      with boundary show "NodeID (last reply) < NodeID r" unfolding last by (rule less_le_trans)
    qed
  qed
qed

text \<open>The range behind the cursor lies inside the current one and past everything sent.\<close>

lemma rangeRecords_next:
  assumes "wf_store s" and "rangeReply s m t a None = (reply, True)"
    and "c = NodeID (last reply) @ [1]"
  shows "rangeRecords s t (Some c) None =
    filter (\<lambda>r. c \<le> NodeID r) (drop (length reply) (rangeRecords s t a None))"
proof -
  let ?recs = "rangeRecords s t a None"
  obtain h where h: "1 \<le> h" "h < length ?recs" "reply = take h ?recs"
    "\<forall>r\<in>set (take h ?recs). NodeID r \<le> NodeID (last reply)"
    "\<forall>r\<in>set (drop h ?recs). NodeID (last reply) < NodeID r"
    using rangeReply_truncated [OF assms(1,2)] by blast
  have "last reply \<in> set reply" using h(1-3) by (intro last_in_set) auto
  then have "last reply \<in> set ?recs" using h(3) by (metis in_set_takeD)
  then have start: "inRange a None (NodeID (last reply))" by (simp add: rangeRecords_def)
  have c: "NodeID (last reply) < c" using assms(3) less_snoc by simp
  have sub: "inRange a None n" if "c \<le> n" for n
    using start c that by (force simp: inRange_iff)
  have "rangeRecords s t (Some c) None = filter (\<lambda>r. c \<le> NodeID r) (topicRecordsSigned s t)"
    by (simp add: rangeRecords_def inRange_iff)
  also have "\<dots> = filter (\<lambda>r. c \<le> NodeID r) ?recs"
    unfolding rangeRecords_def filter_filter using sub by (intro filter_cong) auto
  also have "\<dots> = filter (\<lambda>r. c \<le> NodeID r) (take h ?recs) @ filter (\<lambda>r. c \<le> NodeID r) (drop h ?recs)"
    by (metis append_take_drop_id filter_append)
  also have "filter (\<lambda>r. c \<le> NodeID r) (take h ?recs) = []"
    using h(4) c by (auto simp: filter_empty_conv not_le intro: le_less_trans)
  finally show ?thesis using h(2,3) by simp
qed

subsection \<open>A chain of probes and replies\<close>

lemma rangeReply_last:
  assumes "rangeReply s m t a b = (reply, True)"
  shows "reply \<noteq> []" and "last reply \<in> set (rangeRecords s t a b)"
proof -
  let ?recs = "rangeRecords s t a b"
  let ?mid = "if length ?recs div 2 < 1 then 1 else length ?recs div 2"
  define h where "h = advanceSplit ?recs ?mid"
  have h: "h < length ?recs" and reply: "reply = take h ?recs"
    using assms by (auto simp: rangeReply_def Let_def h_def split: if_splits)
  have "1 \<le> ?mid" "?mid \<le> length ?recs" using h by auto
  note advanceSplit_spec [OF this, folded h_def]
  then have "1 \<le> h" using \<open>1 \<le> ?mid\<close> by linarith
  then show "reply \<noteq> []" using h reply by auto
  then have "last reply \<in> set reply" by simp
  then show "last reply \<in> set ?recs" unfolding reply by (rule in_set_takeD)
qed

lemma cursor_progress:
  assumes "rangeReply s m t a None = (reply, True)"
  shows "length (rangeRecords s t (Some (NodeID (last reply) @ [1])) None) < length (rangeRecords s t a None)"
proof -
  let ?c = "NodeID (last reply) @ [1]"
  have mem: "last reply \<in> set (rangeRecords s t a None)" using assms by (rule rangeReply_last)
  then have start: "inRange a None (NodeID (last reply))" by (simp add: rangeRecords_def)
  have c: "NodeID (last reply) < ?c" by (rule less_snoc)
  have sub: "inRange a None n" if "?c \<le> n" for n
    using start c that by (force simp: inRange_iff)
  have "rangeRecords s t (Some ?c) None = filter (\<lambda>r. ?c \<le> NodeID r) (rangeRecords s t a None)"
    unfolding rangeRecords_def filter_filter using sub by (intro filter_cong) (auto simp: inRange_iff)
  moreover have "length (filter (\<lambda>r. ?c \<le> NodeID r) (rangeRecords s t a None)) < length (rangeRecords s t a None)"
    using mem c by (intro length_filter_less [of "last reply"]) auto
  ultimately show ?thesis by simp
qed

text \<open>
  What a prober receives from a responder whose store does not change: the reply to the probe at
  a cursor and, while replies are truncated, the replies at the cursors \<open>HandleRange\<close> computes.
\<close>

function pull :: "recordStore \<Rightarrow> int \<Rightarrow> Topic \<Rightarrow> bytes option \<Rightarrow> Record list" where
  "pull s m t a =
     (let (reply, truncated) = rangeReply s m t a None
      in if truncated \<and> reply \<noteq> []
         then reply @ pull s m t (Some (nextStart (map recordToProto reply)))
         else reply)"
  by auto
termination
  by (relation "measure (\<lambda>(s, m, t, a). length (rangeRecords s t a None))")
    (auto simp: nextStart_def last_map recordToProto_def intro: cursor_progress)

declare pull.simps [simp del]

lemma nextStart_reply: "reply \<noteq> [] \<Longrightarrow> nextStart (map recordToProto reply) = NodeID (last reply) @ [1]"
  by (simp add: nextStart_def last_map recordToProto_def)

lemma pull_range:
  assumes "wf_store s" and "\<forall>r\<in>set (topicRecordsSigned s t). length (NodeID r) = n"
  shows "pull s m t a = rangeRecords s t a None @
    (if a = None \<and> int (length (rangeRecords s t a None)) \<le> m
     then (let atts = topicAttestations s t in if int (length atts) > m then take (nat m) atts else atts)
     else [])"
proof (induction "length (rangeRecords s t a None)" arbitrary: a rule: less_induct)
  case less
  let ?recs = "rangeRecords s t a None"
  obtain reply truncated where r: "rangeReply s m t a None = (reply, truncated)" by (cases "rangeReply s m t a None")
  show ?case
  proof (cases truncated)
    case False
    with r show ?thesis
      by (subst pull.simps) (auto simp: rangeReply_def Let_def split: if_splits)
  next
    case True
    with r have r: "rangeReply s m t a None = (reply, True)" by simp
    let ?c = "NodeID (last reply) @ [1]"
    obtain h where h: "1 \<le> h" "h < length ?recs" "reply = take h ?recs"
      "\<forall>r\<in>set (drop h ?recs). NodeID (last reply) < NodeID r"
      by (rule rangeReply_truncated [OF assms(1) r])
    have large: "\<not> int (length ?recs) \<le> m" using r by (auto simp: rangeReply_def Let_def split: if_splits)
    have len: "length (NodeID r) = n" if "r \<in> set ?recs" for r
      using assms(2) that by (simp add: rangeRecords_def)
    have "?c \<le> NodeID r" if "r \<in> set (drop h ?recs)" for r
    proof -
      have "length (NodeID (last reply)) = length (NodeID r)"
        using len [OF rangeReply_last(2) [OF r]] len [OF in_set_dropD [OF that]] by simp
      with h(4) that show ?thesis by (simp add: less_append_same_length less_imp_le)
    qed
    then have rest: "rangeRecords s t (Some ?c) None = drop h ?recs"
      unfolding rangeRecords_next [OF assms(1) r refl] using h(2,3) by (simp add: filter_id_conv)
    have "pull s m t (Some ?c) = drop h ?recs"
      using less [OF cursor_progress [OF r]] rest by simp
    then show ?thesis
      using r rangeReply_last(1) [OF r] large h(3)
      by (subst pull.simps) (simp add: nextStart_reply)
  qed
qed

subsection \<open>Ranges reach the store through the gate\<close>

lemma admitInbound_props:
  "store (fst (admitInbound E e r)) = store e"
  "map_option gateConfig (gate (fst (admitInbound E e r))) = map_option gateConfig (gate e)"
  "verifyInbound E r \<Longrightarrow> snd (admitInbound E e r) = acceptable E (gate e) r"
  by (simp_all add: admitInbound_def acceptable_def case_prod_beta gateConfig_Admit split: option.split)

lemma applyRangeRecord_props:
  "store (applyRangeRecord E e pr) =
     (if acceptable E (gate e) (recordFromProto pr)
      then fst (ApplyExt (store e) (nowMs E) (recordFromProto pr)) else store e)"
  "map_option gateConfig (gate (applyRangeRecord E e pr)) = map_option gateConfig (gate e)"
  using admitInbound_props [where E = E and e = e and r = "recordFromProto pr"]
  by (auto simp: applyRangeRecord_def Let_def case_prod_beta observeHLC_def applyStore_def
      notifyApplied_def acceptable_def)

lemma foldl_applyRangeRecord:
  "store (foldl (applyRangeRecord E) e prs) =
     applyAll (store e) (map (Pair (nowMs E)) (filter (acceptable E (gate e)) (map recordFromProto prs))) \<and>
   map_option gateConfig (gate (foldl (applyRangeRecord E) e prs)) = map_option gateConfig (gate e)"
proof (induction prs arbitrary: e)
  case Nil
  then show ?case by simp
next
  case (Cons pr prs)
  have "acceptable E (gate (applyRangeRecord E e pr)) = acceptable E (gate e)"
    using acceptable_config [OF applyRangeRecord_props(2)] by blast
  with Cons [of "applyRangeRecord E e pr"] show ?case
    by (simp add: applyRangeRecord_props)
qed

lemma sendProbe_fields [simp]:
  "store (sendProbe E e to t a b) = store e" "gate (sendProbe E e to t a b) = gate e"
  "peers (sendProbe E e to t a b) = peers e" "missingIHaves (sendProbe E e to t a b) = missingIHaves e"
  "treeDeg (sendProbe E e to t a b) = treeDeg e" "maxIHaves (sendProbe E e to t a b) = maxIHaves e"
  "calls (sendProbe E e to t a b) = calls e" "hlc (sendProbe E e to t a b) = hlc e"
  by (simp_all add: sendProbe_def)

lemma HandleRange_props:
  "store (HandleRange E e peer p) =
     applyAll (store e) (map (Pair (nowMs E)) (filter (acceptable E (gate e)) (map recordFromProto (mr_Records p))))"
  "map_option gateConfig (gate (HandleRange E e peer p)) = map_option gateConfig (gate e)"
  using foldl_applyRangeRecord [of E e "mr_Records p"]
  by (simp_all add: HandleRange_def Let_def)

text \<open>The prober handles the pages of a reply chain one after the other.\<close>

definition handlePages :: "engine \<Rightarrow> NodeID \<Rightarrow> (env \<times> MerkleRange) list \<Rightarrow> engine" where
  "handlePages e peer ps = foldl (\<lambda>e (E, p). HandleRange E e peer p) e ps"

text \<open>The records of the pages with the environment each is handled in.\<close>

definition pageRecords :: "(env \<times> MerkleRange) list \<Rightarrow> (env \<times> Record) list" where
  "pageRecords ps = concat (map (\<lambda>(E, p). map (\<lambda>pr. (E, recordFromProto pr)) (mr_Records p)) ps)"

lemma pageRecords_snd: "map snd (pageRecords ps) = map recordFromProto (concat (map (mr_Records \<circ> snd) ps))"
  by (simp add: pageRecords_def map_concat comp_def case_prod_beta)

lemma handlePages_store:
  "store (handlePages e peer ps) = applyAll (store e)
     (map (\<lambda>(E, r). (nowMs E, r)) (filter (\<lambda>(E, r). acceptable E (gate e) r) (pageRecords ps)))"
proof (induction ps arbitrary: e)
  case Nil
  show ?case by (simp add: handlePages_def pageRecords_def)
next
  case (Cons x ps)
  obtain E p where x: "x = (E, p)" by (cases x)
  have acc: "acceptable E' (gate (HandleRange E e peer p)) = acceptable E' (gate e)" for E'
    using acceptable_config [OF HandleRange_props(2)] by blast
  have page: "map (\<lambda>(E, r). (nowMs E, r)) (filter (\<lambda>(E, r). acceptable E (gate e) r) (map (\<lambda>pr. (E, recordFromProto pr)) prs))
      = map (Pair (nowMs E)) (filter (acceptable E (gate e)) (map recordFromProto prs))" for prs
    by (induction prs) simp_all
  show ?case
    using Cons [of "HandleRange E e peer p"] page [of "mr_Records p"] unfolding acc
    by (simp add: x handlePages_def pageRecords_def HandleRange_props(1) applyAll_def)
qed

lemma topicRecordsSigned_props:
  assumes "wf_store s" and "r \<in> set (topicRecordsSigned s t)"
  shows "\<not> IsObserverAttestation r" and "Topic r = t"
proof -
  have "slotMap s t (keyOf r) = Some r"
    using assms topicRecordsWhere_exact(2) [OF assms(1)] by (auto simp: topicRecordsSigned_def)
  then obtain ts where ts: "map_of (byTopic s) t = Some ts" "map_of (records ts) (keyOf r) = Some r"
    by (auto simp: slotMap_def split: option.splits)
  then have "wf_records t (records ts)" using wf_storeD [OF assms(1)] by (auto simp: wf_topic_def)
  from wf_recordsD [OF this ts(2)] show "\<not> IsObserverAttestation r" "Topic r = t" by simp_all
qed

text \<open>Delivering a set of writes leaves every written slot at least as new as the write.\<close>

lemma fold_lww_covers:
  assumes "r \<in> set rs"
  shows "\<exists>c. fold (lww_apply newer fullSlot) rs m (fullSlot r) = Some c \<and> \<not> newer r c"
proof -
  have keeps: "\<exists>c'. fold (lww_apply newer fullSlot) rs m x = Some c' \<and> (c' = c \<or> newer c' c)"
    if "m x = Some c" for rs m x c
    using that
  proof (induction rs arbitrary: m c)
    case Nil
    then show ?case by simp
  next
    case (Cons a rs)
    from record_lww.apply_monotone [of m x c fullSlot a] Cons.prems
    obtain d where d: "lww_apply newer fullSlot a m x = Some d" "d = c \<or> newer d c" by blast
    from Cons.IH [where m = "lww_apply newer fullSlot a m" and c = d, OF d(1)] obtain c' where "fold (lww_apply newer fullSlot) rs (lww_apply newer fullSlot a m) x = Some c'"
      "c' = d \<or> newer c' d" by blast
    with d(2) record_lww.nw_trans [of c' d c] show ?case by auto
  qed
  from assms obtain us vs where rs: "rs = us @ r # vs" by (auto simp: in_set_conv_decomp)
  let ?m = "fold (lww_apply newer fullSlot) us m"
  have "\<exists>d. lww_apply newer fullSlot r ?m (fullSlot r) = Some d \<and> \<not> newer r d"
    using record_lww.nw_irrefl by (auto simp: lww_apply_def split: option.split)
  then obtain d where d: "lww_apply newer fullSlot r ?m (fullSlot r) = Some d" "\<not> newer r d" by blast
  from keeps [where rs = vs and m = "lww_apply newer fullSlot r ?m", OF d(1)] obtain c
    where c: "fold (lww_apply newer fullSlot) vs (lww_apply newer fullSlot r ?m) (fullSlot r) = Some c"
      "c = d \<or> newer c d" by blast
  have "\<not> newer r c" using c(2) d(2) record_lww.nw_trans [of r c d] by blast
  with c(1) rs show ?thesis by simp
qed

lemma advanced_covers:
  assumes "advanced s s'" and "slotMap s t k = Some c" and "\<not> newer r c"
  shows "\<exists>c'. slotMap s' t k = Some c' \<and> \<not> newer r c'"
  using advancedD [OF assms(1,2)] assms(3) record_lww.nw_trans by blast

text \<open>C8: Anti-entropy repairs the prober. The responder's store does not change while it answers every
  probe of the chain, the NodeIDs of its signed records on the topic have one length, and the
  prober's gate admits those records and its caps leave room for them. Then the chain of truncated
  replies comes to an end; its pages carry exactly the signed records, followed by attestations of
  the topic at most; and after the prober has handled them each of its slots is at least as new as
  the responder's signed record for it. Without attestations the prober's slots are exactly what
  last-writer-wins delivery of the signed records gives.\<close>

theorem anti_entropy_repairs:
  assumes "wf_store (store e)" and "wf_store sR"
    and "\<forall>r\<in>set (topicRecordsSigned sR t). length (NodeID r) = n"
    and "concat (map (mr_Records \<circ> snd) ps) = map recordToProto (pull sR m t None)"
    and "\<forall>(E, r)\<in>set (pageRecords ps). r \<in> set (topicRecordsSigned sR t) \<longrightarrow> acceptable E (gate e) r"
    and "fits (store e) (length (topicRecordsSigned sR t))"
  shows "(\<exists>atts. pull sR m t None = topicRecordsSigned sR t @ atts \<and> set atts \<subseteq> set (topicAttestations sR t)) \<and>
    (\<forall>r\<in>set (topicRecordsSigned sR t).
       \<exists>c. slotMap (store (handlePages e peer ps)) t (keyOf r) = Some c \<and> \<not> newer r c) \<and>
    (topicAttestations sR t = [] \<longrightarrow> storeMap (store (handlePages e peer ps)) =
       fold (lww_apply newer fullSlot) (topicRecordsSigned sR t) (storeMap (store e)))"
proof -
  let ?signed = "topicRecordsSigned sR t" and ?acc = "\<lambda>(E, r). acceptable E (gate e) r"
  let ?ds = "map (\<lambda>(E, r). (nowMs E, r))"
  obtain atts where pull: "pull sR m t None = ?signed @ atts" and atts: "set atts \<subseteq> set (topicAttestations sR t)"
  proof (rule that)
    show "pull sR m t None = ?signed @ drop (length ?signed) (pull sR m t None)"
      "set (drop (length ?signed) (pull sR m t None)) \<subseteq> set (topicAttestations sR t)"
      using pull_range [OF assms(2,3), of m None]
      by (auto simp: rangeRecords_def inRange_iff Let_def dest: in_set_takeD)
  qed
  define xs where "xs = take (length ?signed) (pageRecords ps)"
  define ys where "ys = drop (length ?signed) (pageRecords ps)"
  have "map snd (pageRecords ps) = ?signed @ atts"
    using pageRecords_snd [of ps] assms(4) pull by (simp add: comp_def)
  then have snd: "map snd xs = ?signed" "map snd ys = atts"
    by (simp_all add: xs_def ys_def flip: take_map drop_map)
  have "filter ?acc xs = xs"
  proof (rule filter_True, rule ballI)
    fix x assume x: "x \<in> set xs"
    then have "snd x \<in> set ?signed" "x \<in> set (pageRecords ps)"
      by (simp add: image_eqI flip: snd(1)) (use x xs_def in_set_takeD in metis)
    with assms(5) show "?acc x" by (auto simp: case_prod_beta)
  qed
  then have all: "filter ?acc (pageRecords ps) = xs @ filter ?acc ys"
    by (metis append_take_drop_id filter_append xs_def ys_def)
  define s1 where "s1 = applyAll (store e) (?ds xs)"
  have final: "store (handlePages e peer ps) = applyAll s1 (?ds (filter ?acc ys))"
    unfolding handlePages_store all s1_def by (simp add: applyAll_def)
  have ds: "map snd (?ds xs) = ?signed" using snd(1) by (simp add: comp_def case_prod_beta)
  then have "\<forall>r\<in>snd ` set (?ds xs). \<not> IsObserverAttestation r"
    using topicRecordsSigned_props(1) [OF assms(2)] by (metis set_map)
  then have merged: "storeMap s1 = fold (lww_apply newer fullSlot) ?signed (storeMap (store e))"
    unfolding s1_def using applyAll_refines [OF assms(1), of "?ds xs"] assms(6) ds by (metis length_map)
  have adv: "advanced s1 (store (handlePages e peer ps))"
    unfolding final s1_def using assms(1) by (intro applyAll_advanced applyAll_wf)
  have "\<exists>c. slotMap (store (handlePages e peer ps)) t (keyOf r) = Some c \<and> \<not> newer r c"
    if "r \<in> set ?signed" for r
    using fold_lww_covers [OF that, of "storeMap (store e)"] topicRecordsSigned_props(2) [OF assms(2) that]
      advanced_covers [OF adv] unfolding merged [symmetric] by (auto simp: fullSlot_def storeMap_def)
  moreover have "storeMap (store (handlePages e peer ps)) =
      fold (lww_apply newer fullSlot) ?signed (storeMap (store e))" if "topicAttestations sR t = []"
    using that atts snd(2) merged by (simp add: final)
  ultimately show ?thesis using pull atts by blast
qed

theorem anti_entropy_repairs_witness:
  "let sR = applyAll newRecordStore [(1, sampleSigned)];
       page = \<lparr>mr_Topic = [116], mr_Records = [recordToProto sampleSigned], mr_Truncated = False\<rparr>;
       e = handlePages (sampleEngine newRecordStore) [2] [(sampleEnv, page)]
   in pull sR 64 [116] None = [sampleSigned] \<and>
      (\<exists>c. slotMap (store e) [116] (keyOf sampleSigned) = Some c \<and> \<not> newer sampleSigned c)"
proof -
  define sR where "sR = applyAll newRecordStore [(1, sampleSigned)]"
  let ?page = "\<lparr>mr_Topic = [116], mr_Records = [recordToProto sampleSigned], mr_Truncated = False\<rparr>"
  have own: "\<not> IsObserverAttestation sampleSigned" "\<not> Tombstone sampleSigned" "Topic sampleSigned = [116]"
    "length (Sig sampleSigned) = 64"
    by (simp_all add: sampleSigned_def signRecord_def Let_def zero_record_def sampleCrypto_def
        IsObserverAttestation_def)
  from own(4) have ne: "Sig sampleSigned \<noteq> []" by auto
  have topic: "map_of (byTopic sR) [116] = Some \<lparr>records = [(keyOf sampleSigned, sampleSigned)],
      attestations = [], restoredAtUnixMs = [(NodeID sampleSigned, 1)]\<rparr>"
    using own by (simp add: sR_def ApplyExt_def applyOwner_def newRecordStore_def setCaps_def Let_def
        newTopicStore_def stampRestored_def DefaultMaxKeysPerNodePerTopic_def)
  have signed: "topicRecordsSigned sR [116] = [sampleSigned]"
    using topic ne by (simp add: topicRecordsSigned_def topicRecordsWhere_def sort_slice_def)
  have atts: "topicAttestations sR [116] = []" using topic by (simp add: topicAttestations_def)
  have wf: "wf_store sR" unfolding sR_def by (rule applyAll_wf) simp
  have acc: "acceptable sampleEnv None sampleSigned"
    by (simp add: acceptable_def sampleSigned_inbound)
  have len: "\<forall>r\<in>set (topicRecordsSigned sR [116]). length (NodeID r) = length (NodeID sampleSigned)"
    by (simp only: signed) simp
  have pull: "pull sR 64 [116] None = [sampleSigned]"
    using pull_range [OF wf len, of 64 None] atts by (simp add: rangeRecords_def inRange_iff signed Let_def)
  have "\<forall>r\<in>set (topicRecordsSigned sR [116]).
      \<exists>c. slotMap (store (handlePages (sampleEngine newRecordStore) [2] [(sampleEnv, ?page)])) [116] (keyOf r)
        = Some c \<and> \<not> newer r c"
  proof (rule anti_entropy_repairs [OF _ wf len, THEN conjunct2, THEN conjunct1])
    show "wf_store (store (sampleEngine newRecordStore))" by (simp add: sampleEngine_def)
    show "concat (map (mr_Records \<circ> snd) [(sampleEnv, ?page)]) = map recordToProto (pull sR 64 [116] None)"
      unfolding pull by simp
    show "\<forall>(E, r)\<in>set (pageRecords [(sampleEnv, ?page)]). r \<in> set (topicRecordsSigned sR [116]) \<longrightarrow>
        acceptable E (gate (sampleEngine newRecordStore)) r"
      using acc by (simp add: sampleEngine_def pageRecords_def)
    show "fits (store (sampleEngine newRecordStore)) (length (topicRecordsSigned sR [116]))"
      unfolding signed by (simp add: sampleEngine_def fits_new)
  qed
  then show ?thesis using pull unfolding signed Let_def sR_def [symmetric] by simp
qed

subsection \<open>The cursor skips extensions of the last NodeID\<close>

lemma pull_subset:
  "set (pull s m t (Some a)) \<subseteq> set (rangeRecords s t (Some a) None)"
proof (induction "length (rangeRecords s t (Some a) None)" arbitrary: a rule: less_induct)
  case less
  obtain reply truncated where r: "rangeReply s m t (Some a) None = (reply, truncated)"
    by (cases "rangeReply s m t (Some a) None")
  have reply: "set reply \<subseteq> set (rangeRecords s t (Some a) None)"
    using r set_take_subset by (fastforce simp: rangeReply_def Let_def split: if_splits)
  show ?case
  proof (cases "truncated \<and> reply \<noteq> []")
    case False
    then have "pull s m t (Some a) = reply" using r by (subst pull.simps) auto
    with reply show ?thesis by simp
  next
    case True
    with r have rt: "rangeReply s m t (Some a) None = (reply, True)" by simp
    let ?c = "NodeID (last reply) @ [1]"
    have "pull s m t (Some a) = reply @ pull s m t (Some ?c)"
      using rt True by (subst pull.simps) (simp add: nextStart_reply)
    moreover have "a \<le> NodeID (last reply)"
      using rangeReply_last(2) [OF rt] by (simp add: rangeRecords_def inRange_iff)
    then have "a \<le> ?c" using less_snoc [of "NodeID (last reply)" 1] by (meson less_imp_le order.trans)
    then have "set (rangeRecords s t (Some ?c) None) \<subseteq> set (rangeRecords s t (Some a) None)"
      by (auto simp: rangeRecords_def inRange_iff)
    moreover have "set (pull s m t (Some ?c)) \<subseteq> set (rangeRecords s t (Some ?c) None)"
      by (rule less [OF cursor_progress [OF rt]])
    ultimately show ?thesis using reply by auto
  qed
qed

text \<open>C38: The fixed length is needed: if a reply is truncated after a NodeID, a record whose NodeID
  extends that one by a zero byte is in the requested range but in no reply of the whole chain,
  because the cursor resumes after the extension by a one byte.\<close>

theorem cursor_skips_extension:
  assumes "wf_store s" and "rangeReply s m t a None = (reply, True)"
    and "r \<in> set (rangeRecords s t a None)" and "NodeID r = NodeID (last reply) @ [0]"
  shows "r \<notin> set (pull s m t a)"
proof -
  let ?recs = "rangeRecords s t a None" and ?c = "NodeID (last reply) @ [1]"
  obtain h where h: "reply = take h ?recs" "\<forall>r\<in>set (take h ?recs). NodeID r \<le> NodeID (last reply)"
    by (rule rangeReply_truncated [OF assms(1,2)])
  have "NodeID (last reply) < NodeID r" using assms(4) less_snoc by simp
  then have "r \<notin> set reply" using h by (metis not_le)
  moreover have "x @ [0] < x @ [1 :: byte]" for x by (induction x) auto
  then have "NodeID r < ?c" using assms(4) by simp
  then have "r \<notin> set (pull s m t (Some ?c))"
    using pull_subset [of s m t ?c] by (auto simp: rangeRecords_def inRange_iff)
  moreover have "pull s m t a = reply @ pull s m t (Some ?c)"
    using assms(2) rangeReply_last(1) [OF assms(2)] by (subst pull.simps) (simp add: nextStart_reply)
  ultimately show ?thesis by simp
qed

text \<open>A full topic of 66 nodes, one of which is called like another with a zero byte appended.\<close>

definition gapID :: "nat \<Rightarrow> NodeID" where
  "gapID i = (if i = 33 then [33, 0] else if i < 33 then [word_of_nat (i + 1)] else [word_of_nat i])"

definition gapRecord :: "nat \<Rightarrow> Record" where
  "gapRecord i = sampleRecord (gapID i) [] 1 [9]"

definition gapStore :: recordStore where
  "gapStore = newRecordStore\<lparr>byTopic :=
     [([116], \<lparr>records = map (\<lambda>i. (keyOf (gapRecord i), gapRecord i)) [0..<66],
               attestations = [], restoredAtUnixMs = []\<rparr>)]\<rparr>"

lemma gapRecord_fields [simp]:
  "NodeID (gapRecord i) = gapID i" "Topic (gapRecord i) = [116]" "Sig (gapRecord i) = [9]"
  "keyOf (gapRecord i) = RecordKey (gapID i) []" "\<not> IsObserverAttestation (gapRecord i)"
  by (simp_all add: gapRecord_def sampleRecord_def zero_record_def keyOf_def IsObserverAttestation_def)

lemma gapID_less: "i < j \<Longrightarrow> j < 66 \<Longrightarrow> gapID i < gapID j"
  by (auto simp: gapID_def word_less_nat_alt unat_of_nat word_unat_eq_iff simp del: of_nat_add of_nat_Suc)

lemma gapRecords_sorted:
  "sorted_wrt (\<lambda>a b. lessRecordKey (keyOf a) (keyOf b)) (map gapRecord [0..<66])"
proof -
  have "lessRecordKey (keyOf (gapRecord i)) (keyOf (gapRecord j))" if "i < j" "j < 66" for i j
    using gapID_less [OF that] by (auto simp: lessRecordKey_def)
  then show ?thesis unfolding sorted_wrt_map sorted_wrt_iff_nth_less by simp
qed

lemma gapStore_signed: "topicRecordsSigned gapStore [116] = map gapRecord [0..<66]"
proof -
  have "filter (\<lambda>r. 0 < length (Sig r)) (map gapRecord [0..<66]) = map gapRecord [0..<66]"
    by (simp add: filter_map comp_def)
  then show ?thesis
    using sort_slice_sorted [OF gapRecords_sorted]
    by (simp add: topicRecordsSigned_def topicRecordsWhere_def gapStore_def comp_def)
qed

lemma gapStore_wf: "wf_store gapStore"
proof -
  have "distinct (map gapRecord [0..<66])"
    using gapRecords_sorted slot_order.less_irrefl by (intro sorted_wrt_distinct) auto
  have "inj_on gapID {0..<66}"
    by (rule linorder_inj_onI) (use gapID_less in \<open>auto simp: less_imp_neq\<close>)
  then have "distinct (map fst (map (\<lambda>i. (keyOf (gapRecord i), gapRecord i)) [0..<66]))"
    by (simp add: comp_def distinct_map inj_on_def)
  then show ?thesis
    by (auto simp: gapStore_def wf_store_def wf_topic_def wf_records_def newRecordStore_def setCaps_def)
qed

lemma gapStore_reply:
  "rangeReply gapStore 64 [116] None None = (take 33 (map gapRecord [0..<66]), True)"
proof -
  let ?recs = "map gapRecord [0..<66]"
  have recs: "rangeRecords gapStore [116] None None = ?recs"
    by (simp add: rangeRecords_def inRange_iff gapStore_signed)
  have "NodeID (?recs ! 33) \<noteq> NodeID (?recs ! (33 - 1))" by (simp add: gapID_def)
  then have "advanceSplit ?recs 33 = 33" by (subst advanceSplit.simps) simp
  then show ?thesis unfolding rangeReply_def recs Let_def by simp
qed

theorem cursor_skips_extension_witness:
  "gapRecord 33 \<in> set (topicRecordsSigned gapStore [116]) \<and> gapRecord 33 \<notin> set (pull gapStore 64 [116] None)"
proof
  show mem: "gapRecord 33 \<in> set (topicRecordsSigned gapStore [116])" unfolding gapStore_signed by simp
  have "NodeID (last (take 33 (map gapRecord [0..<66]))) = [33]"
    by (subst last_take_nth) (simp_all add: gapID_def)
  then have "NodeID (gapRecord 33) = NodeID (last (take 33 (map gapRecord [0..<66]))) @ [0]"
    by (simp add: gapID_def)
  moreover have "gapRecord 33 \<in> set (rangeRecords gapStore [116] None None)"
    using mem by (simp add: rangeRecords_def inRange_iff)
  ultimately show "gapRecord 33 \<notin> set (pull gapStore 64 [116] None)"
    using cursor_skips_extension [OF gapStore_wf gapStore_reply] by blast
qed

theorem merkle_root_detects_drift_witness:
  "let a = sampleRecord [1] [] 5 [9]; b = sampleRecord [2] [] 6 [8];
       s = applyAll newRecordStore [(1, a), (2, b)]; s' = applyAll newRecordStore [(3, b), (4, a)]
   in topicMerkleRoot sampleCrypto s [116] None None = topicMerkleRoot sampleCrypto s' [116] None None"
proof -
  let ?a = "sampleRecord [1] [] 5 [9]" and ?b = "sampleRecord [2] [] 6 [8]"
  let ?s = "applyAll newRecordStore [(1, ?a), (2, ?b)]"
  let ?s' = "applyAll newRecordStore [(3, ?b), (4, ?a)]"
  have len: "length (Sum256 sampleCrypto x) = 32" for x by (simp add: sampleCrypto_def)
  have "storeMap ?s = storeMap ?s'"
    by (auto simp: fun_eq_iff storeMap_def slotMap_def store_eval)
  then show ?thesis
    using merkle_root_detects_drift [OF len applyAll_wf [OF wf_store_new] applyAll_wf [OF wf_store_new]]
    unfolding Let_def by blast
qed

end
