(* ===== verification/Plumtrees.thy ===== *)
theory Plumtrees
  imports Merkle_Sync "HOL-Library.Multiset"
begin

text \<open>
  The epidemic broadcast of \<open>src/plumtrees.go\<close> on the shared engine state: publishing, eager and
  lazy push, graft and prune, the missing-announcement tracker and the frame dispatcher. Peer sets
  are visited in table order where the code ranges over a map; every property is stated so that
  it does not depend on that order. \<open>clk_wall\<close> is what \<open>peerTable.Ensure\<close> reads, \<open>clk_now\<close> the
  injected clock.
\<close>

subsection \<open>Construction and settings\<close>

definition newPlumtrees ::
  "NodeID \<Rightarrow> recordStore \<Rightarrow> peerTable \<Rightarrow> u64 \<Rightarrow> int \<Rightarrow> duration \<Rightarrow> merkleEngine \<Rightarrow> engine" where
  "newPlumtrees lid s pt clock deg delay m =
     \<lparr>localID = lid, store = s, peers = pt, hlc = clock,
      treeDeg = (if deg \<le> 0 then 4 else deg), eagerTTL = 8,
      graftDelay = (if delay \<le> 0 then 200 * millisecond else delay),
      maxIHaves = 4096, missingIHaves = [], gate = None, plumPaused = False,
      merkle = m, merkleWired = False, sent = [], calls = []\<rparr>"

definition ihaveEntryTTL :: duration where
  "ihaveEntryTTL = 30 * second"

definition SetInboundGate :: "engine \<Rightarrow> inboundGate \<Rightarrow> engine" where
  "SetInboundGate e g = e\<lparr>gate := Some g\<rparr>"

definition SetMaxPendingIHaves :: "engine \<Rightarrow> int \<Rightarrow> engine" where
  "SetMaxPendingIHaves e n = (if n > 0 then e\<lparr>maxIHaves := n\<rparr> else e)"

definition SetMerkle :: "engine \<Rightarrow> merkleEngine \<Rightarrow> engine" where
  "SetMerkle e m = e\<lparr>merkle := m, merkleWired := True\<rparr>"

definition plumSetPaused :: "engine \<Rightarrow> bool \<Rightarrow> engine" where
  "plumSetPaused e b = e\<lparr>plumPaused := b\<rparr>"

subsection \<open>Tree edges\<close>

definition maxTreeEdges :: "engine \<Rightarrow> int" where
  "maxTreeEdges e = treeDeg e * 4"

definition promoteTreeEdgeBounded :: "env \<Rightarrow> engine \<Rightarrow> NodeID \<Rightarrow> engine" where
  "promoteTreeEdgeBounded E e from =
     (if from \<in> set (TreeEdges (peers e)) then e
      else if int (length (TreeEdges (peers e))) \<ge> maxTreeEdges e then e
      else e\<lparr>peers := SetTreeEdge (peers e) from True (clk_wall E)\<rparr>)"

text \<open>The comparator of \<open>bestTreeEdges\<close>: priority class descending, then NodeID.\<close>

definition lessPriority :: "peerTable \<Rightarrow> NodeID \<Rightarrow> NodeID \<Rightarrow> bool" where
  "lessPriority pt i j =
     (let pi = PriorityClass (Snapshot pt i); pj = PriorityClass (Snapshot pt j)
      in if pi \<noteq> pj then pi > pj else i < j)"

definition bestTreeEdges :: "env \<Rightarrow> engine \<Rightarrow> engine \<times> NodeID list" where
  "bestTreeEdges E e =
     (let cur = TreeEdges (peers e)
      in if int (length cur) \<ge> treeDeg e then (e, cur)
         else
           let cand = sort_slice (lessPriority (peers e)) (NonTreeEdges (peers e));
               chosen = take (nat (treeDeg e - int (length cur))) cand
           in (e\<lparr>peers := foldl (\<lambda>pt i. SetTreeEdge pt i True (clk_wall E)) (peers e) chosen\<rparr>,
               cur @ chosen))"

subsection \<open>Push\<close>

definition sendTo :: "engine \<Rightarrow> NodeID list \<Rightarrow> bytes \<Rightarrow> engine" where
  "sendTo e edges b = e\<lparr>sent := sent e @ map (\<lambda>i. (i, b)) edges\<rparr>"

definition eagerPushToTreeEdges :: "env \<Rightarrow> engine \<Rightarrow> Record \<Rightarrow> engine" where
  "eagerPushToTreeEdges E e r =
     (case encodeFrame (wr E) (frameEagerPush r (eagerTTL e)) of
        None \<Rightarrow> e
      | Some b \<Rightarrow> (let (e1, edges) = bestTreeEdges E e in sendTo e1 edges b))"

definition eagerForward :: "env \<Rightarrow> engine \<Rightarrow> NodeID \<Rightarrow> Record \<Rightarrow> u32 \<Rightarrow> engine" where
  "eagerForward E e except r ttl =
     (case encodeFrame (wr E) (frameEagerPush r ttl) of
        None \<Rightarrow> e
      | Some b \<Rightarrow> sendTo e (filter (\<lambda>i. i \<noteq> except) (TreeEdges (peers e))) b)"

definition lazyPushPeer :: "env \<Rightarrow> Record \<Rightarrow> bytes \<Rightarrow> bytes \<Rightarrow> engine \<Rightarrow> NodeID \<Rightarrow> engine" where
  "lazyPushPeer E r bh b e p =
     (let every = AdaptiveInterval (Snapshot (peers e) p);
          interval = (if every \<le> 0 then second else every);
          entry = \<lparr>le_topic = Topic r, le_nodeID = NodeID r, le_hlc = HLC r, le_bodyHash = bh,
                   le_queuedAt = None\<rparr>;
          (pt1, queued) = EnqueueLazy (peers e) p entry interval (clk_now E) (clk_wall E)
      in if \<not> queued then e\<lparr>peers := pt1\<rparr>
         else
           let (pt2, ok) = ConsumeTokens pt1 p (word_of_nat (length b)) (clk_now E) (clk_wall E)
           in if \<not> ok then e\<lparr>peers := pt2\<rparr> else sendTo (e\<lparr>peers := pt2\<rparr>) [p] b)"

definition lazyPushToNonTreeEdges :: "env \<Rightarrow> engine \<Rightarrow> Record \<Rightarrow> engine" where
  "lazyPushToNonTreeEdges E e r =
     (if plumPaused e then e
      else
        let bh = bodyHash (cr E) r
        in case encodeFrame (wr E) (frameIHave (Topic r) (NodeID r) (Key r) (HLC r) bh) of
             None \<Rightarrow> e
           | Some b \<Rightarrow> foldl (lazyPushPeer E r bh b) e (NonTreeEdges (peers e)))"

definition sendPrune :: "env \<Rightarrow> engine \<Rightarrow> NodeID \<Rightarrow> Topic \<Rightarrow> engine" where
  "sendPrune E e to topic = sendFrame E e to (framePrune topic)"

definition Broadcast :: "env \<Rightarrow> engine \<Rightarrow> Record \<Rightarrow> engine" where
  "Broadcast E e r = lazyPushToNonTreeEdges E (eagerPushToTreeEdges E e r) r"

definition plumPublish :: "env \<Rightarrow> engine \<Rightarrow> Record \<Rightarrow> engine" where
  "plumPublish E e r =
     (let (s', applied, _) = Apply (store e) (nowMs E) r;
          e1 = e\<lparr>store := s'\<rparr>
      in if \<not> applied then e1
         else lazyPushToNonTreeEdges E (eagerPushToTreeEdges E e1 r) r)"

subsection \<open>Frame handlers\<close>

text \<open>A fresh attestation below quorum travels on along the best tree edges.\<close>

definition relayAttestation :: "env \<Rightarrow> engine \<Rightarrow> NodeID \<Rightarrow> Record \<Rightarrow> u32 \<Rightarrow> engine" where
  "relayAttestation E e from r ttl =
     (if ttl > 1
      then case encodeFrame (wr E) (frameEagerPush r (ttl - 1)) of
             None \<Rightarrow> e
           | Some b \<Rightarrow> (let (e1, edges) = bestTreeEdges E e
                        in sendTo e1 (filter (\<lambda>i. i \<noteq> from) edges) b)
      else e)"

definition deliverEager :: "env \<Rightarrow> engine \<Rightarrow> NodeID \<Rightarrow> Record \<Rightarrow> u32 \<Rightarrow> engine" where
  "deliverEager E e from r ttl =
     (let e1 = promoteTreeEdgeBounded E e from;
          e2 = e1\<lparr>missingIHaves :=
                 AList.delete (IHaveKey (Topic r) (NodeID r) (Key r) (HLC r)) (missingIHaves e1)\<rparr>;
          e3 = notifyApplied e2 r;
          e4 = (if ttl > 1 then eagerForward E e3 from r (ttl - 1) else e3)
      in lazyPushToNonTreeEdges E e4 r)"

definition handleEager :: "env \<Rightarrow> engine \<Rightarrow> NodeID \<Rightarrow> EagerPush \<Rightarrow> engine" where
  "handleEager E e from ep =
     (case ep_Record ep of
        None \<Rightarrow> e
      | Some pr \<Rightarrow>
          let r = recordFromProto pr
          in if \<not> verifyInbound E r then e
             else
               let (e1, ok) = admitInbound E e r
               in if \<not> ok then e1
                  else
                    let e2 = observeHLC E e1 (HLC r);
                        (e3, applied, replaced, accumulated) = applyStore E e2 r
                    in if \<not> applied \<and> accumulated \<and> IsObserverAttestation r
                       then relayAttestation E e3 from r (ep_Ttl ep)
                       else if \<not> applied \<and> replaced then sendPrune E e3 from (Topic r)
                       else if \<not> applied then e3
                       else deliverEager E e3 from r (ep_Ttl ep))"

text \<open>\<open>copy(bh[:], hash)\<close> into a zeroed 32-byte array.\<close>

definition copy32 :: "bytes \<Rightarrow> bytes" where
  "copy32 b = take 32 b @ replicate (32 - length b) 0"

definition handleIHave :: "env \<Rightarrow> engine \<Rightarrow> NodeID \<Rightarrow> IHave \<Rightarrow> engine" where
  "handleIHave E e from ih =
     (if (case getRawKeyed (store e) (ih_Topic ih) (ih_NodeId ih) (ih_Key ih) of
            Some cur \<Rightarrow> HLC cur \<ge> ih_Hlc ih | None \<Rightarrow> False)
      then e
      else
        let key = IHaveKey (ih_Topic ih) (ih_NodeId ih) (ih_Key ih) (ih_Hlc ih)
        in if map_of (missingIHaves e) key \<noteq> None then e
           else if int (length (missingIHaves e)) \<ge> maxIHaves e then e
           else e\<lparr>missingIHaves := AList.update key
                    \<lparr>announcer = from, ie_bodyHash = copy32 (ih_BodyHash ih), seenAt = clk_now E,
                     grafted = False\<rparr> (missingIHaves e)\<rparr>)"

definition handleGraft :: "env \<Rightarrow> engine \<Rightarrow> NodeID \<Rightarrow> Graft \<Rightarrow> engine" where
  "handleGraft E e from g =
     (let e1 = promoteTreeEdgeBounded E e from
      in case getRawKeyed (store e1) (gr_Topic g) (gr_NodeId g) (gr_Key g) of
           None \<Rightarrow> e1
         | Some r \<Rightarrow> if length (Sig r) = 0 then e1
                     else sendUnchecked E e1 from (frameEagerPush r (eagerTTL e1)))"

definition handlePrune :: "env \<Rightarrow> engine \<Rightarrow> NodeID \<Rightarrow> Prune \<Rightarrow> engine" where
  "handlePrune E e from p = e\<lparr>peers := SetTreeEdge (peers e) from False (clk_wall E)\<rparr>"

definition ReceiveFrame :: "env \<Rightarrow> engine \<Rightarrow> NodeID \<Rightarrow> bytes \<Rightarrow> engine \<times> error option" where
  "ReceiveFrame E e from raw =
     (case decodeFrame (wr E) raw of
        Inl err \<Rightarrow> (e, Some err)
      | Inr f \<Rightarrow>
          (case f of
             Frame_Eager ep \<Rightarrow> handleEager E e from ep
           | Frame_Ihave ih \<Rightarrow> handleIHave E e from ih
           | Frame_Graft g \<Rightarrow> handleGraft E e from g
           | Frame_Prune p \<Rightarrow> handlePrune E e from p
           | Frame_Merkle p \<Rightarrow> if merkleWired e then HandleProbe E e from p else e
           | Frame_MerkleRange p \<Rightarrow> if merkleWired e then HandleRange E e from p else e
           | Frame_Keepalive \<Rightarrow> e
           | Frame_FetchReq q \<Rightarrow> e\<lparr>calls := calls e @ [OnFetchReq from q]\<rparr>
           | Frame_FetchResp q \<Rightarrow> e\<lparr>calls := calls e @ [OnFetchResp from q]\<rparr>
           | Frame_None \<Rightarrow> e,
           None))"

subsection \<open>The graft timer\<close>

definition graftEntry :: "env \<Rightarrow> instant \<Rightarrow> engine \<Rightarrow> ihaveKey \<times> ihaveEntry \<Rightarrow> engine" where
  "graftEntry E now e ke =
     (let (key, entry) = ke
      in if now - seenAt entry > ihaveEntryTTL
         then e\<lparr>missingIHaves := AList.delete key (missingIHaves e)\<rparr>
         else if grafted entry then e
         else if now - seenAt entry < graftDelay e then e
         else
           let e1 = sendUnchecked E e (announcer entry)
                      (frameGraft (ik_topic key) (ik_nodeID key) (ik_key key) (ik_hlc key))
           in e1\<lparr>missingIHaves := AList.update key (entry\<lparr>grafted := True\<rparr>) (missingIHaves e1)\<rparr>)"

definition processGrafts :: "env \<Rightarrow> engine \<Rightarrow> instant \<Rightarrow> engine" where
  "processGrafts E e now = foldl (graftEntry E now) e (missingIHaves e)"

definition plumTick :: "env \<Rightarrow> engine \<Rightarrow> instant \<Rightarrow> engine" where
  "plumTick E e now = processGrafts E e now"

end
