(* ===== verification/Plumtrees_Inv.thy ===== *)
theory Plumtrees_Inv
  imports Plumtrees
begin

text \<open>
  What holds of the gossip engine in every state it can reach: only verified and admitted records
  enter the store, the announcement tracker and the tree-edge set stay within their bounds, grafts
  go out once per announcement and only inside the window, and an eager flood dies out.
\<close>

subsection \<open>The tree-edge set\<close>

definition treeSet :: "peerTable \<Rightarrow> NodeID set" where
  "treeSet pt = {i. \<exists>p. map_of (ctxBy pt) i = Some p \<and> isTreeEdge p}"

lemma wf_peers_map: "wf_peers pt \<Longrightarrow> wf_map (ctxBy pt)"
  by (simp add: wf_peers_def)

lemma peer_entry: "wf_peers pt \<Longrightarrow> (i, p) \<in> set (ctxBy pt) \<longleftrightarrow> map_of (ctxBy pt) i = Some p"
  using wf_peers_map by (auto simp: map_of_eq_Some_iff)

lemma set_TreeEdges: "wf_peers pt \<Longrightarrow> set (TreeEdges pt) = treeSet pt"
  by (auto simp: TreeEdges_def treeSet_def image_iff peer_entry)

lemma set_NonTreeEdges: "wf_peers pt \<Longrightarrow> set (NonTreeEdges pt) = mkeys (ctxBy pt) - treeSet pt"
  by (auto simp: NonTreeEdges_def treeSet_def image_iff peer_entry)

lemma distinct_edges:
  assumes "wf_peers pt"
  shows "distinct (TreeEdges pt)" and "distinct (NonTreeEdges pt)"
  using wf_peers_map [OF assms]
  by (simp_all add: TreeEdges_def NonTreeEdges_def distinct_map_filter)

lemma length_TreeEdges: "wf_peers pt \<Longrightarrow> length (TreeEdges pt) = card (treeSet pt)"
  using distinct_card [OF distinct_edges(1)] set_TreeEdges by metis

lemma finite_treeSet [simp]: "finite (treeSet pt)"
  by (rule finite_subset [of _ "mkeys (ctxBy pt)"]) (auto simp: treeSet_def dest: map_of_SomeD intro: rev_image_eqI)

lemma Ensure_isTreeEdge: "isTreeEdge (snd (Ensure pt i wall)) \<longleftrightarrow> i \<in> treeSet pt"
  by (auto simp: Ensure_def treeSet_def newPeerCtx_def Let_def split: option.split)

lemma treeSet_putPeer: "treeSet (putPeer pt i p) = (if isTreeEdge p then insert i (treeSet pt) else treeSet pt - {i})"
  by (auto simp: treeSet_def split: if_splits)

lemma treeSet_Ensure [simp]: "treeSet (fst (Ensure pt i wall)) = treeSet pt"
  using Ensure_isTreeEdge [of pt i wall] by (auto simp: treeSet_def Ensure_lookup split: if_splits)

lemma treeSet_SetTreeEdge [simp]:
  "treeSet (SetTreeEdge pt i b wall) = (if b then insert i (treeSet pt) else treeSet pt - {i})"
  by (simp add: SetTreeEdge_def case_prod_beta treeSet_putPeer)

lemma treeSet_EnqueueLazy [simp]: "treeSet (fst (EnqueueLazy pt i en a now wall)) = treeSet pt"
  using Ensure_isTreeEdge [of pt i wall]
  by (auto simp: EnqueueLazy_def Let_def case_prod_beta treeSet_putPeer)

lemma treeSet_ConsumeTokens [simp]: "treeSet (fst (ConsumeTokens pt i c now wall)) = treeSet pt"
  using Ensure_isTreeEdge [of pt i wall]
  by (auto simp: ConsumeTokens_def Let_def case_prod_beta treeSet_putPeer)

lemma treeSet_Remove [simp]: "treeSet (Remove pt i) = treeSet pt - {i}"
  by (auto simp: treeSet_def Remove_def delete_conv' split: if_splits)

lemma treeSet_foldl: "treeSet (foldl (\<lambda>pt i. SetTreeEdge pt i True wall) pt is) = treeSet pt \<union> set is"
  by (induction "is" arbitrary: pt) auto

subsection \<open>What pushing leaves alone\<close>

text \<open>The state without the peer table and the transport.\<close>

definition core :: "engine \<Rightarrow> engine" where
  "core e = e\<lparr>peers := newPeerTable None, sent := []\<rparr>"

lemma coreD:
  assumes "core e = core e'"
  shows "store e = store e'" "gate e = gate e'" "hlc e = hlc e'" "missingIHaves e = missingIHaves e'"
    "maxIHaves e = maxIHaves e'" "treeDeg e = treeDeg e'" "calls e = calls e'"
    "eagerTTL e = eagerTTL e'" "localID e = localID e'" "merkle e = merkle e'"
    "merkleWired e = merkleWired e'" "plumPaused e = plumPaused e'" "graftDelay e = graftDelay e'"
proof -
  obtain p s where "e' = e\<lparr>peers := p, sent := s\<rparr>"
  proof (rule that)
    show "e' = e\<lparr>peers := peers e', sent := sent e'\<rparr>"
      using assms by (cases e; cases e') (simp add: core_def)
  qed
  then show "store e = store e'" "gate e = gate e'" "hlc e = hlc e'" "missingIHaves e = missingIHaves e'"
    "maxIHaves e = maxIHaves e'" "treeDeg e = treeDeg e'" "calls e = calls e'"
    "eagerTTL e = eagerTTL e'" "localID e = localID e'" "merkle e = merkle e'"
    "merkleWired e = merkleWired e'" "plumPaused e = plumPaused e'" "graftDelay e = graftDelay e'"
    by simp_all
qed

lemma core_update [simp]:
  "core (e\<lparr>peers := p\<rparr>) = core e" "core (sendTo e is b) = core e" "core (sendFrame E e to f) = core e"
  "core (sendUnchecked E e to f) = core e"
  by (simp_all add: core_def sendTo_def sendFrame_def sendUnchecked_def split: option.split)

lemma core_promote [simp]: "core (promoteTreeEdgeBounded E e from) = core e"
  by (simp add: promoteTreeEdgeBounded_def)

lemma core_bestTreeEdges [simp]: "core (fst (bestTreeEdges E e)) = core e"
  by (simp add: bestTreeEdges_def Let_def)

lemma core_lazyPush [simp]: "core (lazyPushToNonTreeEdges E e r) = core e"
proof -
  have peer: "core (lazyPushPeer E r bh b e p) = core e" for bh b e p
    by (simp add: lazyPushPeer_def Let_def case_prod_beta)
  have "core (foldl (lazyPushPeer E r bh b) e ps) = core e" for bh b ps
    by (induction ps arbitrary: e) (simp_all add: peer)
  then show ?thesis by (simp add: lazyPushToNonTreeEdges_def Let_def split: option.split)
qed

lemma core_eager [simp]:
  "core (eagerPushToTreeEdges E e r) = core e" "core (eagerForward E e from r ttl) = core e"
  "core (relayAttestation E e from r ttl) = core e" "core (sendPrune E e from t) = core e"
  "core (Broadcast E e r) = core e"
  by (simp_all add: eagerPushToTreeEdges_def eagerForward_def relayAttestation_def sendPrune_def
      Broadcast_def case_prod_beta split: option.split)

lemma core_sendProbe [simp]: "core (sendProbe E e to t a b) = core e"
  by (simp add: sendProbe_def)

lemmas core_fields = coreD [OF core_promote] coreD [OF core_bestTreeEdges] coreD [OF core_lazyPush]
  coreD [OF core_eager(1)] coreD [OF core_eager(2)] coreD [OF core_eager(3)] coreD [OF core_eager(4)]
  coreD [OF core_eager(5)] coreD [OF core_update(2)]

declare core_fields [simp]

subsection \<open>Records that reach the store\<close>

text \<open>The records a frame carries for the store.\<close>

definition inboundRecords :: "env \<Rightarrow> engine \<Rightarrow> bytes \<Rightarrow> Record list" where
  "inboundRecords E e raw =
     (case Unmarshal (wr E) raw of
        Some (Frame_Eager ep) \<Rightarrow>
          (case ep_Record ep of None \<Rightarrow> [] | Some pr \<Rightarrow> [recordFromProto pr])
      | Some (Frame_MerkleRange p) \<Rightarrow> if merkleWired e then map recordFromProto (mr_Records p) else []
      | _ \<Rightarrow> [])"

lemma deliverEager_fields [simp]:
  "store (deliverEager E e from r ttl) = store e" "gate (deliverEager E e from r ttl) = gate e"
  "treeDeg (deliverEager E e from r ttl) = treeDeg e" "maxIHaves (deliverEager E e from r ttl) = maxIHaves e"
  "missingIHaves (deliverEager E e from r ttl) =
     AList.delete (IHaveKey (Topic r) (NodeID r) (Key r) (HLC r)) (missingIHaves e)"
  "calls (deliverEager E e from r ttl) = calls e @ [OnApplied r]" "hlc (deliverEager E e from r ttl) = hlc e"
  by (simp_all add: deliverEager_def Let_def notifyApplied_def)

lemma admitInbound_fields [simp]:
  "peers (fst (admitInbound E e r)) = peers e" "sent (fst (admitInbound E e r)) = sent e"
  "missingIHaves (fst (admitInbound E e r)) = missingIHaves e"
  "maxIHaves (fst (admitInbound E e r)) = maxIHaves e" "treeDeg (fst (admitInbound E e r)) = treeDeg e"
  "hlc (fst (admitInbound E e r)) = hlc e" "calls (fst (admitInbound E e r)) = calls e"
  by (simp_all add: admitInbound_def case_prod_beta split: option.split)

text \<open>An eager frame as one of four outcomes on the state after the store was asked.\<close>

definition afterApply :: "env \<Rightarrow> engine \<Rightarrow> Record \<Rightarrow> engine \<times> apply_result" where
  "afterApply E e r = applyStore E (observeHLC E (fst (admitInbound E e r)) (HLC r)) r"

lemma afterApply_fields [simp]:
  "store (fst (afterApply E e r)) = fst (ApplyExt (store e) (nowMs E) r)"
  "snd (afterApply E e r) = snd (ApplyExt (store e) (nowMs E) r)"
  "map_option gateConfig (gate (fst (afterApply E e r))) = map_option gateConfig (gate e)"
  "peers (fst (afterApply E e r)) = peers e" "sent (fst (afterApply E e r)) = sent e"
  "missingIHaves (fst (afterApply E e r)) = missingIHaves e"
  "maxIHaves (fst (afterApply E e r)) = maxIHaves e" "treeDeg (fst (afterApply E e r)) = treeDeg e"
  "calls (fst (afterApply E e r)) = calls e"
  by (simp_all add: afterApply_def applyStore_def observeHLC_def case_prod_beta admitInbound_props)

lemma handleEager_cases:
  obtains (none) "ep_Record ep = None" "handleEager E e from ep = e"
  | (rejected) pr where "ep_Record ep = Some pr" "\<not> acceptable E (gate e) (recordFromProto pr)"
      "handleEager E e from ep = e \<or> handleEager E e from ep = fst (admitInbound E e (recordFromProto pr))"
  | (kept) r replaced accumulated where "ep_Record ep = Some (recordToProto r)" "acceptable E (gate e) r"
      "snd (ApplyExt (store e) (nowMs E) r) = (False, replaced, accumulated)"
      "handleEager E e from ep =
        (if accumulated \<and> IsObserverAttestation r
         then relayAttestation E (fst (afterApply E e r)) from r (ep_Ttl ep)
         else if replaced then sendPrune E (fst (afterApply E e r)) from (Topic r)
         else fst (afterApply E e r))"
  | (applied) r replaced accumulated where "ep_Record ep = Some (recordToProto r)" "acceptable E (gate e) r"
      "snd (ApplyExt (store e) (nowMs E) r) = (True, replaced, accumulated)"
      "handleEager E e from ep = deliverEager E (fst (afterApply E e r)) from r (ep_Ttl ep)"
proof (cases "ep_Record ep")
  case None
  then show ?thesis by (intro none) (simp_all add: handleEager_def)
next
  case (Some pr)
  define r where "r = recordFromProto pr"
  have pr: "pr = recordToProto r" by (simp add: r_def)
  obtain applied replaced accumulated where
    res: "snd (ApplyExt (store e) (nowMs E) r) = (applied, replaced, accumulated)"
    by (cases "snd (ApplyExt (store e) (nowMs E) r)") auto
  have after: "applyStore E (observeHLC E (fst (admitInbound E e r)) (HLC r)) r =
      (fst (afterApply E e r), applied, replaced, accumulated)"
    using afterApply_fields(2) [of E e r] res by (simp add: afterApply_def prod_eq_iff)
  show ?thesis
  proof (cases "acceptable E (gate e) r")
    case False
    then have "\<not> verifyInbound E r \<or> \<not> snd (admitInbound E e r)"
      using admitInbound_props(3) [of E r e] by blast
    then show ?thesis
      using False Some by (intro rejected) (auto simp: handleEager_def Let_def case_prod_beta r_def)
  next
    case True
    then have "verifyInbound E r" "snd (admitInbound E e r)"
      using admitInbound_props(3) [of E r e] by (auto simp: acceptable_def)
    then have eq: "handleEager E e from ep =
        (if \<not> applied \<and> accumulated \<and> IsObserverAttestation r
         then relayAttestation E (fst (afterApply E e r)) from r (ep_Ttl ep)
         else if \<not> applied \<and> replaced then sendPrune E (fst (afterApply E e r)) from (Topic r)
         else if \<not> applied then fst (afterApply E e r)
         else deliverEager E (fst (afterApply E e r)) from r (ep_Ttl ep))"
      by (simp add: handleEager_def Some Let_def case_prod_beta after flip: r_def)
    show ?thesis
    proof (cases applied)
      case False
      with eq res True Some pr show ?thesis by (intro kept [of r replaced accumulated]) simp_all
    next
      case True
      with eq res \<open>acceptable E (gate e) r\<close> Some pr show ?thesis by (intro applied [of r replaced accumulated]) simp_all
    qed
  qed
qed

lemma handleEager_store:
  "store (handleEager E e from ep) =
     applyAll (store e) (map (Pair (nowMs E)) (filter (acceptable E (gate e))
       (case ep_Record ep of None \<Rightarrow> [] | Some pr \<Rightarrow> [recordFromProto pr])))"
  "map_option gateConfig (gate (handleEager E e from ep)) = map_option gateConfig (gate e)"
  "treeDeg (handleEager E e from ep) = treeDeg e" "maxIHaves (handleEager E e from ep) = maxIHaves e"
  by (cases rule: handleEager_cases [of ep E e "from"]; auto simp: admitInbound_props)+

lemma HandleProbe_fields [simp]:
  "store (HandleProbe E e from p) = store e" "gate (HandleProbe E e from p) = gate e"
  "peers (HandleProbe E e from p) = peers e" "missingIHaves (HandleProbe E e from p) = missingIHaves e"
  "treeDeg (HandleProbe E e from p) = treeDeg e" "maxIHaves (HandleProbe E e from p) = maxIHaves e"
  by (simp_all add: HandleProbe_def reciprocate_def sendRange_def Let_def case_prod_beta)

lemma handle_small_fields [simp]:
  "store (handleIHave E e from ih) = store e" "gate (handleIHave E e from ih) = gate e"
  "peers (handleIHave E e from ih) = peers e" "treeDeg (handleIHave E e from ih) = treeDeg e"
  "maxIHaves (handleIHave E e from ih) = maxIHaves e"
  "store (handleGraft E e from g) = store e" "gate (handleGraft E e from g) = gate e"
  "missingIHaves (handleGraft E e from g) = missingIHaves e" "treeDeg (handleGraft E e from g) = treeDeg e"
  "maxIHaves (handleGraft E e from g) = maxIHaves e"
  "store (handlePrune E e from p) = store e" "gate (handlePrune E e from p) = gate e"
  "missingIHaves (handlePrune E e from p) = missingIHaves e" "treeDeg (handlePrune E e from p) = treeDeg e"
  "maxIHaves (handlePrune E e from p) = maxIHaves e"
  by (simp_all add: handleIHave_def handleGraft_def handlePrune_def Let_def split: option.split)

lemma ReceiveFrame_store:
  "store (fst (ReceiveFrame E e from raw)) =
     applyAll (store e) (map (Pair (nowMs E)) (filter (acceptable E (gate e)) (inboundRecords E e raw)))"
  "map_option gateConfig (gate (fst (ReceiveFrame E e from raw))) = map_option gateConfig (gate e)"
  by (auto simp: ReceiveFrame_def inboundRecords_def decodeFrame_def handleEager_store HandleRange_props
      split: option.split Frame.split)

subsection \<open>Provenance of records\<close>

text \<open>
  What is fixed over a run: the cryptography, the records the node itself publishes, the readings
  of the wall clock at which frames are handled, and a bound no quorum in force goes below. The
  properties hold for every choice, so for the one that describes a given run exactly.
\<close>

record runContext =
  runCrypto :: crypto
  runOwn :: "Record set"
  runWalls :: "instant set"
  runQuorum :: int

definition during :: "runContext \<Rightarrow> env \<Rightarrow> bool" where
  "during R E \<longleftrightarrow> cr E = runCrypto R \<and> clk_wall E \<in> runWalls R"

text \<open>
  A record is legitimate in a run when its signature verifies and the node published it itself or
  the gate accepts it at one of the run's readings of the wall clock.
\<close>

definition verified :: "crypto \<Rightarrow> Record \<Rightarrow> bool" where
  "verified C r \<longleftrightarrow> length (PubKey r) = PublicKeySize \<and> verifyRecord C r (PubKey r)"

definition legit :: "runContext \<Rightarrow> inboundGate option \<Rightarrow> Record \<Rightarrow> bool" where
  "legit R g r \<longleftrightarrow> verified (runCrypto R) r \<and> (r \<in> runOwn R \<or> (\<exists>E. during R E \<and> acceptable E g r))"

text \<open>An unsigned tombstone that a quorum of different observers stands behind.\<close>

definition attested :: "(Record \<Rightarrow> bool) \<Rightarrow> int \<Rightarrow> Record \<Rightarrow> bool" where
  "attested P q r \<longleftrightarrow> Tombstone r \<and>
     (\<exists>w. wf_witnesses (Topic r) (NodeID r) w \<and> q \<le> int (length w) \<and> (\<forall>a\<in>snd ` set w. P a) \<and>
          HLC r = maxWitnessHLC w + 1)"

definition provenance :: "(Record \<Rightarrow> bool) \<Rightarrow> int \<Rightarrow> recordStore \<Rightarrow> bool" where
  "provenance P q s \<longleftrightarrow>
     (\<forall>t k r. slotMap s t k = Some r \<longrightarrow> P r \<or> attested P q r) \<and>
     (\<forall>t n. \<forall>a\<in>snd ` set (witnessesOf s t n). P a)"

lemma legit_acceptable: "during R E \<Longrightarrow> acceptable E g r \<Longrightarrow> legit R g r"
  by (auto simp: legit_def during_def acceptable_def verifyInbound_def verified_def)

lemma owner_slots:
  assumes "wf_store s" and "\<not> IsObserverAttestation r"
    and "slotMap (fst (ApplyExt s nw r)) t k = Some x"
  shows "x = r \<or> slotMap s t k = Some x"
  using assms(1)
proof (cases rule: ApplyExt_cases [where r = r and nowMs = nw])
  case capped
  with assms(3) show ?thesis by simp
next
  case (owner s1 ts)
  have "slotMap s (Topic r) = map_of (records ts)"
    using owner(3,7) by (simp only: flip: slotMap_topic)
  then show ?thesis
    using owner(2,7) assms(3)
    by (auto simp: applyOwner_def Let_def slotMap_putTopic split: option.splits if_splits)
next
  case (attestation s1 ts)
  with assms(2) show ?thesis by simp
qed

lemma attested_buried:
  assumes "wf_store s" and "IsObserverAttestation r" and "provenance P q s" and "P r"
    and "q \<le> int (length (filed s r))"
  shows "attested P q (buried r (filed s r) k)"
proof -
  have "P a" if "a \<in> snd ` set (filed s r)" for a
    using that filed_subset [of s r] assms(3,4) by (fastforce simp: provenance_def)
  then show ?thesis
    using filed_wf [OF assms(1,2)] assms(5)
    unfolding attested_def by (intro conjI exI [of _ "filed s r"]) (simp_all add: buried_def)
qed

lemma ApplyExt_provenance:
  assumes "wf_store s" and "provenance P q s" and "q \<le> observerQuorum s" and "P r"
  shows "provenance P q (fst (ApplyExt s nw r))"
proof (cases "IsObserverAttestation r")
  case False
  have "P x \<or> attested P q x" if "slotMap (fst (ApplyExt s nw r)) t k = Some x" for t k x
    using owner_slots [OF assms(1) False that] assms(2,4) by (auto simp: provenance_def)
  moreover have "P a" if "a \<in> snd ` set (witnessesOf (fst (ApplyExt s nw r)) t n)" for t n a
    using that owner_witnesses [OF assms(1) False, of nw t n] assms(2) by (fastforce simp: provenance_def)
  ultimately show ?thesis by (auto simp: provenance_def)
next
  case True
  have filed: "P a" if "a \<in> snd ` set (filed s r)" for a
    using that filed_subset [of s r] assms(2,4) by (fastforce simp: provenance_def)
  show ?thesis
    using assms(1) True
  proof (cases rule: attestation_outcome [where nowMs = nw])
    case below
    then show ?thesis using assms(2) filed by (simp add: provenance_def)
  next
    case quorum
    have "P x \<or> attested P q x" if "slotsAfterQuorum s r (filed s r) t k = Some x" for t k x
      using that assms(2) attested_buried [OF assms(1) True assms(2,4) order.trans [OF assms(3) quorum(1)]]
      by (auto simp: slotsAfterQuorum_def provenance_def split: if_splits option.splits)
    then show ?thesis using assms(2) filed by (simp add: provenance_def quorum(3,4))
  qed
qed

lemma applyAll_config: "storeConfig (applyAll s ds) = storeConfig s"
  by (induction ds arbitrary: s) (auto simp: ApplyExt_config)

lemma applyAll_provenance:
  "wf_store s \<Longrightarrow> provenance P q s \<Longrightarrow> q \<le> observerQuorum s \<Longrightarrow> \<forall>r\<in>snd ` set ds. P r \<Longrightarrow>
   provenance P q (applyAll s ds)"
  by (induction ds arbitrary: s) (auto simp: ApplyExt_provenance ApplyExt_wf ApplyExt_configD(1))

lemma reap_provenance:
  assumes "wf_store s" and "provenance P q s"
  shows "provenance P q (fst (reapExpired s nw ttl))"
proof (cases ttl)
  case None
  with assms(2) show ?thesis by (simp add: reapExpired_def)
next
  case (Some f)
  let ?s = "fst (reapExpired s nw (Some f))"
  have "slotMap s t k = Some r" if "slotMap ?s t k = Some r" for t k r
  proof (cases "map_of (byTopic s) t")
    case (Some ts)
    then have "wf_map (records ts)" using wf_storeD [OF assms(1)] by (simp add: wf_topic_def wf_records_def)
    with that Some reapExpired_topic [OF assms(1), of nw f t] show ?thesis
      by (auto simp: slotMap_def reapTopic_fields Let_def map_of_filter_case split: option.splits if_splits)
  qed (use that reapExpired_topic [OF assms(1), of nw f t] in \<open>simp add: slotMap_def\<close>)
  moreover have "set (witnessesOf ?s t n) \<subseteq> set (witnessesOf s t n)" for t n
    using reapExpired_topic [OF assms(1), of nw f t]
    by (auto simp: witnessesOf_def reapTopic_fields Let_def split: option.splits if_splits)
  ultimately show ?thesis using assms(2) Some unfolding provenance_def by (metis image_mono subsetD)
qed

end
