(* ===== verification/Gossip.thy ===== *)
theory Gossip
  imports Plumtrees_Inv
begin

text \<open>
  The gossip engine as a transition system: each step is one call the node makes into
  \<open>src/plumtrees.go\<close>, \<open>src/merkle.go\<close>, \<open>src/crdt.go\<close> or \<open>src/peer.go\<close>, with any bytes from any
  peer as an inbound frame. The steps are relative to a run context: what the node publishes, when
  it handles frames, and how low its quorum is set. Invariants are proved by induction over them.
\<close>

subsection \<open>Steps\<close>

inductive engine_step :: "runContext \<Rightarrow> engine \<Rightarrow> engine \<Rightarrow> bool" for R where
  receive: "during R E \<Longrightarrow> engine_step R e (fst (ReceiveFrame E e from raw))"
| graft_tick: "cr E = runCrypto R \<Longrightarrow> engine_step R e (plumTick E e now)"
| merkle_tick: "cr E = runCrypto R \<Longrightarrow> engine_step R e (merkleTick E e)"
| probe: "cr E = runCrypto R \<Longrightarrow> engine_step R e (ProbePeer E e i)"
| publish: "cr E = runCrypto R \<Longrightarrow> verified (runCrypto R) r \<Longrightarrow> r \<in> runOwn R \<Longrightarrow>
    engine_step R e (plumPublish E e r)"
| apply_own: "verified (runCrypto R) r \<Longrightarrow> r \<in> runOwn R \<Longrightarrow>
    engine_step R e (e\<lparr>store := fst (Apply (store e) nw r)\<rparr>)"
| broadcast: "cr E = runCrypto R \<Longrightarrow> engine_step R e (Broadcast E e r)"
| reap: "engine_step R e (e\<lparr>store := fst (reapExpired (store e) nw ttl)\<rparr>)"
| set_quorum: "runQuorum R \<le> observerQuorum (SetObserverQuorum (store e) k w) \<Longrightarrow>
    engine_step R e (e\<lparr>store := SetObserverQuorum (store e) k w\<rparr>)"
| set_role_check: "engine_step R e (e\<lparr>store := SetObserverRoleCheck (store e) fn\<rparr>)"
| join: "engine_step R e (e\<lparr>peers := fst (Ensure (peers e) i wall)\<rparr>)"
| leave: "engine_step R e (e\<lparr>peers := Remove (peers e) i\<rparr>)"
| pause: "engine_step R e (merkleSetPaused (plumSetPaused e b) b)"
| stamp: "engine_step R e (e\<lparr>hlc := fst (HLC_Now (hlc e) nw)\<rparr>)"

text \<open>What no step changes: identity, bounds and the gate's configuration.\<close>

definition settings :: "engine \<Rightarrow> NodeID \<times> int \<times> int \<times> inboundGate option" where
  "settings e = (localID e, treeDeg e, maxIHaves e, map_option gateConfig (gate e))"

lemma core_settings: "core e = core e' \<Longrightarrow> settings e = settings e'"
  using coreD [of e e'] by (simp add: settings_def)

lemma settings_update [simp]:
  "settings (e\<lparr>peers := p\<rparr>) = settings e" "settings (e\<lparr>merkle := m\<rparr>) = settings e"
  "settings (e\<lparr>missingIHaves := x\<rparr>) = settings e" "settings (e\<lparr>hlc := h\<rparr>) = settings e"
  "settings (e\<lparr>calls := c\<rparr>) = settings e" "settings (e\<lparr>plumPaused := b\<rparr>) = settings e"
  "settings (e\<lparr>sent := o'\<rparr>) = settings e" "settings (e\<lparr>store := s\<rparr>) = settings e"
  by (simp_all add: settings_def)

lemmas core_settings_simps [simp] = core_settings [OF core_promote] core_settings [OF core_lazyPush]
  core_settings [OF core_eager(1)] core_settings [OF core_eager(2)] core_settings [OF core_eager(3)]
  core_settings [OF core_eager(4)] core_settings [OF core_eager(5)] core_settings [OF core_update(3)]
  core_settings [OF core_update(4)] core_settings [OF core_sendProbe]

lemma settings_admit [simp]: "settings (fst (admitInbound E e r)) = settings e"
  by (simp add: settings_def admitInbound_def case_prod_beta gateConfig_Admit split: option.split)

lemma settings_afterApply [simp]: "settings (fst (afterApply E e r)) = settings e"
proof -
  have "localID (fst (afterApply E e r)) = localID e"
    by (simp add: afterApply_def applyStore_def observeHLC_def admitInbound_def case_prod_beta split: option.split)
  then show ?thesis by (simp add: settings_def)
qed

lemma settings_handleEager [simp]: "settings (handleEager E e from ep) = settings e"
  by (cases rule: handleEager_cases [of ep E e "from"])
    (auto simp: deliverEager_def Let_def notifyApplied_def)

lemma settings_HandleRange [simp]: "settings (HandleRange E e from p) = settings e"
proof -
  have out: "applyRangeRecord E e pr = e \<or> applyRangeRecord E e pr = fst (admitInbound E e (recordFromProto pr)) \<or>
      (\<exists>cs. applyRangeRecord E e pr = (fst (afterApply E e (recordFromProto pr)))\<lparr>calls := cs\<rparr>) \<or>
      applyRangeRecord E e pr = fst (afterApply E e (recordFromProto pr))" for e pr
    unfolding applyRangeRecord_def afterApply_def Let_def case_prod_beta notifyApplied_def by auto
  have one: "settings (applyRangeRecord E e pr) = settings e" for e pr
    using out [of e pr] by (elim disjE exE) simp_all
  have "settings (foldl (applyRangeRecord E) e prs) = settings e" for prs
    by (induction prs arbitrary: e) (simp_all add: one)
  then show ?thesis by (simp add: HandleRange_def Let_def)
qed

lemma settings_small [simp]:
  "settings (HandleProbe E e from p) = settings e" "settings (handleIHave E e from ih) = settings e"
  "settings (handleGraft E e from g) = settings e" "settings (handlePrune E e from pr) = settings e"
  by (simp_all add: HandleProbe_def reciprocate_def sendRange_def handleIHave_def handleGraft_def
      handlePrune_def Let_def case_prod_beta split: option.split)

lemma settings_receive [simp]: "settings (fst (ReceiveFrame E e from raw)) = settings e"
  by (auto simp: ReceiveFrame_def split: sum.split Frame.split)

lemma settings_tick [simp]: "settings (plumTick E e now) = settings e"
proof -
  have one: "settings (graftEntry E now e ke) = settings e" for e ke
    by (simp add: graftEntry_def Let_def case_prod_beta)
  have "settings (foldl (graftEntry E now) e kes) = settings e" for kes
    by (induction kes arbitrary: e) (simp_all add: one)
  then show ?thesis by (simp add: plumTick_def processGrafts_def)
qed

lemma settings_merkle [simp]:
  "settings (merkleTick E e) = settings e" "settings (ProbePeer E e i) = settings e"
proof -
  have one: "settings (tickTopic E e t) = settings e" for e t
    by (simp add: tickTopic_def Let_def)
  have "settings (foldl (tickTopic E) e ts) = settings e" for ts
    by (induction ts arbitrary: e) (simp_all add: one)
  then show "settings (merkleTick E e) = settings e" by (simp add: merkleTick_def)
  have "settings (foldl (\<lambda>e topic. sendProbe E e i topic None None) e ts) = settings e" for ts
    by (induction ts arbitrary: e) simp_all
  then show "settings (ProbePeer E e i) = settings e" by (simp add: ProbePeer_def)
qed

lemma reapExpired_config: "storeConfig (fst (reapExpired s nw ttl)) = storeConfig s"
  by (simp add: reapExpired_def case_prod_beta storeConfig_def split: option.split)

lemma Apply_fst: "fst (Apply s nw r) = fst (ApplyExt s nw r)"
  by (simp add: Apply_def case_prod_beta)

lemma step_settings: "engine_step R e e' \<Longrightarrow> settings e' = settings e"
  by (induction rule: engine_step.induct)
    (simp_all add: plumPublish_def Let_def case_prod_beta merkleSetPaused_def plumSetPaused_def)

lemma tick_fields [simp]:
  "store (plumTick E e now) = store e" "peers (plumTick E e now) = peers e"
  "store (merkleTick E e) = store e" "peers (merkleTick E e) = peers e"
  "store (ProbePeer E e i) = store e" "peers (ProbePeer E e i) = peers e"
  "missingIHaves (merkleTick E e) = missingIHaves e" "missingIHaves (ProbePeer E e i) = missingIHaves e"
proof -
  have "store (foldl (graftEntry E now) e kes) = store e \<and> peers (foldl (graftEntry E now) e kes) = peers e" for kes
    by (induction kes arbitrary: e) (simp_all add: graftEntry_def Let_def case_prod_beta)
  then show "store (plumTick E e now) = store e" "peers (plumTick E e now) = peers e"
    by (simp_all add: plumTick_def processGrafts_def)
  have one: "store (tickTopic E e t) = store e \<and> peers (tickTopic E e t) = peers e \<and>
      missingIHaves (tickTopic E e t) = missingIHaves e" for e t
    by (simp add: tickTopic_def Let_def)
  have "store (foldl (tickTopic E) e ts) = store e \<and> peers (foldl (tickTopic E) e ts) = peers e \<and>
      missingIHaves (foldl (tickTopic E) e ts) = missingIHaves e" for ts
    by (induction ts arbitrary: e) (simp_all add: one)
  then show "store (merkleTick E e) = store e" "peers (merkleTick E e) = peers e"
    "missingIHaves (merkleTick E e) = missingIHaves e" by (simp_all add: merkleTick_def)
  have "store (foldl (\<lambda>e topic. sendProbe E e i topic None None) e ts) = store e \<and>
      peers (foldl (\<lambda>e topic. sendProbe E e i topic None None) e ts) = peers e \<and>
      missingIHaves (foldl (\<lambda>e topic. sendProbe E e i topic None None) e ts) = missingIHaves e" for ts
    by (induction ts arbitrary: e) simp_all
  then show "store (ProbePeer E e i) = store e" "peers (ProbePeer E e i) = peers e"
    "missingIHaves (ProbePeer E e i) = missingIHaves e" by (simp_all add: ProbePeer_def)
qed

subsection \<open>The store holds only legitimate records\<close>

text \<open>The setters change neither slots nor witnesses.\<close>

lemma setter_fields [simp]:
  "byTopic (SetObserverQuorum s k w) = byTopic s" "byTopic (SetObserverRoleCheck s fn) = byTopic s"
  "maxTopics (SetObserverQuorum s k w) = maxTopics s" "maxTopics (SetObserverRoleCheck s fn) = maxTopics s"
  "observerQuorum (SetObserverRoleCheck s fn) = observerQuorum s"
  by (simp_all add: SetObserverQuorum_def SetObserverRoleCheck_def)

lemma setter_wf [simp]:
  "wf_store (SetObserverQuorum s k w) = wf_store s" "wf_store (SetObserverRoleCheck s fn) = wf_store s"
  by (simp_all add: wf_store_def)

lemma provenance_cong: "byTopic s' = byTopic s \<Longrightarrow> provenance P q s' = provenance P q s"
  by (simp add: provenance_def slotMap_def witnessesOf_def)

lemma step_wf_store: "engine_step R e e' \<Longrightarrow> wf_store (store e) \<Longrightarrow> wf_store (store e')"
proof (induction rule: engine_step.induct)
  case (receive E e peer raw)
  then show ?case by (simp add: ReceiveFrame_store applyAll_wf)
qed (simp_all add: plumPublish_def Let_def case_prod_beta Apply_fst ApplyExt_wf reapExpired_wf
    tick_fields merkleSetPaused_def plumSetPaused_def)

lemma step_quorum:
  "engine_step R e e' \<Longrightarrow> runQuorum R \<le> observerQuorum (store e) \<Longrightarrow> runQuorum R \<le> observerQuorum (store e')"
proof (induction rule: engine_step.induct)
  case (receive E e peer raw)
  then show ?case by (simp add: ReceiveFrame_store storeConfigD(1) [OF applyAll_config])
qed (simp_all add: plumPublish_def Let_def case_prod_beta Apply_fst ApplyExt_configD(1)
    storeConfigD(1) [OF reapExpired_config] merkleSetPaused_def plumSetPaused_def)

lemma legit_settings:
  assumes "settings e = settings e'"
  shows "legit R (gate e) = legit R (gate e')"
proof -
  have "map_option gateConfig (gate e) = map_option gateConfig (gate e')"
    using assms by (simp add: settings_def)
  then have "acceptable E (gate e) r = acceptable E (gate e') r" for E r
    by (rule acceptable_config)
  then show ?thesis unfolding legit_def fun_eq_iff by (simp only: simp_thms)
qed

lemma step_provenance:
  assumes "engine_step R e e'" and "wf_store (store e)" and "runQuorum R \<le> observerQuorum (store e)"
    and "provenance (legit R (gate e)) (runQuorum R) (store e)"
  shows "provenance (legit R (gate e)) (runQuorum R) (store e')"
  using assms
proof (induction rule: engine_step.induct)
  case (receive E e peer raw)
  have "\<forall>r\<in>snd ` set (map (Pair (nowMs E)) (filter (acceptable E (gate e)) (inboundRecords E e raw))).
      legit R (gate e) r"
    using legit_acceptable [OF receive(1)] by auto
  then show ?case
    unfolding ReceiveFrame_store using receive(2-4) by (intro applyAll_provenance)
next
  case (publish E r e)
  have "legit R (gate e) r" using publish(2,3) by (simp add: legit_def)
  then show ?case
    using publish(4-6) by (simp add: plumPublish_def Let_def case_prod_beta Apply_fst ApplyExt_provenance)
next
  case (apply_own r e nw)
  then have "legit R (gate e) r" by (simp add: legit_def)
  then show ?case using apply_own(3-5) by (simp add: Apply_fst ApplyExt_provenance)
next
  case (set_quorum e k w)
  then show ?case using provenance_cong [of "SetObserverQuorum (store e) k w" "store e"] by simp
next
  case (set_role_check e fn)
  then show ?case using provenance_cong [of "SetObserverRoleCheck (store e) fn" "store e"] by simp
qed (simp_all add: reap_provenance merkleSetPaused_def plumSetPaused_def)

lemma reachable_provenance:
  assumes "(engine_step R)\<^sup>*\<^sup>* e0 e" and "wf_store (store e0)" and "byTopic (store e0) = []"
    and "runQuorum R \<le> observerQuorum (store e0)"
  shows "settings e = settings e0 \<and> wf_store (store e) \<and> runQuorum R \<le> observerQuorum (store e) \<and>
    provenance (legit R (gate e0)) (runQuorum R) (store e)"
  using assms(1)
proof (induction rule: rtranclp_induct)
  case base
  show ?case using assms(2-4) by (simp add: provenance_def slotMap_def witnessesOf_def)
next
  case (step e e')
  then have "settings e' = settings e0" using step_settings by metis
  moreover have "wf_store (store e')" using step step_wf_store by blast
  moreover have "runQuorum R \<le> observerQuorum (store e')" using step step_quorum by blast
  moreover have "provenance (legit R (gate e0)) (runQuorum R) (store e')"
    using step step_provenance [of R e e'] legit_settings [of e e0] by metis
  ultimately show ?case by blast
qed

text \<open>C6: No forged record enters the store: whatever bytes peers send and however frames, ticks, local
  publishes, settings, joins and reaping interleave, every record in a slot of a node that started
  empty is either a verified record (one the node published in this run, or one the gate accepts
  at a reading of the wall clock at which the run handled frames) or a tombstone for which
  pairwise different observers signed attestations, every one of them verified and accepted in the
  same way, at least as many as the least quorum that was in force during the run.\<close>

theorem only_legitimate_records_stored:
  assumes "(engine_step R)\<^sup>*\<^sup>* e0 e" and "wf_store (store e0)" and "byTopic (store e0) = []"
    and "runQuorum R \<le> observerQuorum (store e0)" and "slotMap (store e) t k = Some r"
  shows "legit R (gate e0) r \<or>
    (Tombstone r \<and>
     (\<exists>w. runQuorum R \<le> int (length w) \<and> distinct (map ObserverNodeID w) \<and>
       (\<forall>a\<in>set w. IsObserverAttestation a \<and> NodeID a = NodeID r \<and> Topic a = Topic r \<and> legit R (gate e0) a)))"
proof -
  have cases: "legit R (gate e0) r \<or> attested (legit R (gate e0)) (runQuorum R) r"
    using reachable_provenance [OF assms(1-4)] assms(5) by (simp add: provenance_def)
  show ?thesis
  proof (cases "legit R (gate e0) r")
    case False
    with cases obtain w where w: "Tombstone r" "wf_witnesses (Topic r) (NodeID r) w"
      "runQuorum R \<le> int (length w)" "\<forall>a\<in>snd ` set w. legit R (gate e0) a"
      by (auto simp only: attested_def)
    have eq: "map (ObserverNodeID \<circ> snd) w = map fst w" using w(2) by (auto simp: wf_witnesses_def)
    have "distinct (map ObserverNodeID (map snd w))"
      unfolding map_map eq using w(2) by (simp add: wf_witnesses_def)
    moreover have "\<forall>a\<in>snd ` set w. IsObserverAttestation a \<and> NodeID a = NodeID r \<and> Topic a = Topic r"
      using w(2) by (auto simp: wf_witnesses_def)
    ultimately show ?thesis
      using w by (intro disjI2 conjI exI [of _ "map snd w"]) simp_all
  qed simp
qed

text \<open>A run that publishes nothing itself and handles one frame.\<close>

definition sampleRun :: runContext where
  "sampleRun = \<lparr>runCrypto = sampleCrypto, runOwn = {}, runWalls = {clk_wall sampleEnv}, runQuorum = 2\<rparr>"

theorem only_legitimate_records_stored_witness:
  "legit sampleRun None sampleSigned"
proof -
  define raw where "raw = frameEagerPush sampleSigned 4"
  define E where "E = sampleEnv\<lparr>wr := sampleWire [raw]\<rparr>"
  let ?init = "sampleEngine newRecordStore"
  let ?fin = "fst (ReceiveFrame E ?init [2] [0])"
  have live: "\<not> Tombstone sampleSigned"
    by (simp add: sampleSigned_def signRecord_def Let_def zero_record_def)
  have un: "Unmarshal (wr E) [0] = Some raw" by (simp add: E_def sampleWire_def)
  have acc: "acceptable E (gate ?init) sampleSigned"
    using sampleSigned_inbound by (simp add: acceptable_def sampleEngine_def E_def verifyInbound_def)
  have "store ?fin = applyAll newRecordStore [(nowMs E, sampleSigned)]"
    using un acc by (simp add: ReceiveFrame_store inboundRecords_def raw_def frameEagerPush_def sampleEngine_def)
  moreover have "slotMap (applyAll newRecordStore [(nowMs E, sampleSigned)]) (Topic sampleSigned) (keyOf sampleSigned)
      = Some sampleSigned"
    using live by (simp add: slotMap_def store_eval sampleSigned_fields)
  ultimately have held: "slotMap (store ?fin) (Topic sampleSigned) (keyOf sampleSigned) = Some sampleSigned" by simp
  have "engine_step sampleRun ?init ?fin"
    by (rule receive) (simp add: during_def sampleRun_def E_def sampleEnv_def)
  then have run: "(engine_step sampleRun)\<^sup>*\<^sup>* ?init ?fin" by (rule r_into_rtranclp)
  have store: "store ?init = newRecordStore" by (simp add: sampleEngine_def)
  have "wf_store (store ?init)" "byTopic (store ?init) = []" "runQuorum sampleRun \<le> observerQuorum (store ?init)"
    unfolding store by (simp, simp_all add: newRecordStore_def setCaps_def sampleRun_def DefaultObserverQuorum_def)
  from only_legitimate_records_stored [OF run this held]
  show ?thesis using live by (simp add: sampleEngine_def)
qed

subsection \<open>Bounds\<close>

definition peersOK :: "engine \<Rightarrow> bool" where
  "peersOK e \<longleftrightarrow> wf_peers (peers e) \<and> int (card (treeSet (peers e))) \<le> maxTreeEdges e"

definition trackerOK :: "engine \<Rightarrow> bool" where
  "trackerOK e \<longleftrightarrow> wf_map (missingIHaves e) \<and> int (length (missingIHaves e)) \<le> maxIHaves e"

lemma wf_foldl_SetTreeEdge:
  "wf_peers pt \<Longrightarrow> wf_peers (foldl (\<lambda>pt i. SetTreeEdge pt i True wall) pt is)"
  by (induction "is" arbitrary: pt) (simp_all add: wf_ops)

lemma peersOK_promote [simp]: "peersOK e \<Longrightarrow> peersOK (promoteTreeEdgeBounded E e from)"
  by (auto simp: peersOK_def promoteTreeEdgeBounded_def wf_ops length_TreeEdges maxTreeEdges_def card_insert_if)

lemma peersOK_best: 
  assumes "peersOK e"
  shows "peersOK (fst (bestTreeEdges E e))"
proof (cases "int (length (TreeEdges (peers e))) \<ge> treeDeg e")
  case True
  with assms show ?thesis by (simp add: bestTreeEdges_def)
next
  case False
  let ?n = "nat (treeDeg e - int (length (TreeEdges (peers e))))"
  let ?chosen = "take ?n (sort_slice (lessPriority (peers e)) (NonTreeEdges (peers e)))"
  have wf: "wf_peers (peers e)" using assms by (simp add: peersOK_def)
  have "card (set ?chosen) \<le> ?n" using card_length [of ?chosen] by simp
  moreover have "card (treeSet (peers e) \<union> set ?chosen) \<le> card (treeSet (peers e)) + card (set ?chosen)"
    by (rule card_Un_le)
  ultimately have "int (card (treeSet (peers e) \<union> set ?chosen)) \<le> treeDeg e"
    using False length_TreeEdges [OF wf] by linarith
  then show ?thesis
    using False wf
    by (simp add: bestTreeEdges_def Let_def peersOK_def treeSet_foldl wf_foldl_SetTreeEdge maxTreeEdges_def)
qed

lemma peersOK_cong: "peers e = peers e' \<Longrightarrow> treeDeg e = treeDeg e' \<Longrightarrow> peersOK e = peersOK e'"
  by (simp add: peersOK_def maxTreeEdges_def)

lemma peersOK_sendTo [simp]:
  "peersOK (sendTo e is b) = peersOK e" "peersOK (sendFrame E e to f) = peersOK e"
  "peersOK (sendUnchecked E e to f) = peersOK e"
  by (simp_all add: peersOK_def maxTreeEdges_def sendTo_def)

lemma peersOK_lazyPush [simp]:
  assumes "peersOK e"
  shows "peersOK (lazyPushToNonTreeEdges E e r)"
proof -
  have "peersOK (lazyPushPeer E r bh b e p)" if "peersOK e" for bh b e p
    using that
    by (simp add: lazyPushPeer_def Let_def case_prod_beta) (simp add: peersOK_def maxTreeEdges_def wf_ops)
  then have "peersOK (foldl (lazyPushPeer E r bh b) e ps)" if "peersOK e" for bh b ps
    using that by (induction ps arbitrary: e) simp_all
  with assms show ?thesis by (simp add: lazyPushToNonTreeEdges_def Let_def split: option.split)
qed

lemma peersOK_eager [simp]:
  assumes "peersOK e"
  shows "peersOK (eagerPushToTreeEdges E e r)" and "peersOK (eagerForward E e from r ttl)"
    and "peersOK (relayAttestation E e from r ttl)" and "peersOK (sendPrune E e from t)"
    and "peersOK (Broadcast E e r)"
  using assms
  by (simp_all add: eagerPushToTreeEdges_def eagerForward_def relayAttestation_def sendPrune_def
      Broadcast_def case_prod_beta peersOK_best split: option.split)

lemma peersOK_afterApply [simp]: "peersOK (fst (afterApply E e r)) = peersOK e"
  by (rule peersOK_cong) simp_all

lemma peersOK_handleEager [simp]:
  assumes "peersOK e"
  shows "peersOK (handleEager E e from ep)"
proof (cases rule: handleEager_cases [of ep E e "from"])
  case (rejected pr)
  have "peersOK (fst (admitInbound E e (recordFromProto pr))) = peersOK e" by (rule peersOK_cong) simp_all
  with assms rejected(3) show ?thesis by auto
next
  case (applied r replaced accumulated)
  have upd: "peersOK (e\<lparr>missingIHaves := x\<rparr>) = peersOK e" "peersOK (notifyApplied e r) = peersOK e" for e x
    by (simp_all add: peersOK_def maxTreeEdges_def notifyApplied_def)
  with assms applied(4) show ?thesis by (simp add: deliverEager_def Let_def)
qed (use assms in simp_all)

lemma HandleRange_fields:
  "peers (HandleRange E e from p) = peers e" "missingIHaves (HandleRange E e from p) = missingIHaves e"
proof -
  have one: "peers (applyRangeRecord E e pr) = peers e \<and> missingIHaves (applyRangeRecord E e pr) = missingIHaves e"
    for e pr
    by (simp add: applyRangeRecord_def Let_def case_prod_beta observeHLC_def applyStore_def notifyApplied_def)
  have "peers (foldl (applyRangeRecord E) e prs) = peers e \<and>
      missingIHaves (foldl (applyRangeRecord E) e prs) = missingIHaves e" for prs
    by (induction prs arbitrary: e) (simp_all add: one)
  then show "peers (HandleRange E e from p) = peers e" "missingIHaves (HandleRange E e from p) = missingIHaves e"
    by (simp_all add: HandleRange_def Let_def)
qed

lemma settings_bounds:
  "settings e = settings e' \<Longrightarrow> treeDeg e = treeDeg e'" "settings e = settings e' \<Longrightarrow> maxIHaves e = maxIHaves e'"
  by (simp_all add: settings_def)

lemma peersOK_receive:
  assumes "peersOK e"
  shows "peersOK (fst (ReceiveFrame E e from raw))"
proof -
  have same: "peersOK (HandleProbe E e from p) = peersOK e" "peersOK (HandleRange E e from q) = peersOK e"
    "peersOK (handleIHave E e from ih) = peersOK e" "peersOK (e\<lparr>calls := cs\<rparr>) = peersOK e" for p q ih cs
    by (rule peersOK_cong; simp add: HandleRange_fields settings_bounds [OF settings_HandleRange])+
  have "peersOK (handlePrune E e from p)" for p
  proof -
    have "card (treeSet (peers e) - {from}) \<le> card (treeSet (peers e))" by (rule card_Diff1_le)
    with assms show ?thesis by (simp add: handlePrune_def peersOK_def maxTreeEdges_def wf_ops)
  qed
  moreover have "peersOK (handleGraft E e from g)" for g
    using assms by (simp add: handleGraft_def Let_def split: option.split)
  ultimately show ?thesis
    using assms same by (simp add: ReceiveFrame_def split: sum.split Frame.split)
qed

subsection \<open>The announcement tracker\<close>

definition expiredIHave :: "instant \<Rightarrow> ihaveEntry \<Rightarrow> bool" where
  "expiredIHave now en \<longleftrightarrow> now - seenAt en > ihaveEntryTTL"

definition graftDue :: "duration \<Rightarrow> instant \<Rightarrow> ihaveEntry \<Rightarrow> bool" where
  "graftDue delay now en \<longleftrightarrow>
     \<not> expiredIHave now en \<and> \<not> grafted en \<and> now - seenAt en \<ge> delay"

text \<open>The keys one tick grafts, and the frame for one of them.\<close>

definition dueKeys :: "engine \<Rightarrow> instant \<Rightarrow> ihaveKey list" where
  "dueKeys e now = map fst (filter (\<lambda>(_, en). graftDue (graftDelay e) now en) (missingIHaves e))"

definition graftMsg :: "env \<Rightarrow> engine \<Rightarrow> ihaveKey \<Rightarrow> NodeID \<times> bytes" where
  "graftMsg E e k =
     (announcer (the (map_of (missingIHaves e) k)),
      case encodeFrame (wr E) (frameGraft (ik_topic k) (ik_nodeID k) (ik_key k) (ik_hlc k)) of
        None \<Rightarrow> [] | Some b \<Rightarrow> b)"

lemma graftEntry_eq:
  "graftEntry E now e (k, en) =
     (if expiredIHave now en then e\<lparr>missingIHaves := AList.delete k (missingIHaves e)\<rparr>
      else if graftDue (graftDelay e) now en
      then (sendUnchecked E e (announcer en) (frameGraft (ik_topic k) (ik_nodeID k) (ik_key k) (ik_hlc k)))
             \<lparr>missingIHaves := AList.update k (en\<lparr>grafted := True\<rparr>) (missingIHaves e)\<rparr>
      else e)"
  by (auto simp: graftEntry_def Let_def expiredIHave_def graftDue_def)

lemma graftEntry_fields [simp]:
  "graftDelay (graftEntry E now e ke) = graftDelay e" "maxIHaves (graftEntry E now e ke) = maxIHaves e"
  by (cases ke; simp add: graftEntry_eq)+

lemma foldl_graftEntry:
  assumes "distinct (map fst kes)"
  shows "map_of (missingIHaves (foldl (graftEntry E now) e kes)) k =
      (case map_of kes k of
         None \<Rightarrow> map_of (missingIHaves e) k
       | Some en \<Rightarrow> if expiredIHave now en then None
                    else if graftDue (graftDelay e) now en then Some (en\<lparr>grafted := True\<rparr>)
                    else map_of (missingIHaves e) k) \<and>
    (wf_map (missingIHaves e) \<longrightarrow> wf_map (missingIHaves (foldl (graftEntry E now) e kes))) \<and>
    graftDelay (foldl (graftEntry E now) e kes) = graftDelay e \<and>
    maxIHaves (foldl (graftEntry E now) e kes) = maxIHaves e"
  using assms
proof (induction kes arbitrary: e)
  case Nil
  then show ?case by simp
next
  case (Cons ke kes)
  obtain k' en where ke: "ke = (k', en)" by (cases ke)
  with Cons.prems have "map_of kes k' = None" by (auto simp: map_of_eq_None_iff)
  with Cons ke show ?case
    by (auto simp: graftEntry_eq delete_conv' distinct_update distinct_delete split: option.split)
qed

lemma plumTick_lookup:
  assumes "wf_map (missingIHaves e)"
  shows "map_of (missingIHaves (plumTick E e now)) k =
      (case map_of (missingIHaves e) k of
         None \<Rightarrow> None
       | Some en \<Rightarrow> if expiredIHave now en then None
                    else Some (if graftDue (graftDelay e) now en then en\<lparr>grafted := True\<rparr> else en))"
    and "wf_map (missingIHaves (plumTick E e now))" and "graftDelay (plumTick E e now) = graftDelay e"
    and "length (missingIHaves (plumTick E e now)) \<le> length (missingIHaves e)"
proof -
  note fold = foldl_graftEntry [OF assms, of E now e, folded processGrafts_def, folded plumTick_def]
  show look: "map_of (missingIHaves (plumTick E e now)) k =
      (case map_of (missingIHaves e) k of
         None \<Rightarrow> None
       | Some en \<Rightarrow> if expiredIHave now en then None
                    else Some (if graftDue (graftDelay e) now en then en\<lparr>grafted := True\<rparr> else en))" for k
    using fold by (auto split: option.split)
  show wf: "wf_map (missingIHaves (plumTick E e now))" and "graftDelay (plumTick E e now) = graftDelay e"
    using fold assms by simp_all
  have "mkeys (missingIHaves (plumTick E e now)) \<subseteq> mkeys (missingIHaves e)"
  proof
    fix k assume "k \<in> mkeys (missingIHaves (plumTick E e now))"
    then have "map_of (missingIHaves (plumTick E e now)) k \<noteq> None" by (simp add: map_of_eq_None_iff)
    with look [of k] have "map_of (missingIHaves e) k \<noteq> None" by (cases "map_of (missingIHaves e) k") simp_all
    then show "k \<in> mkeys (missingIHaves e)" by (simp add: map_of_eq_None_iff)
  qed
  then have "card (mkeys (missingIHaves (plumTick E e now))) \<le> card (mkeys (missingIHaves e))"
    by (intro card_mono) simp_all
  then show "length (missingIHaves (plumTick E e now)) \<le> length (missingIHaves e)"
    using distinct_card [OF wf] distinct_card [OF assms] by simp
qed

lemma plumTick_sent:
  assumes "wf_map (missingIHaves e)"
  shows "sent (plumTick E e now) = sent e @ map (graftMsg E e) (dueKeys e now)"
proof -
  have "sent (foldl (graftEntry E now) e' kes) = sent e' @ map (graftMsg E e)
      (map fst (filter (\<lambda>(_, en). graftDue (graftDelay e) now en) kes))"
    if "graftDelay e' = graftDelay e" "set kes \<subseteq> set (missingIHaves e)" for e' kes
    using that
  proof (induction kes arbitrary: e')
    case Nil
    then show ?case by simp
  next
    case (Cons ke kes)
    obtain k en where ke: "ke = (k, en)" by (cases ke)
    then have "map_of (missingIHaves e) k = Some en" using Cons.prems assms by simp
    then have "sent (graftEntry E now e' ke) =
        sent e' @ (if graftDue (graftDelay e) now en then [graftMsg E e k] else [])"
      using ke Cons.prems(1)
      by (auto simp: graftEntry_eq graftMsg_def sendUnchecked_def graftDue_def)
    with Cons ke show ?case by simp
  qed
  from this [of e "missingIHaves e"] show ?thesis
    by (simp add: plumTick_def processGrafts_def dueKeys_def)
qed

lemma count_list_distinct: "distinct xs \<Longrightarrow> count_list xs x = (if x \<in> set xs then 1 else 0)"
  by (induction xs) auto

lemma dueKeys_iff:
  assumes "wf_map (missingIHaves e)"
  shows "count_list (dueKeys e now) k =
    (case map_of (missingIHaves e) k of
       Some en \<Rightarrow> if graftDue (graftDelay e) now en then 1 else 0 | None \<Rightarrow> 0)"
proof -
  have "distinct (dueKeys e now)" using assms by (simp add: dueKeys_def distinct_map_filter)
  then have "count_list (dueKeys e now) k = (if k \<in> set (dueKeys e now) then 1 else 0)"
    by (rule count_list_distinct)
  moreover have "k \<in> set (dueKeys e now) \<longleftrightarrow>
      (\<exists>en. map_of (missingIHaves e) k = Some en \<and> graftDue (graftDelay e) now en)"
    using assms by (force simp: dueKeys_def)
  ultimately show ?thesis by (auto split: option.split)
qed

text \<open>The grafts a sequence of ticks sends, and the state after it.\<close>

fun graftLog :: "engine \<Rightarrow> (env \<times> instant) list \<Rightarrow> ihaveKey list" where
  "graftLog e [] = []"
| "graftLog e ((E, now) # ts) = dueKeys e now @ graftLog (plumTick E e now) ts"

definition plumTicks :: "engine \<Rightarrow> (env \<times> instant) list \<Rightarrow> engine" where
  "plumTicks e ts = foldl (\<lambda>e (E, now). plumTick E e now) e ts"

lemma graftLog_done:
  assumes "wf_map (missingIHaves e)"
    and "case map_of (missingIHaves e) k of None \<Rightarrow> True | Some en \<Rightarrow> grafted en"
  shows "count_list (graftLog e ts) k = 0"
  using assms
proof (induction e ts rule: graftLog.induct)
  case (1 e)
  show ?case by simp
next
  case (2 e E now ts)
  have "count_list (dueKeys e now) k = 0"
    using dueKeys_iff [OF 2(2), of now k] 2(3) by (auto simp: graftDue_def split: option.splits)
  moreover have "count_list (graftLog (plumTick E e now) ts) k = 0"
    using 2(1,3) plumTick_lookup [OF 2(2), of E now]
    by (intro 2(1)) (auto split: option.splits)
  ultimately show ?case by simp
qed

lemma plumTicks_gone:
  assumes "wf_map (missingIHaves e)" and "map_of (missingIHaves e) k = None"
  shows "map_of (missingIHaves (plumTicks e ts)) k = None"
  using assms
proof (induction ts arbitrary: e)
  case (Cons t ts)
  then show ?case
    using plumTick_lookup [OF Cons.prems(1)] by (cases t) (simp add: plumTicks_def)
qed (simp add: plumTicks_def)

lemma ihave_expires:
  assumes "wf_map (missingIHaves e)" and "map_of (missingIHaves e) k = Some en"
    and "\<exists>now\<in>snd ` set ts. expiredIHave now en"
  shows "map_of (missingIHaves (plumTicks e ts)) k = None"
  using assms
proof (induction ts arbitrary: e en)
  case (Cons t ts)
  obtain E now where t: "t = (E, now)" by (cases t)
  note tick = plumTick_lookup [OF Cons.prems(1), of E now]
  show ?case
  proof (cases "expiredIHave now en")
    case True
    then have "map_of (missingIHaves (plumTick E e now)) k = None" using tick(1) [of k] Cons.prems(2) by simp
    then show ?thesis using plumTicks_gone [OF tick(2)] t by (simp add: plumTicks_def)
  next
    case False
    let ?en = "if graftDue (graftDelay e) now en then en\<lparr>grafted := True\<rparr> else en"
    have "map_of (missingIHaves (plumTick E e now)) k = Some ?en"
      using tick(1) [of k] Cons.prems(2) False by simp
    moreover have "\<exists>now\<in>snd ` set ts. expiredIHave now ?en"
      using Cons.prems(3) False t by (auto simp: expiredIHave_def)
    ultimately have "map_of (missingIHaves (plumTicks (plumTick E e now) ts)) k = None"
      by (rule Cons.IH [OF tick(2)])
    then show ?thesis using t by (simp add: plumTicks_def)
  qed
qed simp

lemma graftLog_count:
  assumes "wf_map (missingIHaves e)" and "map_of (missingIHaves e) k = Some en" and "\<not> grafted en"
    and "sorted (map snd ts)"
  shows "count_list (graftLog e ts) k = (if \<exists>now\<in>snd ` set ts. graftDue (graftDelay e) now en then 1 else 0)"
  using assms
proof (induction e ts rule: graftLog.induct)
  case (1 e)
  show ?case by simp
next
  case (2 e E now ts)
  note tick = plumTick_lookup [OF 2(2), of E now]
  have due: "count_list (dueKeys e now) k = (if graftDue (graftDelay e) now en then 1 else 0)"
    using dueKeys_iff [OF 2(2)] 2(3) by simp
  have later: "now \<le> t" if "t \<in> snd ` set ts" for t using that 2(5) by auto
  consider "expiredIHave now en" | "graftDue (graftDelay e) now en"
    | "\<not> expiredIHave now en" "\<not> graftDue (graftDelay e) now en" by blast
  then show ?case
  proof cases
    case 1
    then have "map_of (missingIHaves (plumTick E e now)) k = None" using tick(1) [of k] 2(3) by simp
    then have "count_list (graftLog (plumTick E e now) ts) k = 0"
      using graftLog_done [OF tick(2), of k ts] by simp
    moreover have "\<not> graftDue (graftDelay e) t en" if "t = now \<or> t \<in> snd ` set ts" for t
      using that later 1 by (fastforce simp: graftDue_def expiredIHave_def)
    ultimately show ?thesis using due by simp
  next
    case 2
    then have "map_of (missingIHaves (plumTick E e now)) k = Some (en\<lparr>grafted := True\<rparr>)"
      using tick(1) [of k] \<open>map_of (missingIHaves e) k = Some en\<close> by (simp add: graftDue_def)
    then have "count_list (graftLog (plumTick E e now) ts) k = 0"
      using graftLog_done [OF tick(2), of k ts] by simp
    with 2 due show ?thesis by simp
  next
    case 3
    then have "map_of (missingIHaves (plumTick E e now)) k = Some en"
      using tick(1) [of k] 2(3) by simp
    from 2(1) [OF tick(2) this 2(4)] 2(5) 3 due tick(3) show ?thesis by simp
  qed
qed

text \<open>C15: Every announcement is grafted once: an announcement still missing at the tick that first falls
  between the graft delay and thirty seconds after it was seen makes that tick send one GRAFT to
  its announcer, no earlier and no later tick sends another one for it, and a tick past thirty
  seconds has forgotten it. One tick sends exactly the GRAFTs of the announcements due at it.\<close>

theorem graft_exactly_once:
  assumes "wf_map (missingIHaves e)" and "map_of (missingIHaves e) k = Some en" and "\<not> grafted en"
    and "sorted (map snd ts)"
  shows "count_list (graftLog e ts) k =
      (if \<exists>now\<in>snd ` set ts. graftDelay e \<le> now - seenAt en \<and> now - seenAt en \<le> 30 * second then 1 else 0) \<and>
    ((\<exists>now\<in>snd ` set ts. now - seenAt en > 30 * second) \<longrightarrow> map_of (missingIHaves (plumTicks e ts)) k = None) \<and>
    sent (plumTick E e now) = sent e @ map (graftMsg E e) (dueKeys e now)"
proof -
  have "graftDue (graftDelay e) t en \<longleftrightarrow> graftDelay e \<le> t - seenAt en \<and> t - seenAt en \<le> 30 * second" for t
    using assms(3) by (auto simp: graftDue_def expiredIHave_def ihaveEntryTTL_def)
  then show ?thesis
    using graftLog_count [OF assms] ihave_expires [OF assms(1,2), of ts] plumTick_sent [OF assms(1)]
    by (simp add: expiredIHave_def ihaveEntryTTL_def)
qed

theorem graft_exactly_once_witness:
  "let k = IHaveKey [116] [5] [] 9;
       en = \<lparr>announcer = [2], ie_bodyHash = [], seenAt = 0, grafted = False\<rparr>;
       e = (sampleEngine newRecordStore)\<lparr>missingIHaves := [(k, en)]\<rparr>;
       ts = map (\<lambda>n. (sampleEnv, n * millisecond)) [50, 100, 200, 250, 31000]
   in count_list (graftLog e ts) k = 1 \<and> map_of (missingIHaves (plumTicks e ts)) k = None"
proof -
  let ?k = "IHaveKey [116] [5] [] 9"
  let ?en = "\<lparr>announcer = [2], ie_bodyHash = [], seenAt = 0, grafted = False\<rparr>"
  let ?e = "(sampleEngine newRecordStore)\<lparr>missingIHaves := [(?k, ?en)]\<rparr>"
  let ?ts = "map (\<lambda>n. (sampleEnv, n * millisecond)) [50, 100, 200, 250, 31000]"
  have "wf_map (missingIHaves ?e)" "map_of (missingIHaves ?e) ?k = Some ?en" "\<not> grafted ?en"
    "sorted (map snd ?ts)" by (simp_all add: millisecond_def)
  from graft_exactly_once [OF this] show ?thesis
    unfolding Let_def by (simp add: sampleEngine_def millisecond_def second_def)
qed

subsection \<open>Bounds of reachable states\<close>

lemma step_peersOK: "engine_step R e e' \<Longrightarrow> peersOK e \<Longrightarrow> peersOK e'"
proof (induction rule: engine_step.induct)
  case (receive E e peer raw)
  then show ?case by (simp add: peersOK_receive)
next
  case (graft_tick E e now)
  have "peersOK (plumTick E e now) = peersOK e"
    by (rule peersOK_cong) (simp_all add: settings_bounds [OF settings_tick])
  with graft_tick show ?case by simp
next
  case (merkle_tick E e)
  have "peersOK (merkleTick E e) = peersOK e"
    by (rule peersOK_cong) (simp_all add: settings_bounds [OF settings_merkle(1)])
  with merkle_tick show ?case by simp
next
  case (probe E e i)
  have "peersOK (ProbePeer E e i) = peersOK e"
    by (rule peersOK_cong) (simp_all add: settings_bounds [OF settings_merkle(2)])
  with probe show ?case by simp
next
  case (publish E r e)
  have "peersOK (e\<lparr>store := s\<rparr>) = peersOK e" for s by (simp add: peersOK_def maxTreeEdges_def)
  with publish show ?case by (simp add: plumPublish_def Let_def case_prod_beta)
next
  case (broadcast E e r)
  then show ?case by simp
next
  case (leave e i)
  have "card (treeSet (peers e) - {i}) \<le> card (treeSet (peers e))" by (rule card_Diff1_le)
  with leave show ?case by (simp add: peersOK_def maxTreeEdges_def wf_ops)
qed (simp_all add: peersOK_def maxTreeEdges_def merkleSetPaused_def plumSetPaused_def wf_Ensure)

lemma trackerOK_cong: "missingIHaves e = missingIHaves e' \<Longrightarrow> maxIHaves e = maxIHaves e' \<Longrightarrow> trackerOK e = trackerOK e'"
  by (simp add: trackerOK_def)

lemma trackerOK_receive:
  assumes "trackerOK e"
  shows "trackerOK (fst (ReceiveFrame E e from raw))"
proof -
  have same: "trackerOK (HandleProbe E e from p) = trackerOK e" "trackerOK (HandleRange E e from q) = trackerOK e"
    "trackerOK (handleGraft E e from g) = trackerOK e" "trackerOK (handlePrune E e from pr) = trackerOK e"
    "trackerOK (e\<lparr>calls := cs\<rparr>) = trackerOK e" for p q g pr cs
    by (rule trackerOK_cong; simp add: HandleRange_fields settings_bounds [OF settings_HandleRange])+
  have "trackerOK (handleIHave E e from ih)" for ih
    using assms by (auto simp: trackerOK_def handleIHave_def Let_def distinct_update length_update
        mkeys_map_of split: option.split)
  moreover have "trackerOK (handleEager E e from ep)" for ep
  proof -
    have "missingIHaves (handleEager E e from ep) = missingIHaves e \<or>
        (\<exists>k. missingIHaves (handleEager E e from ep) = AList.delete k (missingIHaves e))"
      by (cases rule: handleEager_cases [of ep E e "from"]) auto
    moreover have "int (length (AList.delete k (missingIHaves e))) \<le> maxIHaves e" for k
      using assms length_delete_le [of k "missingIHaves e"] by (simp add: trackerOK_def)
    ultimately show ?thesis
      using assms handleEager_store(4) [of E e "from" ep]
      by (auto simp: trackerOK_def distinct_delete)
  qed
  ultimately show ?thesis
    using assms same by (simp add: ReceiveFrame_def split: sum.split Frame.split)
qed

lemma step_trackerOK: "engine_step R e e' \<Longrightarrow> trackerOK e \<Longrightarrow> trackerOK e'"
proof (induction rule: engine_step.induct)
  case (receive E e peer raw)
  then show ?case by (simp add: trackerOK_receive)
next
  case (graft_tick E e now)
  then show ?case
    using plumTick_lookup(2,4) [of e E now] settings_bounds(2) [OF settings_tick [of E e now]]
    by (auto simp: trackerOK_def)
next
  case (merkle_tick E e)
  have "trackerOK (merkleTick E e) = trackerOK e"
    by (rule trackerOK_cong) (simp_all add: settings_bounds [OF settings_merkle(1)])
  with merkle_tick show ?case by simp
next
  case (probe E e i)
  have "trackerOK (ProbePeer E e i) = trackerOK e"
    by (rule trackerOK_cong) (simp_all add: settings_bounds [OF settings_merkle(2)])
  with probe show ?case by simp
qed (simp_all add: trackerOK_def plumPublish_def Let_def case_prod_beta merkleSetPaused_def plumSetPaused_def)

text \<open>C16: Peers cannot inflate a node's state: in every state reachable by any frames and calls from one
  within the bounds, the announcements tracked stay at most \<open>maxIHaves\<close>, the tree edges at most
  four times the tree degree, the lazy queues within the peers' backpressure limits, and one
  eager push goes to at most four times the tree degree of peers.\<close>

theorem engine_bounds:
  assumes "(engine_step R)\<^sup>*\<^sup>* e0 e" and "peersOK e0" and "trackerOK e0"
  shows "int (length (missingIHaves e)) \<le> maxIHaves e0 \<and>
    int (length (TreeEdges (peers e))) \<le> 4 * treeDeg e0 \<and> wf_peers (peers e) \<and>
    int (length (snd (bestTreeEdges E e))) \<le> 4 * treeDeg e0"
proof -
  have "peersOK e \<and> trackerOK e \<and> settings e = settings e0"
    using assms(1)
  proof (induction rule: rtranclp_induct)
    case base
    show ?case using assms(2,3) by simp
  next
    case (step e e')
    then show ?case using step_peersOK step_trackerOK step_settings by metis
  qed
  then have ok: "peersOK e" "trackerOK e" and cfg: "treeDeg e = treeDeg e0" "maxIHaves e = maxIHaves e0"
    by (simp_all add: settings_def)
  then have wf: "wf_peers (peers e)" and cur: "int (length (TreeEdges (peers e))) \<le> 4 * treeDeg e0"
    by (simp_all add: peersOK_def maxTreeEdges_def length_TreeEdges)
  have "int (length (snd (bestTreeEdges E e))) \<le> 4 * treeDeg e0"
  proof (cases "int (length (TreeEdges (peers e))) \<ge> treeDeg e")
    case True
    with cur show ?thesis by (simp add: bestTreeEdges_def)
  next
    case False
    then have "int (length (snd (bestTreeEdges E e))) \<le> treeDeg e" by (simp add: bestTreeEdges_def Let_def)
    with False cfg show ?thesis by linarith
  qed
  with wf cur ok(2) cfg show ?thesis by (simp add: trackerOK_def)
qed

theorem engine_bounds_witness:
  "let E = sampleEnv\<lparr>wr := sampleWire [frameGraft [116] [5] [] 9]\<rparr>;
       e = fst (ReceiveFrame E (sampleEngine newRecordStore) [2] [0])
   in TreeEdges (peers e) = [[2]] \<and> int (length (snd (bestTreeEdges E e))) \<le> 16"
proof -
  let ?init = "sampleEngine newRecordStore"
  let ?E = "sampleEnv\<lparr>wr := sampleWire [frameGraft [116] [5] [] 9]\<rparr>"
  let ?fin = "fst (ReceiveFrame ?E ?init [2] [0])"
  have "peersOK ?init" "trackerOK ?init"
    by (simp_all add: peersOK_def trackerOK_def sampleEngine_def newPeerTable_def wf_peers_def treeSet_def
        maxTreeEdges_def)
  moreover have "(engine_step sampleRun)\<^sup>*\<^sup>* ?init ?fin"
    by (rule r_into_rtranclp, rule receive) (simp add: during_def sampleRun_def sampleEnv_def)
  ultimately have "int (length (snd (bestTreeEdges ?E ?fin))) \<le> 4 * treeDeg ?init"
    using engine_bounds by blast
  moreover have "TreeEdges (peers ?fin) = [[2]]"
    by (simp add: ReceiveFrame_def decodeFrame_def sampleWire_def frameGraft_def handleGraft_def Let_def
        getRawKeyed_slotMap slotMap_def sampleEngine_def newRecordStore_def setCaps_def
        promoteTreeEdgeBounded_def TreeEdges_def newPeerTable_def maxTreeEdges_def SetTreeEdge_def Ensure_def
        putPeer_def)
  ultimately show ?thesis unfolding Let_def by (simp add: sampleEngine_def)
qed

end
