(* ===== verification/Flood.thy ===== *)
theory Flood
  imports Gossip
begin

text \<open>
  The flood of eager pushes through a network of nodes: what a node sends in reaction to an eager
  frame, and why any sequence of deliveries of such frames comes to an end.
\<close>

subsection \<open>Frames sent in reaction to an eager push\<close>

text \<open>What is relied on of the wire format for the frames a push sends.\<close>

definition isPush :: "Frame \<Rightarrow> bool" where
  "isPush f = (case f of Frame_Eager _ \<Rightarrow> True | Frame_Ihave _ \<Rightarrow> True | Frame_Prune _ \<Rightarrow> True | _ \<Rightarrow> False)"

definition push_codec_ok :: "wire \<Rightarrow> bool" where
  "push_codec_ok W \<longleftrightarrow> (\<forall>f b. isPush f \<longrightarrow> Marshal W f = Some b \<longrightarrow> Unmarshal W b = Some f)"

text \<open>
  A frame sent on handling \<open>ep\<close> from \<open>peer\<close>: the same record with the time to live one lower, not
  to the sender; or an announcement; or a prune.
\<close>

definition reaction :: "wire \<Rightarrow> NodeID \<Rightarrow> EagerPush \<Rightarrow> NodeID \<times> bytes \<Rightarrow> bool" where
  "reaction W peer ep m \<longleftrightarrow>
     (\<exists>f. Marshal W f = Some (snd m) \<and> isPush f \<and>
        (case f of
           Frame_Eager ep' \<Rightarrow> ep_Record ep' = ep_Record ep \<and> 1 < ep_Ttl ep \<and>
             ep_Ttl ep' = ep_Ttl ep - 1 \<and> fst m \<noteq> peer
         | _ \<Rightarrow> True))"

text \<open>The messages appended by an operation all satisfy a predicate.\<close>

definition emits :: "(NodeID \<times> bytes \<Rightarrow> bool) \<Rightarrow> engine \<Rightarrow> engine \<Rightarrow> bool" where
  "emits P e e' \<longleftrightarrow> (\<exists>new. sent e' = sent e @ new \<and> (\<forall>m\<in>set new. P m))"

lemma emits_refl [simp]: "sent e = sent e' \<Longrightarrow> emits P e e'"
  by (simp add: emits_def)

lemma emits_trans: "emits P e e' \<Longrightarrow> emits P e' e'' \<Longrightarrow> emits P e e''"
  unfolding emits_def by (metis (no_types, lifting) Un_iff append.assoc set_append)

lemma emits_sent_cong: "sent e = sent f \<Longrightarrow> sent e' = sent f' \<Longrightarrow> emits P e e' = emits P f f'"
  by (simp add: emits_def)

lemma emits_sendTo: "\<forall>i\<in>set is. P (i, b) \<Longrightarrow> emits P e (sendTo e is b)"
  by (auto simp: emits_def sendTo_def)

lemma emits_sendFrame:
  "(\<And>b. encodeFrame (wr E) f = Some b \<Longrightarrow> P (to, b)) \<Longrightarrow> emits P e (sendFrame E e to f)"
  by (auto simp: sendFrame_def emits_def split: option.split)

lemma sent_promote [simp]: "sent (promoteTreeEdgeBounded E e from) = sent e"
  by (simp add: promoteTreeEdgeBounded_def)

lemma sent_best [simp]: "sent (fst (bestTreeEdges E e)) = sent e"
  by (simp add: bestTreeEdges_def Let_def)

lemma emits_lazyPush:
  assumes "\<And>i b. encodeFrame (wr E) (frameIHave (Topic r) (NodeID r) (Key r) (HLC r) (bodyHash (cr E) r)) = Some b
    \<Longrightarrow> P (i, b)"
  shows "emits P e (lazyPushToNonTreeEdges E e r)"
proof -
  have "emits P e (foldl (lazyPushPeer E r bh b) e ps)" if "\<And>i. P (i, b)" for bh b ps e
  proof (induction ps arbitrary: e)
    case (Cons p ps)
    have "emits P e (lazyPushPeer E r bh b e p)"
      using that by (auto simp: lazyPushPeer_def Let_def case_prod_beta emits_def sendTo_def)
    then show ?case using Cons by (auto intro: emits_trans)
  qed simp
  with assms show ?thesis by (auto simp: lazyPushToNonTreeEdges_def Let_def split: option.split)
qed

lemma reaction_eager:
  assumes "ep_Record ep = Some (recordToProto r)" and "1 < ep_Ttl ep" and "i \<noteq> peer"
    and "encodeFrame W (frameEagerPush r (ep_Ttl ep - 1)) = Some b"
  shows "reaction W peer ep (i, b)"
  unfolding reaction_def
  by (rule exI [of _ "frameEagerPush r (ep_Ttl ep - 1)"])
    (use assms in \<open>simp add: encodeFrame_def frameEagerPush_def isPush_def\<close>)

lemma handleEager_emits: "emits (reaction (wr E) peer ep) e (handleEager E e peer ep)"
proof (cases rule: handleEager_cases [of ep E e peer])
  case none
  then show ?thesis by simp
next
  case (rejected pr)
  then show ?thesis by auto
next
  case (kept r replaced accumulated)
  let ?a = "fst (afterApply E e r)"
  have relay: "emits (reaction (wr E) peer ep) ?a (relayAttestation E ?a peer r (ep_Ttl ep))"
  proof (cases "1 < ep_Ttl ep")
    case True
    have "emits (reaction (wr E) peer ep) (fst (bestTreeEdges E ?a))
        (sendTo (fst (bestTreeEdges E ?a)) (filter (\<lambda>i. i \<noteq> peer) (snd (bestTreeEdges E ?a))) b)"
      if "encodeFrame (wr E) (frameEagerPush r (ep_Ttl ep - 1)) = Some b" for b
      using that True kept(1)
      by (intro emits_sendTo) (auto intro: reaction_eager)
    with True show ?thesis
      by (auto simp: relayAttestation_def case_prod_beta emits_def split: option.split)
  qed (simp add: relayAttestation_def)
  have prune: "emits (reaction (wr E) peer ep) ?a (sendPrune E ?a peer (Topic r))"
    unfolding sendPrune_def
    by (rule emits_sendFrame) (auto simp: reaction_def encodeFrame_def framePrune_def isPush_def)
  show ?thesis
    using relay prune kept(4) by (simp add: emits_def)
next
  case (applied r replaced accumulated)
  let ?a = "fst (afterApply E e r)"
  define e3 where "e3 = notifyApplied ((promoteTreeEdgeBounded E ?a peer)\<lparr>missingIHaves :=
      AList.delete (IHaveKey (Topic r) (NodeID r) (Key r) (HLC r)) (missingIHaves (promoteTreeEdgeBounded E ?a peer))\<rparr>) r"
  define e4 where "e4 = (if 1 < ep_Ttl ep then eagerForward E e3 peer r (ep_Ttl ep - 1) else e3)"
  have "sent e3 = sent e" by (simp add: e3_def notifyApplied_def)
  moreover have "emits (reaction (wr E) peer ep) e3 e4"
    using applied(1)
    by (auto simp: e4_def eagerForward_def intro!: emits_sendTo intro: reaction_eager split: option.split)
  moreover have "emits (reaction (wr E) peer ep) e4 (lazyPushToNonTreeEdges E e4 r)"
    by (rule emits_lazyPush) (auto simp: reaction_def encodeFrame_def frameIHave_def isPush_def)
  ultimately have "emits (reaction (wr E) peer ep) e3 (lazyPushToNonTreeEdges E e4 r)"
    by (blast intro: emits_trans)
  moreover have "handleEager E e peer ep = lazyPushToNonTreeEdges E e4 r"
    by (simp add: applied(4) deliverEager_def Let_def e4_def e3_def)
  ultimately show ?thesis using \<open>sent e3 = sent e\<close> by (simp add: emits_def)
qed

subsection \<open>The network\<close>

text \<open>
  The nodes of a network and the messages in flight between them (sender, receiver, bytes), in no
  order. A step delivers one eager frame; the frames sent in reaction come into flight.
\<close>

inductive deliver_eager ::
  "wire \<Rightarrow> (NodeID \<Rightarrow> engine) \<times> (NodeID \<times> NodeID \<times> bytes) multiset \<Rightarrow>
    (NodeID \<Rightarrow> engine) \<times> (NodeID \<times> NodeID \<times> bytes) multiset \<Rightarrow> bool" for W where
  "wr E = W \<Longrightarrow> Unmarshal W raw = Some (Frame_Eager ep) \<Longrightarrow>
   e' = fst (ReceiveFrame E (net i) from raw) \<Longrightarrow>
   new = drop (length (sent (net i))) (sent e') \<Longrightarrow>
   deliver_eager W (net, add_mset (from, i, raw) M)
     (net(i := e'), M + mset (map (\<lambda>(to, b). (i, to, b)) new))"

text \<open>The times to live in flight.\<close>

definition ttlOf :: "wire \<Rightarrow> bytes \<Rightarrow> nat multiset" where
  "ttlOf W b = (case Unmarshal W b of Some (Frame_Eager ep) \<Rightarrow> {#unat (ep_Ttl ep)#} | _ \<Rightarrow> {#})"

definition inFlight :: "wire \<Rightarrow> (NodeID \<times> NodeID \<times> bytes) multiset \<Rightarrow> nat multiset" where
  "inFlight W M = sum_mset (image_mset (\<lambda>(_, _, b). ttlOf W b) M)"

lemma reaction_ttl:
  assumes "push_codec_ok W" and "reaction W peer ep m" and "t \<in># ttlOf W (snd m)"
  shows "t < unat (ep_Ttl ep)"
proof -
  obtain f where f: "Marshal W f = Some (snd m)" "isPush f"
    "case f of Frame_Eager ep' \<Rightarrow> ep_Record ep' = ep_Record ep \<and> 1 < ep_Ttl ep \<and>
       ep_Ttl ep' = ep_Ttl ep - 1 \<and> fst m \<noteq> peer | _ \<Rightarrow> True"
    using assms(2) by (auto simp: reaction_def)
  then have "Unmarshal W (snd m) = Some f" using assms(1) by (auto simp: push_codec_ok_def)
  then obtain ep' where ep': "f = Frame_Eager ep'" "t = unat (ep_Ttl ep')"
    using assms(3) by (auto simp: ttlOf_def split: Frame.splits)
  with f(3) have "1 < ep_Ttl ep" "ep_Ttl ep' = ep_Ttl ep - 1" by simp_all
  then have "unat (ep_Ttl ep - 1) < unat (ep_Ttl ep)" 
    by (subst unat_sub) (auto simp: word_less_nat_alt word_le_nat_alt)
  then show ?thesis using ep'(2) \<open>ep_Ttl ep' = ep_Ttl ep - 1\<close> by simp
qed

lemma deliver_decreases:
  assumes "push_codec_ok W" and "deliver_eager W x y"
  shows "(inFlight W (snd y), inFlight W (snd x)) \<in> mult less_than"
  using assms(2)
proof cases
  case (1 E raw ep e' net i peer new M)
  have "e' = handleEager E (net i) peer ep" using 1 by (simp add: ReceiveFrame_def decodeFrame_def)
  with handleEager_emits [of E peer ep "net i"] obtain out
    where "sent e' = sent (net i) @ out" "\<forall>m\<in>set out. reaction W peer ep m"
    using 1(3) by (auto simp: emits_def)
  then have new: "\<forall>m\<in>set new. reaction W peer ep m" using 1(6) by simp
  have "(inFlight W M + inFlight W (mset (map (\<lambda>(to, b). (i, to, b)) new)), inFlight W M + {#unat (ep_Ttl ep)#})
      \<in> mult less_than"
  proof (rule one_step_implies_mult)
    show "\<forall>t\<in>#inFlight W (mset (map (\<lambda>(to, b). (i, to, b)) new)). \<exists>j\<in>#{#unat (ep_Ttl ep)#}. (t, j) \<in> less_than"
      using new reaction_ttl [OF assms(1)] by (fastforce simp: inFlight_def)
  qed simp
  moreover have "inFlight W (snd x) = inFlight W M + {#unat (ep_Ttl ep)#}"
    using 1 by (simp add: inFlight_def ttlOf_def)
  moreover have "inFlight W (snd y) = inFlight W M + inFlight W (mset (map (\<lambda>(to, b). (i, to, b)) new))"
    using 1 by (simp add: inFlight_def)
  ultimately show ?thesis by simp
qed

text \<open>C9: An eager flood dies out: in a network of any size and shape, whatever each node's store, peers
  and settings are, there is no infinite sequence of deliveries of eager frames, since every frame
  a node sends in reaction to one carries a smaller time to live.\<close>

theorem eager_flood_terminates:
  assumes "push_codec_ok W"
  shows "wf {(y, x). deliver_eager W x y}"
proof (rule wf_subset)
  show "wf (inv_image (mult less_than) (\<lambda>x. inFlight W (snd x)))" by (simp add: wf_mult)
  show "{(y, x). deliver_eager W x y} \<subseteq> inv_image (mult less_than) (\<lambda>x. inFlight W (snd x))"
    using deliver_decreases [OF assms] by auto
qed

lemma sampleWire_ok: "length fs \<le> 256 \<Longrightarrow> push_codec_ok (sampleWire fs)"
  by (auto simp: push_codec_ok_def sampleWire_def find_Some_iff enumerate_eq_zip nth_zip unat_of_nat)

theorem eager_flood_terminates_witness:
  "push_codec_ok (sampleWire [frameEagerPush sampleSigned 4, frameEagerPush sampleSigned 3]) \<and>
   wf {(y, x). deliver_eager (sampleWire [frameEagerPush sampleSigned 4, frameEagerPush sampleSigned 3]) x y}"
proof -
  have "push_codec_ok (sampleWire [frameEagerPush sampleSigned 4, frameEagerPush sampleSigned 3])"
    by (rule sampleWire_ok) simp
  then show ?thesis using eager_flood_terminates by blast
qed

end
