(* ===== verification/Topics.thy ===== *)
theory Topics
  imports Swarm_Types
begin

text \<open>
  The topic names of \<open>src/topics.go\<close>: fleet constants, the agent topics scoped to a tenant (or, for
  TUF metadata, to a release channel), the edge roles, and the decimal printer they use.
\<close>

subsection \<open>Decimal\<close>

text \<open>The loop writes digits in front of the ones already written.\<close>

function decDigits :: "u64 \<Rightarrow> gostring \<Rightarrow> gostring" where
  "decDigits v buf =
     (if v > 0 then decDigits (v div 10) (ucast (48 + v mod 10) # buf) else buf)"
  by auto
termination
  by (relation "measure (\<lambda>(v, _). unat v)") (auto simp: word_less_nat_alt unat_div)

declare decDigits.simps [simp del]

definition uint64ToDec :: "u64 \<Rightarrow> gostring" where
  "uint64ToDec v = (if v = 0 then str ''0'' else decDigits v [])"

subsection \<open>Names\<close>

definition FleetPeerTopic :: Topic where
  "FleetPeerTopic = str ''fleet.peer''"

definition FleetContentAdvertTopic :: Topic where
  "FleetContentAdvertTopic = str ''fleet.content.advert''"

definition AgentPolicyTopic :: "gostring \<Rightarrow> Topic" where
  "AgentPolicyTopic tenantID = str ''agent.policy.'' @ tenantID"

definition AgentTrustTopic :: "gostring \<Rightarrow> Topic" where
  "AgentTrustTopic tenantID = str ''agent.trust.'' @ tenantID"

definition AgentKeysTopic :: "gostring \<Rightarrow> Topic" where
  "AgentKeysTopic tenantID = str ''agent.keys.'' @ tenantID"

definition AgentBlocklistsTopic :: "gostring \<Rightarrow> Topic" where
  "AgentBlocklistsTopic tenantID = str ''agent.blocklists.'' @ tenantID"

definition AgentAssetsTopic :: "gostring \<Rightarrow> Topic" where
  "AgentAssetsTopic tenantID = str ''agent.assets.'' @ tenantID"

definition AgentRulesTopic :: "gostring \<Rightarrow> gostring \<Rightarrow> Topic" where
  "AgentRulesTopic tenantID ruleType = str ''agent.rules.'' @ tenantID @ str ''.'' @ ruleType"

definition AgentDriversTopic :: "gostring \<Rightarrow> gostring \<Rightarrow> Topic" where
  "AgentDriversTopic tenantID platform = str ''agent.drivers.'' @ tenantID @ str ''.'' @ platform"

definition AgentVouchersTopic :: "gostring \<Rightarrow> Topic" where
  "AgentVouchersTopic tenantID = str ''agent.vouchers.'' @ tenantID"

definition AgentTUFMetaTopic :: "gostring \<Rightarrow> Topic" where
  "AgentTUFMetaTopic channel = str ''agent.tuf-meta.'' @ channel"

definition AgentFIMBaselinesTopic :: "gostring \<Rightarrow> gostring \<Rightarrow> Topic" where
  "AgentFIMBaselinesTopic tenantID pathHashHex = str ''agent.fim-baselines.'' @ tenantID @ str ''.'' @ pathHashHex"

definition AgentOSQueryPacksTopic :: "gostring \<Rightarrow> Topic" where
  "AgentOSQueryPacksTopic tenantID = str ''agent.osquery-packs.'' @ tenantID"

definition AgentLiveQueryCacheTopic :: "gostring \<Rightarrow> Topic" where
  "AgentLiveQueryCacheTopic tenantID = str ''agent.livequery-cache.'' @ tenantID"

definition AgentForensicIndexTopic :: "gostring \<Rightarrow> Topic" where
  "AgentForensicIndexTopic tenantID = str ''agent.forensic-index.'' @ tenantID"

definition AgentContentAdvertTopic :: "gostring \<Rightarrow> Topic" where
  "AgentContentAdvertTopic tenantID = str ''agent.content.advert.'' @ tenantID"

definition AgentDDNSTopic :: "gostring \<Rightarrow> Topic" where
  "AgentDDNSTopic tenantID = str ''agent.ddns.'' @ tenantID"

definition AgentQuarantineTopic :: "gostring \<Rightarrow> Topic" where
  "AgentQuarantineTopic tenantID = str ''agent.quarantine.'' @ tenantID"

definition AgentDHCPTopic :: "gostring \<Rightarrow> gostring \<Rightarrow> Topic" where
  "AgentDHCPTopic tenantID segment = str ''agent.dhcp.'' @ tenantID @ str ''.'' @ segment"

definition AgentDiscoveredAssetsTopic :: "gostring \<Rightarrow> Topic" where
  "AgentDiscoveredAssetsTopic tenantID = str ''agent.discovered-assets.'' @ tenantID"

definition AgentPrintersTopic :: "gostring \<Rightarrow> Topic" where
  "AgentPrintersTopic tenantID = str ''agent.printers.'' @ tenantID"

definition AgentServiceStateTopic :: "gostring \<Rightarrow> Topic" where
  "AgentServiceStateTopic tenantID = str ''agent.service-state.'' @ tenantID"

definition AgentInventoryDeltasTopic :: "gostring \<Rightarrow> Topic" where
  "AgentInventoryDeltasTopic tenantID = str ''agent.inventory-deltas.'' @ tenantID"

definition AgentRevokedKeysTopic :: "gostring \<Rightarrow> Topic" where
  "AgentRevokedKeysTopic tenantID = str ''agent.revoked-keys.'' @ tenantID"

definition AgentNetworkPSKTopic :: "gostring \<Rightarrow> u64 \<Rightarrow> Topic" where
  "AgentNetworkPSKTopic tenantID epoch = str ''agent.network-psk.'' @ tenantID @ str ''.'' @ uint64ToDec(epoch)"

definition AgentTrustPinsTopic :: "gostring \<Rightarrow> Topic" where
  "AgentTrustPinsTopic tenantID = str ''agent.trust-pins.'' @ tenantID"

definition AgentTLSPinsTopic :: "gostring \<Rightarrow> gostring \<Rightarrow> Topic" where
  "AgentTLSPinsTopic tenantID domain = str ''agent.tls-pins.'' @ tenantID @ str ''.'' @ domain"

definition AgentIntegrityAlertTopic :: "gostring \<Rightarrow> Topic" where
  "AgentIntegrityAlertTopic tenantID = str ''agent.integrity-alert.'' @ tenantID"

definition AgentSessionTopic :: "gostring \<Rightarrow> gostring \<Rightarrow> Topic" where
  "AgentSessionTopic tenantID deviceID = str ''agent.session.'' @ tenantID @ str ''.'' @ deviceID"

definition AgentConsentTopic :: "gostring \<Rightarrow> gostring \<Rightarrow> Topic" where
  "AgentConsentTopic tenantID userID = str ''agent.consent.'' @ tenantID @ str ''.'' @ userID"

definition AgentRemoteSessionsTopic :: "gostring \<Rightarrow> Topic" where
  "AgentRemoteSessionsTopic tenantID = str ''agent.remote-sessions.'' @ tenantID"

definition AgentTunnelsTopic :: "gostring \<Rightarrow> Topic" where
  "AgentTunnelsTopic tenantID = str ''agent.tunnels.'' @ tenantID"

definition AgentHealthTopic :: "gostring \<Rightarrow> Topic" where
  "AgentHealthTopic tenantID = str ''agent.health.'' @ tenantID"

definition AgentEventTopic :: "gostring \<Rightarrow> gostring \<Rightarrow> Topic" where
  "AgentEventTopic tenantID eventType = str ''agent.event.'' @ tenantID @ str ''.'' @ eventType"

definition AgentThreatSignalTopic :: "gostring \<Rightarrow> Topic" where
  "AgentThreatSignalTopic tenantID = str ''agent.threat-signal.'' @ tenantID"

definition AgentDNSCacheTopic :: "gostring \<Rightarrow> Topic" where
  "AgentDNSCacheTopic tenantID = str ''agent.dns-cache.'' @ tenantID"

definition EdgeRoleTelemetryAggregator :: gostring where
  "EdgeRoleTelemetryAggregator = str ''telemetry-aggregator''"

definition EdgeRoleOTelExporter :: gostring where
  "EdgeRoleOTelExporter = str ''otel-exporter''"

definition EdgeRoleC2Cache :: gostring where
  "EdgeRoleC2Cache = str ''c2-cache''"

definition EdgeRoleSignalingRelay :: gostring where
  "EdgeRoleSignalingRelay = str ''signaling-relay''"

definition EdgeRoleSNMPDiscoverer :: gostring where
  "EdgeRoleSNMPDiscoverer = str ''snmp-discoverer''"

definition EdgeRoleTUFCache :: gostring where
  "EdgeRoleTUFCache = str ''tuf-cache''"

definition EdgeRoleDDNSPublisher :: gostring where
  "EdgeRoleDDNSPublisher = str ''ddns-publisher''"

definition EdgeRoleDHCPBridge :: gostring where
  "EdgeRoleDHCPBridge = str ''dhcp-bridge''"

definition EdgeRolePrintRelay :: gostring where
  "EdgeRolePrintRelay = str ''print-relay''"

definition EdgeRoleBlocklistPublisher :: gostring where
  "EdgeRoleBlocklistPublisher = str ''blocklist-publisher''"

definition EdgeRoleAssetPublisher :: gostring where
  "EdgeRoleAssetPublisher = str ''asset-publisher''"

definition AllEdgeRoles :: "gostring list" where
  "AllEdgeRoles =
     [EdgeRoleTelemetryAggregator, EdgeRoleOTelExporter, EdgeRoleC2Cache,
      EdgeRoleSignalingRelay, EdgeRoleSNMPDiscoverer, EdgeRoleTUFCache, EdgeRoleDDNSPublisher,
      EdgeRoleDHCPBridge, EdgeRolePrintRelay, EdgeRoleBlocklistPublisher,
      EdgeRoleAssetPublisher]"

subsection \<open>Printing is right\<close>

definition decValue :: "gostring \<Rightarrow> nat" where
  "decValue = foldl (\<lambda>n b. 10 * n + (unat b - 48)) 0"

lemma digit: "unat (ucast (48 + v mod 10 :: u64) :: byte) = 48 + unat v mod 10"
proof -
  have "unat (v mod 10) = unat v mod 10" by (simp add: unat_mod)
  then have "unat (48 + v mod 10) = 48 + unat v mod 10" by (simp add: unat_word_ariths)
  then show ?thesis by (simp add: unsigned_ucast_eq take_bit_nat_eq_self)
qed

lemma div_10_less: "0 < v \<Longrightarrow> unat (v div 10 :: u64) < unat v"
  by (simp add: unat_div word_less_nat_alt)

lemma decDigits_acc: "decDigits v buf = decDigits v [] @ buf"
proof (induction "unat v" arbitrary: v buf rule: less_induct)
  case less
  show ?case
  proof (cases "v > 0")
    case True
    let ?d = "ucast (48 + v mod 10)"
    have step: "decDigits v b = decDigits (v div 10) (?d # b)" for b
      using True by (subst decDigits.simps) simp
    have "decDigits (v div 10) (?d # b) = decDigits (v div 10) [] @ ?d # b" for b
      by (rule less) (rule div_10_less [OF True])
    then show ?thesis unfolding step by simp
  qed (subst (1 2) decDigits.simps, simp)
qed

lemma decDigits_step:
  "decDigits v [] = (if 0 < v then decDigits (v div 10) [] @ [ucast (48 + v mod 10)] else [])"
proof (cases "0 < v")
  case True
  then have "decDigits v [] = decDigits (v div 10) [ucast (48 + v mod 10)]" by (subst decDigits.simps) simp
  also have "\<dots> = decDigits (v div 10) [] @ [ucast (48 + v mod 10)]" by (rule decDigits_acc)
  finally show ?thesis using True by simp
qed (subst decDigits.simps, simp)

lemma decDigits_spec:
  "decValue (decDigits v []) = unat v" "unat v < 10 ^ k \<Longrightarrow> length (decDigits v []) \<le> k"
  "\<forall>b\<in>set (decDigits v []). 48 \<le> unat b \<and> unat b \<le> 57" "0 < v \<Longrightarrow> decDigits v [] \<noteq> [] \<and> hd (decDigits v []) \<noteq> 48"
proof (induction "unat v" arbitrary: v k rule: less_induct)
  case less
  have small: "unat (ucast (48 + v mod 10 :: u64) :: byte) = 48 + unat v mod 10" by (rule digit)
  have q: "unat (v div 10) = unat v div 10" by (simp add: unat_div)
  {
    case 1
    show ?case
    proof (cases "0 < v")
      case True
      then have "decValue (decDigits v []) = 10 * (unat v div 10) + unat v mod 10"
        using less(1) [OF div_10_less [OF True]] small q by (subst decDigits_step) (simp add: decValue_def)
      then show ?thesis by simp
    qed (subst decDigits_step, simp add: decValue_def word_less_nat_alt)
  next
    case 2
    show ?case
    proof (cases "0 < v")
      case True
      then obtain j where k: "k = Suc j" using 2 by (cases k) (auto simp: word_less_nat_alt)
      then have "unat (v div 10) < 10 ^ j" using 2 q by (simp add: less_mult_imp_div_less mult.commute)
      from less(2) [OF div_10_less [OF True] this] show ?thesis using k by (subst decDigits_step) simp
    qed (subst decDigits_step, simp)
  next
    case 3
    show ?case
      using less(3) [of "v div 10"] div_10_less [of v] small by (subst decDigits_step) auto
  next
    case 4
    show ?case
    proof (cases "0 < v div 10")
      case True
      with 4 less(4) [OF div_10_less [OF 4] True] show ?thesis by (subst (1 2) decDigits_step) simp
    next
      case False
      then have "unat v div 10 = 0" using q by (simp add: word_less_nat_alt)
      moreover have "unat v \<noteq> 0" using 4 by (simp add: word_less_nat_alt)
      ultimately have "unat v mod 10 \<noteq> 0" by (metis div_mult_mod_eq mult_zero_left add_0)
      then have "(ucast (48 + v mod 10 :: u64) :: byte) \<noteq> 48"
        using small by (auto simp: word_unat_eq_iff)
      moreover have "decDigits (v div 10) [] = []" using False by (subst decDigits_step) simp
      ultimately show ?thesis using 4 by (subst (1 2) decDigits_step) simp
    qed
  }
qed

text \<open>The decimal printer is right: for every \<open>uint64\<close> it writes at most the twenty digits its buffer
  holds, only decimal digits, no leading zero except for zero itself, and reading the digits back
  gives the number.\<close>

theorem uint64ToDec_correct:
  "decValue (uint64ToDec v) = unat v \<and> uint64ToDec v \<noteq> [] \<and> length (uint64ToDec v) \<le> 20 \<and>
   (\<forall>b\<in>set (uint64ToDec v). 48 \<le> unat b \<and> unat b \<le> 57) \<and>
   (v \<noteq> 0 \<longrightarrow> hd (uint64ToDec v) \<noteq> 48)"
proof (cases "v = 0")
  case True
  then show ?thesis by (simp add: uint64ToDec_def decValue_def str_def)
next
  case False
  have "unat v < 2 ^ 64" using unsigned_less [of v] by simp
  also have "(2 :: nat) ^ 64 < 10 ^ 20" by simp
  finally have "length (decDigits v []) \<le> 20" by (rule decDigits_spec(2))
  moreover have "0 < v" using False by (simp add: word_neq_0_conv)
  moreover have "uint64ToDec v = decDigits v []" using False by (simp add: uint64ToDec_def)
  ultimately show ?thesis using decDigits_spec(1,3,4) [of v] by simp
qed

subsection \<open>Tenants do not share topics\<close>

definition tenantTopics :: "(gostring \<Rightarrow> Topic) list" where
  "tenantTopics =
     [AgentPolicyTopic, AgentTrustTopic, AgentKeysTopic, AgentBlocklistsTopic, AgentAssetsTopic,
      AgentVouchersTopic, AgentOSQueryPacksTopic, AgentLiveQueryCacheTopic,
      AgentForensicIndexTopic, AgentContentAdvertTopic, AgentDDNSTopic, AgentQuarantineTopic,
      AgentDiscoveredAssetsTopic, AgentPrintersTopic, AgentServiceStateTopic,
      AgentInventoryDeltasTopic, AgentRevokedKeysTopic, AgentTrustPinsTopic,
      AgentIntegrityAlertTopic, AgentRemoteSessionsTopic, AgentTunnelsTopic, AgentHealthTopic,
      AgentThreatSignalTopic, AgentDNSCacheTopic]"

definition tenantScopedTopics :: "(gostring \<Rightarrow> gostring \<Rightarrow> Topic) list" where
  "tenantScopedTopics =
     [AgentRulesTopic, AgentDriversTopic, AgentFIMBaselinesTopic, AgentDHCPTopic,
      AgentTLSPinsTopic, AgentSessionTopic, AgentConsentTopic, AgentEventTopic]"

definition topicsOf :: "gostring \<Rightarrow> Topic set" where
  "topicsOf t = {f t |f. f \<in> set tenantTopics} \<union> {f t x |f x. f \<in> set tenantScopedTopics} \<union>
     range (AgentNetworkPSKTopic t)"

fun splitDot :: "gostring \<Rightarrow> gostring list" where
  "splitDot [] = [[]]"
| "splitDot (b # bs) =
     (if b = 46 then [] # splitDot bs
      else case splitDot bs of [] \<Rightarrow> [[b]] | p # ps \<Rightarrow> (b # p) # ps)"

text \<open>The dot-separated part of a name that is the tenant.\<close>

definition tenantPart :: "Topic \<Rightarrow> gostring" where
  "tenantPart tp =
     (let ps = splitDot tp in if ps ! 1 = str ''content'' then ps ! 3 else ps ! 2)"

lemma splitDot_append: "46 \<notin> set t \<Longrightarrow> splitDot (t @ 46 # x) = t # splitDot x"
  by (induction t) auto

lemma splitDot_free: "46 \<notin> set t \<Longrightarrow> splitDot t = [t]"
  by (induction t) auto

lemmas topic_defs =
  AgentPolicyTopic_def AgentTrustTopic_def AgentKeysTopic_def AgentBlocklistsTopic_def
  AgentAssetsTopic_def AgentVouchersTopic_def AgentOSQueryPacksTopic_def
  AgentLiveQueryCacheTopic_def AgentForensicIndexTopic_def AgentContentAdvertTopic_def
  AgentDDNSTopic_def AgentQuarantineTopic_def AgentDiscoveredAssetsTopic_def
  AgentPrintersTopic_def AgentServiceStateTopic_def AgentInventoryDeltasTopic_def
  AgentRevokedKeysTopic_def AgentTrustPinsTopic_def AgentIntegrityAlertTopic_def
  AgentRemoteSessionsTopic_def AgentTunnelsTopic_def AgentHealthTopic_def
  AgentThreatSignalTopic_def AgentDNSCacheTopic_def AgentRulesTopic_def AgentDriversTopic_def
  AgentFIMBaselinesTopic_def AgentDHCPTopic_def AgentTLSPinsTopic_def AgentSessionTopic_def
  AgentConsentTopic_def AgentEventTopic_def AgentNetworkPSKTopic_def

lemma tenantPart_topics:
  assumes "46 \<notin> set t" and "tp \<in> topicsOf t"
  shows "tenantPart tp = t"
proof -
  note split = splitDot_free [OF assms(1)] splitDot_append [OF assms(1)]
  have one: "tenantPart (f t) = t" if "f \<in> set tenantTopics" for f
    using that unfolding tenantTopics_def
    by (auto simp: tenantPart_def Let_def str_def split topic_defs)
  have two: "tenantPart (f t x) = t" if "f \<in> set tenantScopedTopics" for f x
    using that unfolding tenantScopedTopics_def
    by (auto simp: tenantPart_def Let_def str_def split topic_defs)
  have psk: "tenantPart (AgentNetworkPSKTopic t e) = t" for e
    by (simp add: tenantPart_def Let_def str_def split topic_defs)
  show ?thesis using assms(2) one two psk by (auto simp: topicsOf_def)
qed

text \<open>C40: Tenants never share a topic: for tenant identifiers without a dot, no topic name that any of the
  tenant-scoped helpers builds for one tenant, whatever its second argument, is built for another
  tenant by any of them.\<close>

theorem tenants_never_share_topics:
  assumes "46 \<notin> set t" and "46 \<notin> set t'" and "t \<noteq> t'"
  shows "topicsOf t \<inter> topicsOf t' = {}"
  using tenantPart_topics [OF assms(1)] tenantPart_topics [OF assms(2)] assms(3) by blast

theorem tenants_never_share_topics_witness:
  "AgentPolicyTopic [97] \<notin> topicsOf [98]"
proof -
  have "AgentPolicyTopic [97] \<in> topicsOf [97]" by (auto simp: topicsOf_def tenantTopics_def)
  moreover have "topicsOf [97] \<inter> topicsOf [98] = {}" by (rule tenants_never_share_topics) simp_all
  ultimately show ?thesis by blast
qed

text \<open>With dots in the identifiers two tenants do share names.\<close>

lemma dotted_tenants_share: "AgentEventTopic (str ''a'') (str ''b.c'') = AgentEventTopic (str ''a.b'') (str ''c'')"
  by (simp add: AgentEventTopic_def str_def)

end
