(* ===== verification/Node.thy ===== *)
theory Node
  imports Flood Topics
begin

text \<open>
  The node of \<open>src/node.go\<close>: construction, wiring, life cycle, publishing, subscriptions, role and
  tenant, pause and resume, and the ticker. Each method is a function on the node's state; calls
  into the application (subscribers, hooks) are appended to \<open>events\<close>. \<open>eng\<close> holds the store, the
  clock and the peer table from \<open>New\<close> on; its other fields are in use once \<open>wired\<close> holds, which
  stands for \<open>plum\<close> and \<open>merkle\<close> not being \<open>nil\<close>. A \<open>nil\<close> dereference is the outcome \<open>Panics\<close>.
  The concurrent life of a subscription is the transition system of \<open>Subscription\<close>.
\<close>

datatype event =
    Accepted Record
  | Delivered u64 Record
  | RoleHook nat Role Role
  | TenantHook nat gostring gostring
  | PausedHook
  | ResumedHook

datatype outcome = Returns "error option" | Panics

record subGate =
  replaying :: bool
  queue :: "Record list"

record nodeImpl =
  cfg :: Config
  priv :: bytes
  nid :: NodeID
  eng :: engine
  subs :: "(Topic, (u64, subGate) gomap) gomap"
  subSeq :: u64
  started :: bool
  wired :: bool
  stopped :: bool
  paused :: bool
  role :: Role
  tenant :: gostring
  roleHooks :: nat
  tenantHooks :: nat
  events :: "event list"

definition PrivateKeySize :: nat where
  "PrivateKeySize = 64"

definition unwiredMerkle :: merkleEngine where
  "unwiredMerkle = \<lparr>probeEvery = 0, maxRangeSize = 0, probeSalt = 0, lastProbe = [], lastReciprocal = [],
     merklePaused = False\<rparr>"

definition New :: "env \<Rightarrow> Config \<Rightarrow> error + nodeImpl" where
  "New E c =
     (if length (cfg_PrivKey c) \<noteq> PrivateKeySize then Inl ErrInvalidConfig
      else
        let c1 = c\<lparr>cfg_NodeID := (if cfg_NodeID c = [] then nodeIDFromPub (ed_Public (cr E) (cfg_PrivKey c))
                                 else cfg_NodeID c),
                   cfg_MaxRecordBytes := (if cfg_MaxRecordBytes c \<le> 0 then 16384 else cfg_MaxRecordBytes c),
                   cfg_TreeDegree := (if cfg_TreeDegree c \<le> 0 then 4 else cfg_TreeDegree c)\<rparr>;
            s = setCaps newRecordStore (cfg_MaxTopics c1) (cfg_MaxRecordsPerTopic c1)
                  (cfg_MaxKeysPerNodePerTopic c1) (cfg_MaxAttestationsPerTarget c1)
        in Inr \<lparr>cfg = c1, priv = cfg_PrivKey c1, nid = cfg_NodeID c1,
                eng = newPlumtrees (cfg_NodeID c1) s (newPeerTable (cfg_PerPeerConfig c1))
                        (NewHLC (wallMs E)) (cfg_TreeDegree c1) (cfg_GraftDelay c1) unwiredMerkle,
                subs = [], subSeq = 0, started = False, wired = False, stopped = False,
                paused = False, role = RoleLeaf, tenant = [], roleHooks = 0, tenantHooks = 0,
                events = []\<rparr>)"

subsection \<open>Subscriptions\<close>

definition gateDeliver :: "subGate \<Rightarrow> Record \<Rightarrow> subGate \<times> Record option" where
  "gateDeliver g r = (if replaying g then (g\<lparr>queue := queue g @ [r]\<rparr>, None) else (g, Some r))"

text \<open>The slots of a snapshot with the clock of the record replayed last for each.\<close>

definition replayedMap :: "Record list \<Rightarrow> (recordKey, u64) gomap" where
  "replayedMap rs = foldl (\<lambda>m r. AList.update (keyOf r) (HLC r) m) [] rs"

definition replayCovers :: "(recordKey, u64) gomap \<Rightarrow> Record \<Rightarrow> bool" where
  "replayCovers m r = (case map_of m (keyOf r) of Some h \<Rightarrow> HLC r \<le> h | None \<Rightarrow> False)"

text \<open>\<open>finishReplay\<close> when nothing is queued while it runs: one batch, then the gate opens.\<close>

definition finishReplay :: "subGate \<Rightarrow> (recordKey, u64) gomap \<Rightarrow> subGate \<times> Record list" where
  "finishReplay g m =
     (g\<lparr>queue := [], replaying := False\<rparr>, filter (\<lambda>r. \<not> replayCovers m r) (queue g))"

definition topicSubs :: "nodeImpl \<Rightarrow> Topic \<Rightarrow> (u64, subGate) gomap" where
  "topicSubs n topic = (case map_of (subs n) topic of None \<Rightarrow> [] | Some m \<Rightarrow> m)"

definition subRegister :: "nodeImpl \<Rightarrow> Topic \<Rightarrow> nodeImpl \<times> u64" where
  "subRegister n topic =
     (let i = subSeq n + 1
      in (n\<lparr>subSeq := i,
            subs := AList.update topic
              (AList.update i \<lparr>replaying = True, queue = []\<rparr> (topicSubs n topic)) (subs n)\<rparr>, i))"

definition Subscribe :: "nodeImpl \<Rightarrow> Topic \<Rightarrow> bool \<Rightarrow> nodeImpl \<times> (error + u64)" where
  "Subscribe n topic subIsNil =
     (if subIsNil then (n, Inl ErrInvalidConfig)
      else
        let (n1, i) = subRegister n topic;
            snapshot = topicRecordsAll (store (eng n1)) topic;
            g = the (map_of (topicSubs n1 topic) i);
            (g', flushed) = finishReplay g (replayedMap snapshot)
        in (n1\<lparr>subs := AList.update topic (AList.update i g' (topicSubs n1 topic)) (subs n1),
               events := events n1 @ map (Delivered i) (map cloneRecord snapshot @ flushed)\<rparr>,
            Inr i))"

definition unsubscribe :: "nodeImpl \<Rightarrow> Topic \<Rightarrow> u64 \<Rightarrow> nodeImpl" where
  "unsubscribe n topic i =
     (case map_of (subs n) topic of
        None \<Rightarrow> n
      | Some m \<Rightarrow> n\<lparr>subs := AList.update topic (AList.delete i m) (subs n)\<rparr>)"

definition deliverToSubs :: "nodeImpl \<Rightarrow> Record \<Rightarrow> nodeImpl" where
  "deliverToSubs n r =
     (case map_of (subs n) (Topic r) of
        None \<Rightarrow> n
      | Some m \<Rightarrow>
          n\<lparr>subs := AList.update (Topic r) (map (\<lambda>(i, g). (i, fst (gateDeliver g r))) m) (subs n),
            events := events n @
              concat (map (\<lambda>(i, g). case snd (gateDeliver g r) of None \<Rightarrow> [] | Some x \<Rightarrow> [Delivered i x]) m)\<rparr>)"

definition recordAccepted :: "nodeImpl \<Rightarrow> Record \<Rightarrow> nodeImpl" where
  "recordAccepted n r =
     (let r' = cloneRecord r;
          n1 = (if cfg_OnAccepted (cfg n) then n\<lparr>events := events n @ [Accepted r']\<rparr> else n)
      in deliverToSubs n1 r')"

subsection \<open>Wiring and life cycle\<close>

text \<open>\<open>Wire\<close> on a transport with the given local identity and known peers.\<close>

definition Wire :: "env \<Rightarrow> nodeImpl \<Rightarrow> NodeID \<Rightarrow> NodeID list \<Rightarrow> nodeImpl \<times> outcome" where
  "Wire E n transportID known =
     (if wired n then (n, Returns (Some ErrAlreadyWired))
      else
        let c = cfg n;
            m = newMerkle (cr E) (Some transportID) (cfg_MerkleProbeInterval c);
            e1 = newPlumtrees (nid n) (store (eng n)) (peers (eng n)) (hlc (eng n)) (cfg_TreeDegree c)
                   (cfg_GraftDelay c) m;
            e2 = SetMerkle (SetMaxPendingIHaves (SetInboundGate e1 (newInboundGate c))
                   (cfg_MaxPendingIHaves c)) m;
            n1 = fst (Subscribe (n\<lparr>wired := True, eng := e2\<rparr>) FleetContentAdvertTopic False);
            pt = foldl (\<lambda>pt p. fst (Ensure pt p (clk_wall E))) (peers (eng n1)) known
        in (n1\<lparr>eng := (eng n1)\<lparr>peers := pt\<rparr>\<rparr>, Returns None))"

text \<open>What \<open>Start\<close> does before it blocks.\<close>

definition Start :: "nodeImpl \<Rightarrow> nodeImpl \<times> outcome" where
  "Start n =
     (if \<not> wired n then (n, Returns (Some ErrInvalidConfig))
      else if stopped n then (n, Returns (Some ErrStopped))
      else if started n then (n, Returns (Some ErrAlreadyStarted))
      else (n\<lparr>started := True\<rparr>, Returns None))"

definition Stop :: "nodeImpl \<Rightarrow> nodeImpl" where
  "Stop n = (if stopped n then n else n\<lparr>stopped := True\<rparr>)"

text \<open>
  The transport's callbacks. The applied-record callbacks the engines made are handed on to
  \<open>recordAccepted\<close>; fetch frames stay in \<open>calls\<close> for the content layer.
\<close>

definition dispatchApplied :: "nodeImpl \<Rightarrow> nodeImpl" where
  "dispatchApplied n =
     (let cs = calls (eng n);
          n1 = n\<lparr>eng := (eng n)\<lparr>calls := filter (\<lambda>c. case c of OnApplied _ \<Rightarrow> False | _ \<Rightarrow> True) cs\<rparr>\<rparr>
      in foldl (\<lambda>n c. case c of OnApplied r \<Rightarrow> recordAccepted n r | _ \<Rightarrow> n) n1 cs)"

definition OnReceive :: "env \<Rightarrow> nodeImpl \<Rightarrow> NodeID \<Rightarrow> bytes \<Rightarrow> nodeImpl" where
  "OnReceive E n from frame =
     (if stopped n then n
      else dispatchApplied (n\<lparr>eng := fst (ReceiveFrame E (eng n) from frame)\<rparr>))"

definition OnPeerJoin :: "env \<Rightarrow> nodeImpl \<Rightarrow> NodeID \<Rightarrow> nodeImpl" where
  "OnPeerJoin E n i = n\<lparr>eng := (eng n)\<lparr>peers := fst (Ensure (peers (eng n)) i (clk_wall E))\<rparr>\<rparr>"

definition OnPeerLeave :: "nodeImpl \<Rightarrow> NodeID \<Rightarrow> nodeImpl" where
  "OnPeerLeave n i = n\<lparr>eng := (eng n)\<lparr>peers := Remove (peers (eng n)) i\<rparr>\<rparr>"

definition Tick :: "env \<Rightarrow> nodeImpl \<Rightarrow> instant \<Rightarrow> nodeImpl" where
  "Tick E n now =
     (if wired n then n\<lparr>eng := merkleTick E (plumTick E (eng n) now)\<rparr> else n)"

definition nodeProbePeer :: "env \<Rightarrow> nodeImpl \<Rightarrow> NodeID \<Rightarrow> nodeImpl" where
  "nodeProbePeer E n i =
     (if stopped n then n else if \<not> wired n then n else n\<lparr>eng := ProbePeer E (eng n) i\<rparr>)"

text \<open>One firing of the background ticker; \<open>None\<close> is the zero time before the first reap.\<close>

definition tickLoop :: "env \<Rightarrow> nodeImpl \<Rightarrow> instant \<Rightarrow> instant option \<Rightarrow> nodeImpl \<times> instant option" where
  "tickLoop E n t lastReap =
     (let n1 = Tick E n t
      in if cfg_TopicTTL (cfg n) \<noteq> None \<and>
           (case lastReap of None \<Rightarrow> True | Some l \<Rightarrow> t - l \<ge> 30 * second)
         then (n1\<lparr>eng := (eng n1)\<lparr>store :=
                 fst (reapExpired (store (eng n1)) (UnixMilli t) (cfg_TopicTTL (cfg n)))\<rparr>\<rparr>, Some t)
         else (n1, lastReap))"

subsection \<open>Publishing\<close>

definition stampHLC :: "env \<Rightarrow> nodeImpl \<Rightarrow> nodeImpl \<times> u64" where
  "stampHLC E n =
     (let (st, h) = HLC_Now (hlc (eng n)) (wallMs E) in (n\<lparr>eng := (eng n)\<lparr>hlc := st\<rparr>\<rparr>, h))"

definition publishSigned :: "env \<Rightarrow> nodeImpl \<Rightarrow> Record \<Rightarrow> nodeImpl \<times> outcome" where
  "publishSigned E n r =
     (if \<not> wired n then (n, Panics)
      else (recordAccepted (n\<lparr>eng := plumPublish E (eng n) r\<rparr>) r, Returns None))"

definition PublishKeyed :: "env \<Rightarrow> nodeImpl \<Rightarrow> Topic \<Rightarrow> gostring \<Rightarrow> bytes \<Rightarrow> nodeImpl \<times> outcome" where
  "PublishKeyed E n topic key body =
     (if stopped n then (n, Returns (Some ErrStopped))
      else if int (length body) > cfg_MaxRecordBytes (cfg n) then (n, Returns (Some ErrTooLarge))
      else if length key > MaxKeyBytes then (n, Returns (Some ErrTooLarge))
      else
        let (n1, h) = stampHLC E n;
            r = zero_record\<lparr>Topic := topic, NodeID := nid n, Key := key, HLC := h, Body := body\<rparr>
        in publishSigned E n1 (signRecord (cr E) r (priv n)))"

definition Publish :: "env \<Rightarrow> nodeImpl \<Rightarrow> Topic \<Rightarrow> bytes \<Rightarrow> nodeImpl \<times> outcome" where
  "Publish E n topic body = PublishKeyed E n topic [] body"

definition PublishKeyedTombstone :: "env \<Rightarrow> nodeImpl \<Rightarrow> Topic \<Rightarrow> gostring \<Rightarrow> nodeImpl \<times> outcome" where
  "PublishKeyedTombstone E n topic key =
     (if stopped n then (n, Returns (Some ErrStopped))
      else if length key > MaxKeyBytes then (n, Returns (Some ErrTooLarge))
      else
        let (n1, h) = stampHLC E n;
            r = zero_record\<lparr>Topic := topic, NodeID := nid n, Key := key, HLC := h, Tombstone := True\<rparr>
        in publishSigned E n1 (signRecord (cr E) r (priv n)))"

definition PublishTombstone :: "env \<Rightarrow> nodeImpl \<Rightarrow> Topic \<Rightarrow> nodeImpl \<times> outcome" where
  "PublishTombstone E n topic = PublishKeyedTombstone E n topic []"

text \<open>Apply a record to the store; hand it on if the store took it.\<close>

definition applyAndNotify :: "env \<Rightarrow> nodeImpl \<Rightarrow> Record \<Rightarrow> nodeImpl" where
  "applyAndNotify E n r =
     (let (s', applied, _) = Apply (store (eng n)) (nowMs E) r;
          n1 = n\<lparr>eng := (eng n)\<lparr>store := s'\<rparr>\<rparr>
      in if applied then recordAccepted n1 r else n1)"

definition PublishObserverTombstone :: "env \<Rightarrow> nodeImpl \<Rightarrow> Topic \<Rightarrow> NodeID \<Rightarrow> nodeImpl \<times> outcome" where
  "PublishObserverTombstone E n topic target =
     (if stopped n then (n, Returns (Some ErrStopped))
      else if target = [] \<or> target = nid n then (n, Returns None)
      else
        let (n1, h) = stampHLC E n;
            r = signRecord (cr E)
                  (zero_record\<lparr>Topic := topic, NodeID := target, HLC := h, Tombstone := True,
                     ObserverNodeID := nid n, ObservedAtUnixMs := nowMs E\<rparr>) (priv n);
            n2 = applyAndNotify E n1 r
        in if \<not> wired n then (n2, Panics)
           else (n2\<lparr>eng := Broadcast E (eng n2) r\<rparr>, Returns None))"

subsection \<open>Role, tenant, pause\<close>

definition SetRole :: "nodeImpl \<Rightarrow> Role \<Rightarrow> nodeImpl" where
  "SetRole n r =
     (let prev = role n; n1 = n\<lparr>role := r\<rparr>
      in if prev = r then n1
         else n1\<lparr>events := events n1 @ map (\<lambda>i. RoleHook i prev r) [0..<roleHooks n]\<rparr>)"

definition ownSlots :: "recordStore \<Rightarrow> NodeID \<Rightarrow> Record list" where
  "ownSlots s i =
     concat (map (\<lambda>(_, ts). map snd (filter (\<lambda>(k, _). rkNodeID k = i) (records ts))) (byTopic s))"

definition retireSlot :: "env \<Rightarrow> nodeImpl \<Rightarrow> Record \<Rightarrow> nodeImpl" where
  "retireSlot E n r =
     (let (n1, h) = stampHLC E n;
          tomb = signRecord (cr E)
            (zero_record\<lparr>Topic := Topic r, NodeID := nid n, Key := Key r, HLC := h, Tombstone := True\<rparr>)
            (priv n);
          n2 = applyAndNotify E n1 tomb
      in if wired n then n2\<lparr>eng := Broadcast E (eng n2) tomb\<rparr> else n2)"

definition SetTenant :: "env \<Rightarrow> nodeImpl \<Rightarrow> gostring \<Rightarrow> nodeImpl" where
  "SetTenant E n t =
     (let prev = tenant n; n1 = n\<lparr>tenant := t\<rparr>
      in if prev = t then n1
         else
           let n2 = foldl (retireSlot E) n1 (ownSlots (store (eng n1)) (nid n1))
           in n2\<lparr>events := events n2 @ map (\<lambda>i. TenantHook i prev t) [0..<tenantHooks n2]\<rparr>)"

definition OnRoleChange :: "nodeImpl \<Rightarrow> nodeImpl" where
  "OnRoleChange n = n\<lparr>roleHooks := roleHooks n + 1\<rparr>"

definition OnTenantChange :: "nodeImpl \<Rightarrow> nodeImpl" where
  "OnTenantChange n = n\<lparr>tenantHooks := tenantHooks n + 1\<rparr>"

definition setEnginePaused :: "nodeImpl \<Rightarrow> bool \<Rightarrow> nodeImpl" where
  "setEnginePaused n b =
     (if wired n then n\<lparr>eng := merkleSetPaused (plumSetPaused (eng n) b) b\<rparr> else n)"

definition Pause :: "nodeImpl \<Rightarrow> nodeImpl" where
  "Pause n =
     (if paused n then n
      else
        let n1 = setEnginePaused (n\<lparr>paused := True\<rparr>) True
        in if cfg_OnPaused (cfg n) then n1\<lparr>events := events n1 @ [PausedHook]\<rparr> else n1)"

definition Resume :: "nodeImpl \<Rightarrow> nodeImpl" where
  "Resume n =
     (if \<not> paused n then n
      else
        let n1 = setEnginePaused (n\<lparr>paused := False\<rparr>) False
        in if cfg_OnResumed (cfg n) then n1\<lparr>events := events n1 @ [ResumedHook]\<rparr> else n1)"

subsection \<open>Reads\<close>

definition nodeGet :: "nodeImpl \<Rightarrow> Topic \<Rightarrow> NodeID \<Rightarrow> Record option" where
  "nodeGet n topic i = Get (store (eng n)) topic i"

definition nodeGetKeyed :: "nodeImpl \<Rightarrow> Topic \<Rightarrow> NodeID \<Rightarrow> gostring \<Rightarrow> Record option" where
  "nodeGetKeyed n topic i key = GetKeyed (store (eng n)) topic i key"

definition nodeNodeRecords :: "nodeImpl \<Rightarrow> Topic \<Rightarrow> NodeID \<Rightarrow> Record list" where
  "nodeNodeRecords n topic i = NodeRecords (store (eng n)) topic i"

definition nodeTopicRecords :: "nodeImpl \<Rightarrow> Topic \<Rightarrow> Record list" where
  "nodeTopicRecords n topic = TopicRecords (store (eng n)) topic"

definition nodeTopics :: "nodeImpl \<Rightarrow> Topic list" where
  "nodeTopics n = Topics (store (eng n))"

definition SelfRole :: "nodeImpl \<Rightarrow> Role" where
  "SelfRole n = role n"

definition Tenant :: "nodeImpl \<Rightarrow> gostring" where
  "Tenant n = tenant n"

definition nodePerPeerConfig :: "nodeImpl \<Rightarrow> NodeID \<Rightarrow> PerPeerConfig" where
  "nodePerPeerConfig n i = Snapshot (peers (eng n)) i"

subsection \<open>Store settings\<close>

definition nodeSetObserverRoleCheck ::
  "nodeImpl \<Rightarrow> (NodeID \<Rightarrow> bytes \<Rightarrow> bool) option \<Rightarrow> nodeImpl" where
  "nodeSetObserverRoleCheck n fn = n\<lparr>eng := (eng n)\<lparr>store := SetObserverRoleCheck (store (eng n)) fn\<rparr>\<rparr>"

definition nodeSetObserverQuorum :: "nodeImpl \<Rightarrow> int \<Rightarrow> duration \<Rightarrow> nodeImpl" where
  "nodeSetObserverQuorum n k w = n\<lparr>eng := (eng n)\<lparr>store := SetObserverQuorum (store (eng n)) k w\<rparr>\<rparr>"

end
