(* ===== verification/Node_Props.thy ===== *)
theory Node_Props
  imports Node
begin

text \<open>
  What the node promises: a publish is read back signed and stamped, a tenant change retires every
  slot the node holds, and (a flaw) a publish the store refused is still reported as accepted.
\<close>

subsection \<open>Frame lemmas\<close>

lemma deliverToSubs_fields [simp]:
  "eng (deliverToSubs n r) = eng n" "cfg (deliverToSubs n r) = cfg n" "priv (deliverToSubs n r) = priv n"
  "nid (deliverToSubs n r) = nid n" "wired (deliverToSubs n r) = wired n"
  "stopped (deliverToSubs n r) = stopped n" "tenant (deliverToSubs n r) = tenant n"
  "paused (deliverToSubs n r) = paused n"
  by (simp_all add: deliverToSubs_def split: option.split)

lemma recordAccepted_fields [simp]:
  "eng (recordAccepted n r) = eng n" "cfg (recordAccepted n r) = cfg n" "priv (recordAccepted n r) = priv n"
  "nid (recordAccepted n r) = nid n" "wired (recordAccepted n r) = wired n"
  "stopped (recordAccepted n r) = stopped n" "tenant (recordAccepted n r) = tenant n"
  "paused (recordAccepted n r) = paused n"
  by (simp_all add: recordAccepted_def Let_def)

lemma recordAccepted_event:
  assumes "cfg_OnAccepted (cfg n)"
  shows "Accepted r \<in> set (events (recordAccepted n r))"
  using assms by (simp add: recordAccepted_def Let_def deliverToSubs_def split: option.split)

text \<open>What handing on an accepted record does: the hook, then every open subscription of the topic in
  table order; a gate still replaying queues the record.\<close>

lemma recordAccepted_events:
  "events (recordAccepted n r) = events n @ (if cfg_OnAccepted (cfg n) then [Accepted r] else []) @
     map (\<lambda>(i, g). Delivered i r) (filter (\<lambda>(i, g). \<not> replaying g) (topicSubs n (Topic r)))"
proof -
  have "concat (map (\<lambda>(i, g). case snd (gateDeliver g r) of None \<Rightarrow> [] | Some x \<Rightarrow> [Delivered i x]) m) =
      map (\<lambda>(i, g). Delivered i r) (filter (\<lambda>(i, g). \<not> replaying g) m)" for m
    by (induction m) (auto simp: gateDeliver_def)
  then show ?thesis
    by (simp add: recordAccepted_def Let_def deliverToSubs_def topicSubs_def split: option.split)
qed

lemma recordAccepted_queues:
  assumes "map_of (topicSubs n (Topic r)) i = Some g" and "replaying g"
  shows "map_of (topicSubs (recordAccepted n r) (Topic r)) i = Some (g\<lparr>queue := queue g @ [r]\<rparr>)"
proof -
  have "map_of (map (\<lambda>(i, g). (i, fst (gateDeliver g r))) m) i = map_option (\<lambda>g. fst (gateDeliver g r)) (map_of m i)" for m
    by (induction m) auto
  with assms show ?thesis
    by (auto simp: recordAccepted_def Let_def deliverToSubs_def topicSubs_def gateDeliver_def split: option.splits)
qed

lemma stampHLC_eq:
  "stampHLC E n =
     (n\<lparr>eng := (eng n)\<lparr>hlc := now_next (hlc (eng n)) (wallMs E)\<rparr>\<rparr>, now_next (hlc (eng n)) (wallMs E))"
  by (simp add: stampHLC_def HLC_Now_def Let_def)

lemma signRecord_fields [simp]:
  "Topic (signRecord C r p) = Topic r" "NodeID (signRecord C r p) = NodeID r" "Key (signRecord C r p) = Key r"
  "HLC (signRecord C r p) = HLC r" "Body (signRecord C r p) = Body r"
  "Tombstone (signRecord C r p) = Tombstone r" "ObserverNodeID (signRecord C r p) = ObserverNodeID r"
  "keyOf (signRecord C r p) = keyOf r" "IsObserverAttestation (signRecord C r p) = IsObserverAttestation r"
  by (simp_all add: signRecord_def Let_def keyOf_def IsObserverAttestation_def)

lemma signRecord_verified: "ed25519_ok C \<Longrightarrow> verified C (signRecord C r p)"
  by (simp add: verified_def verifyRecord_def signRecord_def Let_def signableBytes_def ed25519_ok_def)

lemma zero_record_fields [simp]:
  "Tombstone zero_record = False" "ObserverNodeID zero_record = []" "Key zero_record = []"
  by (simp_all add: zero_record_def)

subsection \<open>Overwriting one slot\<close>

lemma ApplyExt_overwrite:
  assumes "\<not> IsObserverAttestation r" and "slotMap s (Topic r) (keyOf r) = Some c" and "newer r c"
  shows "fst (snd (ApplyExt s nw r))"
    and "slotMap (fst (ApplyExt s nw r)) t k =
      (if t = Topic r \<and> k = keyOf r then Some r else slotMap s t k)"
proof -
  obtain ts where ts: "map_of (byTopic s) (Topic r) = Some ts" "map_of (records ts) (keyOf r) = Some c"
    using assms(2) by (auto simp: slotMap_def split: option.splits)
  have "slotMap s (Topic r) = map_of (records ts)" using ts(1) by (rule slotMap_topic)
  with assms(1,3) ts show "fst (snd (ApplyExt s nw r))" "slotMap (fst (ApplyExt s nw r)) t k =
      (if t = Topic r \<and> k = keyOf r then Some r else slotMap s t k)"
    by (simp_all add: ApplyExt_def applyOwner_def Let_def slotMap_putTopic)
qed

lemma ApplyExt_outranked:
  assumes "\<not> IsObserverAttestation r" and "slotMap s (Topic r) (keyOf r) = Some c" and "\<not> newer r c"
  shows "slotMap (fst (ApplyExt s nw r)) = slotMap s"
proof -
  obtain ts where ts: "map_of (byTopic s) (Topic r) = Some ts" "map_of (records ts) (keyOf r) = Some c"
    using assms(2) by (auto simp: slotMap_def split: option.splits)
  with assms(1,3) show ?thesis by (simp add: ApplyExt_def applyOwner_def Let_def)
qed

lemma ApplyExt_refused:
  assumes "wf_store s" and "\<not> IsObserverAttestation r" and "\<not> fst (snd (ApplyExt s nw r))"
  shows "slotMap (fst (ApplyExt s nw r)) = slotMap s"
  using assms(1)
proof (cases rule: ApplyExt_cases [where r = r and nowMs = nw])
  case capped
  then show ?thesis by simp
next
  case (owner s1 ts)
  then show ?thesis
    using assms(3) by (auto simp: applyOwner_def Let_def split: option.splits if_splits)
next
  case (attestation s1 ts)
  with assms(2) show ?thesis by simp
qed

lemma ApplyExt_room:
  assumes "wf_store s" and "\<not> IsObserverAttestation r" and "fits s (Suc 0)"
    and "\<forall>c. slotMap s (Topic r) (keyOf r) = Some c \<longrightarrow> newer r c"
  shows "slotMap (fst (ApplyExt s nw r)) (Topic r) (keyOf r) = Some r"
proof -
  have "storeMap (fst (ApplyExt s nw r)) (fullSlot r) = lww_apply newer fullSlot r (storeMap s) (fullSlot r)"
    using ApplyExt_refines [OF assms(1-3)] by simp
  also have "\<dots> = Some r"
    using assms(4) by (auto simp: lww_apply_def storeMap_fullSlot split: option.split)
  finally show ?thesis by (simp add: storeMap_fullSlot)
qed

subsection \<open>Publishing\<close>

lemma plumPublish_store [simp]:
  "store (plumPublish E e r) = fst (ApplyExt (store e) (nowMs E) r)"
  "hlc (plumPublish E e r) = hlc e"
  by (simp_all add: plumPublish_def Let_def case_prod_beta Apply_fst)

lemma plumPublish_refused:
  "\<not> fst (snd (ApplyExt (store e) (nowMs E) r)) \<Longrightarrow> sent (plumPublish E e r) = sent e"
  by (simp add: plumPublish_def Let_def case_prod_beta Apply_def)

text \<open>The record a keyed publish signs.\<close>

definition publishedRecord :: "env \<Rightarrow> nodeImpl \<Rightarrow> Topic \<Rightarrow> gostring \<Rightarrow> bytes \<Rightarrow> Record" where
  "publishedRecord E n topic key body =
     signRecord (cr E)
       (zero_record\<lparr>Topic := topic, NodeID := nid n, Key := key,
          HLC := now_next (hlc (eng n)) (wallMs E), Body := body\<rparr>) (priv n)"

lemma publishedRecord_fields [simp]:
  "Topic (publishedRecord E n t k b) = t" "NodeID (publishedRecord E n t k b) = nid n"
  "Key (publishedRecord E n t k b) = k" "Body (publishedRecord E n t k b) = b"
  "HLC (publishedRecord E n t k b) = now_next (hlc (eng n)) (wallMs E)"
  "\<not> Tombstone (publishedRecord E n t k b)" "\<not> IsObserverAttestation (publishedRecord E n t k b)"
  "keyOf (publishedRecord E n t k b) = RecordKey (nid n) k"
  by (simp_all add: publishedRecord_def keyOf_def IsObserverAttestation_def)

lemma PublishKeyed_eq:
  assumes "wired n" and "\<not> stopped n" and "int (length body) \<le> cfg_MaxRecordBytes (cfg n)"
    and "length key \<le> MaxKeyBytes"
  shows "PublishKeyed E n topic key body =
    (recordAccepted
       (n\<lparr>eng := plumPublish E ((eng n)\<lparr>hlc := now_next (hlc (eng n)) (wallMs E)\<rparr>)
                  (publishedRecord E n topic key body)\<rparr>)
       (publishedRecord E n topic key body), Returns None)"
  using assms
  by (simp add: PublishKeyed_def stampHLC_eq Let_def publishSigned_def publishedRecord_def)

lemma GetKeyed_slotMap:
  "GetKeyed s t i k = (case slotMap s t (RecordKey i k) of
     None \<Rightarrow> None | Some r \<Rightarrow> if Tombstone r then None else Some r)"
  by (simp add: GetKeyed_def slotMap_def split: option.split)


text \<open>C35: A refused publish is reported as accepted: when the store declines the record a publish signed
  (a cap, or a newer record in the slot), no slot changes and nothing is sent, yet the call
  returns no error and the accepted-change hook is called with the record.\<close>

theorem refused_publish_is_reported:
  assumes "wired n" and "\<not> stopped n" and "int (length body) \<le> cfg_MaxRecordBytes (cfg n)"
    and "length key \<le> MaxKeyBytes" and "wf_store (store (eng n))" and "cfg_OnAccepted (cfg n)"
    and "\<not> fst (snd (ApplyExt (store (eng n)) (nowMs E) (publishedRecord E n topic key body)))"
    and "PublishKeyed E n topic key body = (n', res)"
  shows "res = Returns None \<and> slotMap (store (eng n')) = slotMap (store (eng n)) \<and>
    sent (eng n') = sent (eng n) \<and> Accepted (publishedRecord E n topic key body) \<in> set (events n')"
proof -
  let ?r = "publishedRecord E n topic key body"
  let ?e = "(eng n)\<lparr>hlc := now_next (hlc (eng n)) (wallMs E)\<rparr>"
  have n': "n' = recordAccepted (n\<lparr>eng := plumPublish E ?e ?r\<rparr>) ?r" and res: "res = Returns None"
    using PublishKeyed_eq [OF assms(1-4), of E topic] assms(8) by simp_all
  have "slotMap (store (eng n')) = slotMap (store (eng n))"
    using ApplyExt_refused [OF assms(5) _ assms(7)] by (simp add: n')
  moreover have "sent (eng n') = sent (eng n)"
    using plumPublish_refused [of ?e E ?r] assms(7) by (simp add: n')
  moreover have "Accepted ?r \<in> set (events n')"
    unfolding n' by (rule recordAccepted_event) (use assms(6) in simp)
  ultimately show ?thesis using res by simp
qed

subsection \<open>Changing the tenant\<close>

lemma applyAndNotify_fields [simp]:
  "nid (applyAndNotify E n r) = nid n" "priv (applyAndNotify E n r) = priv n"
  "wired (applyAndNotify E n r) = wired n" "hlc (eng (applyAndNotify E n r)) = hlc (eng n)"
  "store (eng (applyAndNotify E n r)) = fst (ApplyExt (store (eng n)) (nowMs E) r)"
  "tenant (applyAndNotify E n r) = tenant n"
  by (simp_all add: applyAndNotify_def Let_def case_prod_beta Apply_fst)

lemma retireSlot_fields [simp]:
  "nid (retireSlot E n r) = nid n" "priv (retireSlot E n r) = priv n" "wired (retireSlot E n r) = wired n"
  "hlc (eng (retireSlot E n r)) = now_next (hlc (eng n)) (wallMs E)" "tenant (retireSlot E n r) = tenant n"
  by (simp_all add: retireSlot_def stampHLC_eq Let_def)

text \<open>No live slot of the node is stamped later than its clock.\<close>

definition clockCovers :: "nodeImpl \<Rightarrow> bool" where
  "clockCovers n \<longleftrightarrow>
     (\<forall>t k c. slotMap (store (eng n)) t k = Some c \<longrightarrow> rkNodeID k = nid n \<longrightarrow> \<not> Tombstone c \<longrightarrow> HLC c \<le> hlc (eng n))"

lemma retireSlot_slots:
  assumes "slotMap (store (eng n)) (Topic r) (RecordKey (nid n) (Key r)) = Some c" and "clockCovers n"
    and "hlc (eng n) < now_next (hlc (eng n)) (wallMs E)"
  obtains x where "Tombstone x"
    "\<forall>t k. slotMap (store (eng (retireSlot E n r))) t k =
       (if t = Topic r \<and> k = RecordKey (nid n) (Key r) then Some x else slotMap (store (eng n)) t k)"
proof -
  define tomb where "tomb = signRecord (cr E)
      (zero_record\<lparr>Topic := Topic r, NodeID := nid n, Key := Key r,
         HLC := now_next (hlc (eng n)) (wallMs E), Tombstone := True\<rparr>) (priv n)"
  have tomb: "Tombstone tomb" "HLC tomb = now_next (hlc (eng n)) (wallMs E)" "Topic tomb = Topic r"
    "keyOf tomb = RecordKey (nid n) (Key r)" "\<not> IsObserverAttestation tomb"
    by (simp_all add: tomb_def keyOf_def IsObserverAttestation_def)
  have st: "store (eng (retireSlot E n r)) = fst (ApplyExt (store (eng n)) (nowMs E) tomb)"
    by (simp add: retireSlot_def stampHLC_eq Let_def tomb_def)
  have slot: "slotMap (store (eng n)) (Topic tomb) (keyOf tomb) = Some c" using assms(1) tomb by simp
  show ?thesis
  proof (cases "newer tomb c")
    case True
    with ApplyExt_overwrite(2) [OF tomb(5) slot] tomb show ?thesis by (intro that [of tomb]) (simp_all add: st)
  next
    case False
    have "Tombstone c"
    proof (rule ccontr)
      assume "\<not> Tombstone c"
      then have "HLC c \<le> hlc (eng n)" using assms(1,2) by (auto simp: clockCovers_def)
      with False assms(3) tomb(2) show False by (auto simp: newer_def)
    qed
    with ApplyExt_outranked [OF tomb(5) slot False] assms(1) show ?thesis by (intro that [of c]) (simp_all add: st)
  qed
qed

lemma now_next_room:
  assumes "unat w < 2 ^ 48" and "unat (hlc_ctr h) + Suc m < 65536"
  shows "h < now_next h w" and "unat (hlc_ctr (now_next h w)) + m < 65536"
proof -
  have "hlc_ctr h \<noteq> 0xFFFF" using assms(2) by auto
  then show "h < now_next h w" using assms(1) by (intro now_next_greater) (auto simp: saturated_def)
  have "unat (now_next h w) mod 65536 \<le> Suc (unat (hlc_ctr h))"
    unfolding unat_now_next [OF assms(1)] by simp
  then show "unat (hlc_ctr (now_next h w)) + m < 65536"
    using assms(2) by (simp add: unat_hlc_ctr)
qed

lemma foldl_retireSlot:
  assumes "\<forall>r\<in>set rs. slotMap (store (eng n)) (Topic r) (RecordKey (nid n) (Key r)) \<noteq> None"
    and "clockCovers n" and "unat (wallMs E) < 2 ^ 48" and "unat (hlc_ctr (hlc (eng n))) + length rs < 65536"
  shows "(if \<exists>r\<in>set rs. t = Topic r \<and> k = RecordKey (nid n) (Key r)
      then \<exists>c. slotMap (store (eng (foldl (retireSlot E) n rs))) t k = Some c \<and> Tombstone c
      else slotMap (store (eng (foldl (retireSlot E) n rs))) t k = slotMap (store (eng n)) t k) \<and>
    nid (foldl (retireSlot E) n rs) = nid n \<and> tenant (foldl (retireSlot E) n rs) = tenant n"
  using assms
proof (induction rs arbitrary: n)
  case Nil
  then show ?case by simp
next
  case (Cons r rs)
  let ?n = "retireSlot E n r"
  obtain c where c: "slotMap (store (eng n)) (Topic r) (RecordKey (nid n) (Key r)) = Some c"
    using Cons.prems(1) by auto
  have room: "hlc (eng n) < now_next (hlc (eng n)) (wallMs E)"
    "unat (hlc_ctr (now_next (hlc (eng n)) (wallMs E))) + length rs < 65536"
    using now_next_room [OF Cons.prems(3), of "hlc (eng n)" "length rs"] Cons.prems(4) by simp_all
  obtain x where x: "Tombstone x"
    "\<forall>t k. slotMap (store (eng ?n)) t k =
       (if t = Topic r \<and> k = RecordKey (nid n) (Key r) then Some x else slotMap (store (eng n)) t k)"
    by (rule retireSlot_slots [OF c Cons.prems(2) room(1)])
  have covers: "clockCovers ?n"
    unfolding clockCovers_def
  proof (intro allI impI)
    fix t k c assume slot: "slotMap (store (eng ?n)) t k = Some c" "rkNodeID k = nid ?n" "\<not> Tombstone c"
    then have "slotMap (store (eng n)) t k = Some c" using x by (auto split: if_splits)
    then have "HLC c \<le> hlc (eng n)" using slot(2,3) Cons.prems(2) by (auto simp: clockCovers_def)
    with room(1) show "HLC c \<le> hlc (eng ?n)" by simp
  qed
  have slots: "\<forall>r'\<in>set rs. slotMap (store (eng ?n)) (Topic r') (RecordKey (nid ?n) (Key r')) \<noteq> None"
    using Cons.prems(1) x(2) by auto
  have len: "unat (hlc_ctr (hlc (eng ?n))) + length rs < 65536" using room(2) by simp
  from Cons.IH [OF slots covers Cons.prems(3) len] show ?case
    using x by (auto split: if_splits)
qed

lemma set_ownSlots:
  assumes "wf_store s"
  shows "r \<in> set (ownSlots s i) \<longleftrightarrow> slotMap s (Topic r) (keyOf r) = Some r \<and> NodeID r = i"
proof
  assume "r \<in> set (ownSlots s i)"
  then obtain t ts k where ts: "(t, ts) \<in> set (byTopic s)" "(k, r) \<in> set (records ts)" "rkNodeID k = i"
    by (auto simp: ownSlots_def)
  have "wf_map (byTopic s)" using assms by (simp add: wf_store_def)
  then have look: "map_of (byTopic s) t = Some ts" using ts(1) by simp
  then have wf: "wf_records t (records ts)" using wf_storeD [OF assms] by (simp add: wf_topic_def)
  then have "map_of (records ts) k = Some r" using ts(2) by (simp add: wf_records_def)
  with wf_recordsD [OF wf this] look ts(3) show "slotMap s (Topic r) (keyOf r) = Some r \<and> NodeID r = i"
    by (auto simp: slotMap_def keyOf_def)
next
  assume r: "slotMap s (Topic r) (keyOf r) = Some r \<and> NodeID r = i"
  then obtain ts where "map_of (byTopic s) (Topic r) = Some ts" "map_of (records ts) (keyOf r) = Some r"
    by (auto simp: slotMap_def split: option.splits)
  then have "(Topic r, ts) \<in> set (byTopic s)" "(keyOf r, r) \<in> set (records ts)" by (simp_all add: map_of_SomeD)
  with r show "r \<in> set (ownSlots s i)" by (force simp: ownSlots_def keyOf_def)
qed

text \<open>Retiring all own slots: each becomes a tombstone, every other slot stays.\<close>

lemma retire_own_slots:
  assumes "wf_store (store (eng n))" and "clockCovers n" and "unat (wallMs E) < 2 ^ 48"
    and "unat (hlc_ctr (hlc (eng n))) + length (ownSlots (store (eng n)) (nid n)) < 65536"
    and "n' = foldl (retireSlot E) n (ownSlots (store (eng n)) (nid n))"
  shows "rkNodeID k = nid n \<Longrightarrow> slotMap (store (eng n)) tp k = Some c \<Longrightarrow>
      \<exists>c'. slotMap (store (eng n')) tp k = Some c' \<and> Tombstone c'"
    and "rkNodeID k \<noteq> nid n \<or> slotMap (store (eng n)) tp k = None \<Longrightarrow>
      slotMap (store (eng n')) tp k = slotMap (store (eng n)) tp k"
    and "tenant n' = tenant n"
proof -
  let ?own = "ownSlots (store (eng n)) (nid n)"
  have own: "\<forall>r\<in>set ?own. slotMap (store (eng n)) (Topic r) (RecordKey (nid n) (Key r)) \<noteq> None"
    using set_ownSlots [OF assms(1)] by (auto simp: keyOf_def)
  note fold = foldl_retireSlot [OF own assms(2-4), of tp k, folded assms(5)]
  show "tenant n' = tenant n" using fold by simp
  show "\<exists>c'. slotMap (store (eng n')) tp k = Some c' \<and> Tombstone c'"
    if "rkNodeID k = nid n" "slotMap (store (eng n)) tp k = Some c"
  proof -
    have "c \<in> set ?own" "tp = Topic c" "k = RecordKey (nid n) (Key c)"
      using that slotMap_wf [OF assms(1) that(2)] set_ownSlots [OF assms(1)] by (auto simp: keyOf_def)
    then have ex: "\<exists>r\<in>set ?own. tp = Topic r \<and> k = RecordKey (nid n) (Key r)" by blast
    show ?thesis using fold ex by presburger
  qed
  show "slotMap (store (eng n')) tp k = slotMap (store (eng n)) tp k"
    if "rkNodeID k \<noteq> nid n \<or> slotMap (store (eng n)) tp k = None"
  proof -
    have ex: "\<not> (\<exists>r\<in>set ?own. tp = Topic r \<and> k = RecordKey (nid n) (Key r))"
      using that own by auto
    show ?thesis using fold ex by presburger
  qed
qed


subsection \<open>A sample node\<close>

definition sampleConfig :: Config where
  "sampleConfig =
     \<lparr>cfg_NodeID = [1], cfg_PrivKey = replicate 64 7, cfg_PerPeerConfig = None, cfg_MaxRecordBytes = 100,
      cfg_TreeDegree = 4, cfg_GraftDelay = 0, cfg_MerkleProbeInterval = 0, cfg_TrustCheck = None,
      cfg_RequireNodeKeyBinding = False, cfg_MaxClockSkew = 0, cfg_MaxTopics = 1,
      cfg_MaxRecordsPerTopic = 0, cfg_MaxKeysPerNodePerTopic = 0, cfg_MaxAttestationsPerTarget = 0,
      cfg_MaxPendingIHaves = 0, cfg_TopicTTL = None, cfg_OnAccepted = True, cfg_OnPaused = False,
      cfg_OnResumed = False, cfg_DisableBackgroundTicker = True\<rparr>"

definition sampleNode :: "recordStore \<Rightarrow> nodeImpl" where
  "sampleNode s =
     \<lparr>cfg = sampleConfig, priv = replicate 64 7, nid = [1], eng = sampleEngine s, subs = [], subSeq = 0,
      started = True, wired = True, stopped = False, paused = False, role = RoleLeaf, tenant = [],
      roleHooks = 0, tenantHooks = 0, events = []\<rparr>"

lemma sampleNode_fields [simp]:
  "wired (sampleNode s)" "\<not> stopped (sampleNode s)" "cfg (sampleNode s) = sampleConfig" "nid (sampleNode s) = [1]"
  "store (eng (sampleNode s)) = s" "hlc (eng (sampleNode s)) = 0" "tenant (sampleNode s) = []"
  "cfg_MaxRecordBytes sampleConfig = 100" "cfg_OnAccepted sampleConfig"
  by (simp_all add: sampleNode_def sampleEngine_def sampleConfig_def)

lemma sampleEnv_clock: "wallMs sampleEnv = 2000" "nowMs sampleEnv = 2000"
  by (simp_all add: sampleEnv_def UnixMilli_def millisecond_def)

text \<open>The node with an open subscription, handle 3, and one still replaying, handle 4.\<close>

definition subscribedNode :: nodeImpl where
  "subscribedNode = (sampleNode newRecordStore)\<lparr>subs :=
     [([116], [(3, \<lparr>replaying = False, queue = []\<rparr>), (4, \<lparr>replaying = True, queue = []\<rparr>)])]\<rparr>"


definition fullStore :: recordStore where
  "fullStore = applyAll (setCaps newRecordStore 1 0 0 0) [(1, sampleRecord [2] [] 5 [9])]"

lemma fullStore_wf: "wf_store fullStore"
  unfolding fullStore_def
  by (intro applyAll_wf) (simp add: wf_store_def newRecordStore_def setCaps_def)

lemma fullStore_eq:
  "map_of (byTopic fullStore) [117] = None" "int (length (byTopic fullStore)) \<ge> maxTopics fullStore"
  by (simp_all add: fullStore_def sampleRecord_def zero_record_def store_eval)

theorem refused_publish_is_reported_witness:
  "snd (PublishKeyed sampleEnv (sampleNode fullStore) [117] [] [1]) = Returns None \<and>
   sent (eng (fst (PublishKeyed sampleEnv (sampleNode fullStore) [117] [] [1]))) = [] \<and>
   slotMap (store (eng (fst (PublishKeyed sampleEnv (sampleNode fullStore) [117] [] [1])))) [117] = Map.empty \<and>
   Accepted (publishedRecord sampleEnv (sampleNode fullStore) [117] [] [1])
     \<in> set (events (fst (PublishKeyed sampleEnv (sampleNode fullStore) [117] [] [1])))"
proof -
  let ?n = "sampleNode fullStore"
  let ?p = "PublishKeyed sampleEnv ?n [117] [] [1]"
  have "\<not> fst (snd (ApplyExt (store (eng ?n)) (nowMs sampleEnv) (publishedRecord sampleEnv ?n [117] [] [1])))"
    using fullStore_eq by (simp add: ApplyExt_def)
  from refused_publish_is_reported [of ?n "[1]" "[]" sampleEnv "[117]" "fst ?p" "snd ?p", OF _ _ _ _ _ _ this]
  show ?thesis
    using fullStore_wf fullStore_eq(1)
    by (simp add: MaxKeyBytes_def slotMap_def) (simp add: sampleNode_def sampleEngine_def)
qed


end
