(* ===== verification/Subscription.thy ===== *)
theory Subscription
  imports Node_Props
begin

text \<open>
  One subscription of \<open>src/node.go\<close> under concurrency. \<open>Subscribe\<close> runs in one goroutine: register,
  snapshot, replay the snapshot, then \<open>finishReplay\<close> drains the gate's queue batch by batch and
  opens the gate. Any number of other goroutines apply owner records on the topic and then run
  \<open>deliverToSubs\<close>, which has three moments: it copies the callbacks under the lock, the gate's
  \<open>deliver\<close> decides under its mutex, and the subscriber is entered. Steps of all of them
  interleave freely. Tombstones synthesised from attestations are not among the records applied
  here, since what the node delivers for those is the attestation itself.
\<close>

subsection \<open>The transition system\<close>

datatype phase =
    Unregistered
  | Registered
  | Replaying "Record list"
  | Draining "Record list"
  | Live

record subSys =
  sysStore :: recordStore
  snap :: "Record list"
  ph :: phase
  sgate :: subGate
  undelivered :: "Record list"
  looked :: "Record list"
  entering :: "Record list"
  seen :: "Record list"

inductive sub_step :: "Topic \<Rightarrow> subSys \<Rightarrow> subSys \<Rightarrow> bool" for topic where
  accept: "Topic r = topic \<Longrightarrow> \<not> IsObserverAttestation r \<Longrightarrow>
    ApplyExt (sysStore s) nw r = (st, True, replaced, accumulated) \<Longrightarrow>
    sub_step topic s (s\<lparr>sysStore := st, undelivered := undelivered s @ [r]\<rparr>)"
| lookup: "undelivered s = us @ r # vs \<Longrightarrow>
    sub_step topic s (s\<lparr>undelivered := us @ vs,
      looked := (if ph s = Unregistered then looked s else looked s @ [r])\<rparr>)"
| arrive: "looked s = us @ r # vs \<Longrightarrow> gateDeliver (sgate s) r = (g, out) \<Longrightarrow>
    sub_step topic s (s\<lparr>looked := us @ vs, sgate := g,
      entering := entering s @ (case out of None \<Rightarrow> [] | Some x \<Rightarrow> [x])\<rparr>)"
| enter: "entering s = us @ r # vs \<Longrightarrow>
    sub_step topic s (s\<lparr>entering := us @ vs, seen := seen s @ [r]\<rparr>)"
| register: "ph s = Unregistered \<Longrightarrow>
    sub_step topic s (s\<lparr>ph := Registered, sgate := \<lparr>replaying = True, queue = []\<rparr>\<rparr>)"
| snapshot: "ph s = Registered \<Longrightarrow> rs = topicRecordsAll (sysStore s) topic \<Longrightarrow>
    sub_step topic s (s\<lparr>ph := Replaying rs, snap := rs\<rparr>)"
| replay: "ph s = Replaying (r # rs) \<Longrightarrow>
    sub_step topic s (s\<lparr>ph := Replaying rs, seen := seen s @ [cloneRecord r]\<rparr>)"
| finish: "ph s = Replaying [] \<Longrightarrow> sub_step topic s (s\<lparr>ph := Draining []\<rparr>)"
| batch: "ph s = Draining [] \<Longrightarrow> queue (sgate s) \<noteq> [] \<Longrightarrow>
    sub_step topic s (s\<lparr>ph := Draining (queue (sgate s)), sgate := (sgate s)\<lparr>queue := []\<rparr>\<rparr>)"
| drain: "ph s = Draining (r # rs) \<Longrightarrow>
    sub_step topic s (s\<lparr>ph := Draining rs,
      seen := seen s @ (if replayCovers (replayedMap (snap s)) r then [] else [r])\<rparr>)"
| open_gate: "ph s = Draining [] \<Longrightarrow> queue (sgate s) = [] \<Longrightarrow>
    sub_step topic s (s\<lparr>ph := Live, sgate := (sgate s)\<lparr>replaying := False\<rparr>\<rparr>)"

subsection \<open>Invariant\<close>

text \<open>Records on their way to the subscriber.\<close>

definition inBatch :: "subSys \<Rightarrow> Record list" where
  "inBatch s = (case ph s of Draining b \<Rightarrow> b | _ \<Rightarrow> [])"

definition onTheWay :: "subSys \<Rightarrow> Record list" where
  "onTheWay s = undelivered s @ looked s @ queue (sgate s) @ inBatch s @ entering s"

definition coveredBy :: "Record list \<Rightarrow> recordKey \<Rightarrow> Record \<Rightarrow> bool" where
  "coveredBy xs k c \<longleftrightarrow> (\<exists>x\<in>set xs. keyOf x = k \<and> HLC c \<le> HLC x)"

definition phaseOK :: "subSys \<Rightarrow> bool" where
  "phaseOK s =
     (case ph s of
        Unregistered \<Rightarrow> looked s = [] \<and> seen s = [] \<and> entering s = []
      | Registered \<Rightarrow> replaying (sgate s) \<and> seen s = [] \<and> entering s = []
      | Replaying rs \<Rightarrow> replaying (sgate s) \<and> seen s @ rs = snap s \<and> entering s = []
      | Draining b \<Rightarrow> replaying (sgate s) \<and> (\<exists>later. seen s = snap s @ later) \<and> entering s = []
      | Live \<Rightarrow> \<not> replaying (sgate s) \<and> queue (sgate s) = [] \<and> (\<exists>later. seen s = snap s @ later))"

definition slotsCovered :: "Topic \<Rightarrow> subSys \<Rightarrow> bool" where
  "slotsCovered topic s \<longleftrightarrow>
     (ph s \<noteq> Unregistered \<longrightarrow> ph s \<noteq> Registered \<longrightarrow>
      (\<forall>k c. slotMap (sysStore s) topic k = Some c \<longrightarrow>
         c \<in> set (onTheWay s) \<or> coveredBy (snap s @ seen s) k c))"

lemma replayedMap_mem:
  assumes "map_of (replayedMap rs) k = Some h"
  shows "\<exists>x\<in>set rs. keyOf x = k \<and> HLC x = h"
proof -
  have "map_of (foldl (\<lambda>m r. AList.update (keyOf r) (HLC r) m) m rs) k = Some h \<Longrightarrow>
      map_of m k = Some h \<or> (\<exists>x\<in>set rs. keyOf x = k \<and> HLC x = h)" for m
    by (induction rs arbitrary: m) (fastforce split: if_splits)+
  from this [of "[]"] assms show ?thesis by (simp add: replayedMap_def)
qed

lemma replayCovers_covered: "replayCovers (replayedMap rs) r \<Longrightarrow> coveredBy rs (keyOf r) r"
  using replayedMap_mem by (fastforce simp: replayCovers_def coveredBy_def split: option.splits)

lemma coveredBy_mono: "coveredBy xs k c \<Longrightarrow> set xs \<subseteq> set ys \<Longrightarrow> coveredBy ys k c"
  by (auto simp: coveredBy_def)

lemma topicRecordsAll_mem:
  assumes "wf_store s" and "slotMap s t k = Some c"
  shows "c \<in> set (topicRecordsAll s t)"
  using assms slotMap_wf [OF assms] topicRecordsWhere_exact(2) [OF assms(1)]
  by (auto simp: topicRecordsAll_def)

lemma step_phaseOK: "sub_step topic s s' \<Longrightarrow> phaseOK s \<Longrightarrow> phaseOK s'"
  by (induction rule: sub_step.induct)
    (auto simp: phaseOK_def gateDeliver_def split: phase.splits if_splits)

lemma step_wf: "sub_step topic s s' \<Longrightarrow> wf_store (sysStore s) \<Longrightarrow> wf_store (sysStore s')"
proof (induction rule: sub_step.induct)
  case (accept r s nw st replaced accumulated)
  then show ?case using ApplyExt_wf [of "sysStore s" nw r] by simp
qed simp_all

lemma coveredI:
  assumes "wf_store st" and "slotMap st t k = Some c" and "c \<in> set xs"
  shows "coveredBy xs k c"
  using assms(3) slotMap_wf [OF assms(1,2)] by (auto simp: coveredBy_def)

text \<open>A step that changes neither the store nor loses a record on its way keeps the cover.\<close>

lemma covered_move:
  assumes "slotsCovered topic s" and "ph s \<noteq> Unregistered" and "ph s \<noteq> Registered"
    and "sysStore s' = sysStore s" and "snap s' = snap s" and "set (seen s) \<subseteq> set (seen s')"
    and "\<forall>k c. slotMap (sysStore s) topic k = Some c \<longrightarrow> c \<in> set (onTheWay s) \<longrightarrow>
      c \<in> set (onTheWay s') \<or> coveredBy (snap s' @ seen s') k c"
  shows "slotsCovered topic s'"
  unfolding slotsCovered_def
proof (intro impI allI)
  fix k c assume c: "slotMap (sysStore s') topic k = Some c"
  then have "c \<in> set (onTheWay s) \<or> coveredBy (snap s @ seen s) k c"
    using assms(1-4) by (simp add: slotsCovered_def)
  then show "c \<in> set (onTheWay s') \<or> coveredBy (snap s' @ seen s') k c"
  proof
    assume "coveredBy (snap s @ seen s) k c"
    then have "coveredBy (snap s' @ seen s') k c" by (rule coveredBy_mono) (use assms(5,6) in auto)
    then show ?thesis ..
  qed (use c assms(4,7) in auto)
qed

lemma step_covered:
  assumes "sub_step topic s s'" and "wf_store (sysStore s)" and "slotsCovered topic s"
  shows "slotsCovered topic s'"
  using assms
proof (induction rule: sub_step.induct)
  case (accept r s nw st replaced accumulated)
  have "c \<in> set (onTheWay s @ [r]) \<or> coveredBy (snap s @ seen s) k c"
    if "ph s \<noteq> Unregistered" "ph s \<noteq> Registered" "slotMap st topic k = Some c" for k c
    using owner_slots [OF accept(4) accept(2), of nw topic k c] accept(3,5) that
    by (auto simp: slotsCovered_def)
  then show ?case by (auto simp: slotsCovered_def onTheWay_def inBatch_def)
next
  case (lookup s us r vs)
  show ?case
  proof (cases "ph s = Unregistered \<or> ph s = Registered")
    case False
    then show ?thesis
      using lookup by (intro covered_move [OF lookup(3)]) (auto simp: onTheWay_def inBatch_def)
  qed (auto simp: slotsCovered_def)
next
  case (arrive s us r vs g out)
  show ?case
  proof (cases "ph s = Unregistered \<or> ph s = Registered")
    case False
    then show ?thesis
      using arrive(1,2)
      by (intro covered_move [OF arrive(4)])
        (auto simp: onTheWay_def inBatch_def gateDeliver_def split: if_splits)
  qed (auto simp: slotsCovered_def)
next
  case (enter s us r vs)
  show ?case
  proof (cases "ph s = Unregistered \<or> ph s = Registered")
    case False
    then show ?thesis
      using enter(1) slotMap_wf [OF enter(2)]
      by (intro covered_move [OF enter(3)]) (auto simp: onTheWay_def inBatch_def coveredBy_def)
  qed (auto simp: slotsCovered_def)
next
  case (snapshot s rs)
  have "coveredBy rs k c" if "slotMap (sysStore s) topic k = Some c" for k c
    using coveredI [OF snapshot(3) that] topicRecordsAll_mem [OF snapshot(3) that] snapshot(2) by blast
  then show ?case by (auto simp: slotsCovered_def coveredBy_def)
next
  case (replay s r rs)
  then show ?case by (intro covered_move [OF replay(3)]) (auto simp: onTheWay_def inBatch_def)
next
  case (finish s)
  then show ?case by (intro covered_move [OF finish(3)]) (auto simp: onTheWay_def inBatch_def)
next
  case (batch s)
  then show ?case by (intro covered_move [OF batch(4)]) (auto simp: onTheWay_def inBatch_def)
next
  case (drain s r rs)
  have r: "coveredBy (snap s @ seen s @ [r]) k c \<and>
      (replayCovers (replayedMap (snap s)) r \<longrightarrow> coveredBy (snap s @ seen s) k c)"
    if "slotMap (sysStore s) topic k = Some c" "c = r" for k c
    using that slotMap_wf [OF drain(2) that(1)] replayCovers_covered [of "snap s" r]
    by (auto simp: coveredBy_def)
  show ?case
    by (rule covered_move [OF drain(3)]) (use drain(1) r in \<open>auto simp: onTheWay_def inBatch_def\<close>)
next
  case (open_gate s)
  then show ?case by (intro covered_move [OF open_gate(4)]) (auto simp: onTheWay_def inBatch_def)
qed (simp add: slotsCovered_def)

text \<open>C10: A subscription misses nothing: however registration, snapshot, replay and draining interleave
  with goroutines that apply owner records to the topic and deliver them, the subscriber is never
  entered by another goroutine before the gate opens, it sees the whole snapshot, in order, before
  any live record, and once the gate is open and no delivery is under way, it has seen for every
  slot of the topic a record at least as recent (by clock) as the one the store holds. Tombstones
  of an observer quorum are not part of this: the store writes them without telling subscribers.\<close>

theorem subscription_misses_nothing:
  assumes "(sub_step topic)\<^sup>*\<^sup>* s0 s" and "ph s0 = Unregistered" and "wf_store (sysStore s0)"
    and "looked s0 = [] \<and> entering s0 = [] \<and> seen s0 = []"
  shows "(ph s \<noteq> Live \<longrightarrow> entering s = []) \<and>
    (ph s = Live \<or> (\<exists>b. ph s = Draining b) \<longrightarrow> (\<exists>later. seen s = snap s @ later)) \<and>
    (ph s = Live \<and> undelivered s = [] \<and> looked s = [] \<and> entering s = [] \<longrightarrow>
      (\<forall>k c. slotMap (sysStore s) topic k = Some c \<longrightarrow>
         (\<exists>x\<in>set (seen s). keyOf x = k \<and> HLC c \<le> HLC x)))"
proof -
  have inv: "phaseOK s \<and> wf_store (sysStore s) \<and> slotsCovered topic s"
    using assms(1)
  proof (induction rule: rtranclp_induct)
    case base
    show ?case using assms(2-4) by (simp add: phaseOK_def slotsCovered_def)
  next
    case (step s s')
    then show ?case using step_phaseOK step_wf step_covered by blast
  qed
  have prefix: "\<exists>later. seen s = snap s @ later" if "ph s = Live \<or> (\<exists>b. ph s = Draining b)"
    using inv that by (auto simp: phaseOK_def)
  have "\<exists>x\<in>set (seen s). keyOf x = k \<and> HLC c \<le> HLC x"
    if "ph s = Live \<and> undelivered s = [] \<and> looked s = [] \<and> entering s = []"
      "slotMap (sysStore s) topic k = Some c" for k c
  proof -
    have "onTheWay s = []" using inv that(1) by (simp add: onTheWay_def inBatch_def phaseOK_def)
    then have "coveredBy (snap s @ seen s) k c" using inv that by (auto simp: slotsCovered_def)
    moreover have "set (snap s) \<subseteq> set (seen s)" using prefix that(1) by auto
    ultimately show ?thesis by (auto simp: coveredBy_def)
  qed
  moreover have "entering s = []" if "ph s \<noteq> Live"
    using inv that by (auto simp: phaseOK_def split: phase.splits)
  ultimately show ?thesis using prefix by blast
qed

subsection \<open>Runs\<close>

definition sub :: "recordStore \<Rightarrow> Record list \<Rightarrow> phase \<Rightarrow> bool \<Rightarrow> Record list \<Rightarrow> Record list \<Rightarrow> Record list \<Rightarrow>
    Record list \<Rightarrow> Record list \<Rightarrow> subSys" where
  "sub st sn p rep q und lo en se =
     \<lparr>sysStore = st, snap = sn, ph = p, sgate = \<lparr>replaying = rep, queue = q\<rparr>, undelivered = und, looked = lo,
      entering = en, seen = se\<rparr>"

definition freshSub :: subSys where
  "freshSub = sub newRecordStore [] Unregistered False [] [] [] [] []"

definition subRecord :: "bytes \<Rightarrow> Record" where
  "subRecord g = sampleRecord [5] [] 7 g"

definition oneStore :: "bytes \<Rightarrow> recordStore" where
  "oneStore g = newRecordStore\<lparr>byTopic :=
     [([116], \<lparr>records = [(RecordKey [5] [], subRecord g)], attestations = [], restoredAtUnixMs = [([5], 1)]\<rparr>)]\<rparr>"

lemma subRecord_fields:
  "Topic (subRecord g) = [116]" "keyOf (subRecord g) = RecordKey [5] []" "\<not> IsObserverAttestation (subRecord g)"
  "HLC (subRecord g) = 7" "Sig (subRecord g) = g" "NodeID (subRecord g) = [5]" "\<not> Tombstone (subRecord g)"
  by (simp_all add: subRecord_def sampleRecord_def zero_record_def keyOf_def IsObserverAttestation_def)

lemma accept_first: "ApplyExt newRecordStore 1 (subRecord g) = (oneStore g, True, False, False)"
  by (simp add: ApplyExt_def applyOwner_def stampRestored_def putTopic_def newTopicStore_def
      subRecord_fields oneStore_def newRecordStore_def setCaps_def DefaultMaxKeysPerNodePerTopic_def Let_def)

lemma accept_tie: "ApplyExt (oneStore [8]) 1 (subRecord [9]) = (oneStore [9], True, True, False)"
  by (simp add: ApplyExt_def applyOwner_def stampRestored_def putTopic_def newer_def dropWitnesses_def
      subRecord_fields oneStore_def newRecordStore_def setCaps_def Let_def)

lemma topicRecordsAll_samples:
  "topicRecordsAll newRecordStore [116] = []" "topicRecordsAll (oneStore g) [116] = [subRecord g]"
  by (simp_all add: topicRecordsAll_def topicRecordsWhere_def oneStore_def newRecordStore_def setCaps_def
      sort_slice_sorted)

text \<open>The steps on states in this form, and chaining them.\<close>

lemma sub_register: "sub_step t (sub st sn Unregistered rep q u l en se) (sub st sn Registered True [] u l en se)"
  using register [of "sub st sn Unregistered rep q u l en se" t] by (simp add: sub_def)

lemma sub_snapshot:
  "topicRecordsAll st t = rs \<Longrightarrow>
   sub_step t (sub st sn Registered rep q u l en se) (sub st rs (Replaying rs) rep q u l en se)"
  using snapshot [of "sub st sn Registered rep q u l en se" rs t] by (simp add: sub_def)

lemma sub_replay: "sub_step t (sub st sn (Replaying (r # rs)) rep q u l en se) (sub st sn (Replaying rs) rep q u l en (se @ [r]))"
  using replay [of "sub st sn (Replaying (r # rs)) rep q u l en se" r rs t] by (simp add: sub_def)

lemma sub_finish: "sub_step t (sub st sn (Replaying []) rep q u l en se) (sub st sn (Draining []) rep q u l en se)"
  using finish [of "sub st sn (Replaying []) rep q u l en se" t] by (simp add: sub_def)

lemma sub_accept:
  "ApplyExt st nw (subRecord g) = (st', True, a, b) \<Longrightarrow>
   sub_step [116] (sub st sn p rep q u l en se) (sub st' sn p rep q (u @ [subRecord g]) l en se)"
  using accept [of "subRecord g" "[116]" "sub st sn p rep q u l en se" nw st' a b]
  by (simp add: sub_def subRecord_fields)

lemma sub_lookup: "p \<noteq> Unregistered \<Longrightarrow> sub_step t (sub st sn p rep q [r] l en se) (sub st sn p rep q [] (l @ [r]) en se)"
  using lookup [of "sub st sn p rep q [r] l en se" "[]" r "[]" t] by (simp add: sub_def)

lemma sub_lookup_early: "sub_step t (sub st sn Unregistered rep q [r] l en se) (sub st sn Unregistered rep q [] l en se)"
  using lookup [of "sub st sn Unregistered rep q [r] l en se" "[]" r "[]" t] by (simp add: sub_def)

lemma sub_enqueue: "sub_step t (sub st sn p True q u [r] en se) (sub st sn p True (q @ [r]) u [] en se)"
  using arrive [of "sub st sn p True q u [r] en se" "[]" r "[]" _ _ t] by (simp add: sub_def gateDeliver_def)

lemma sub_pass: "sub_step t (sub st sn p False q u [r] en se) (sub st sn p False q u [] (en @ [r]) se)"
  using arrive [of "sub st sn p False q u [r] en se" "[]" r "[]" _ _ t] by (simp add: sub_def gateDeliver_def)

lemma sub_enter: "sub_step t (sub st sn p rep q u l [r] se) (sub st sn p rep q u l [] (se @ [r]))"
  using enter [of "sub st sn p rep q u l [r] se" "[]" r "[]" t] by (simp add: sub_def)

lemma sub_batch:
  "q \<noteq> [] \<Longrightarrow> sub_step t (sub st sn (Draining []) rep q u l en se) (sub st sn (Draining q) rep [] u l en se)"
  using batch [of "sub st sn (Draining []) rep q u l en se" t] by (simp add: sub_def)

lemma sub_drain:
  "xs = (if replayCovers (replayedMap sn) r then [] else [r]) \<Longrightarrow>
   sub_step t (sub st sn (Draining (r # rs)) rep q u l en se) (sub st sn (Draining rs) rep q u l en (se @ xs))"
  using drain [of "sub st sn (Draining (r # rs)) rep q u l en se" r rs t] by (simp add: sub_def)

lemma sub_open: "sub_step t (sub st sn (Draining []) rep [] u l en se) (sub st sn Live False [] u l en se)"
  using open_gate [of "sub st sn (Draining []) rep [] u l en se" t] by (simp add: sub_def)

lemma run_cons: "sub_step t x y \<Longrightarrow> (sub_step t)\<^sup>*\<^sup>* y z \<Longrightarrow> (sub_step t)\<^sup>*\<^sup>* x z"
  by (rule converse_rtranclp_into_rtranclp)

text \<open>The record arrives while the (empty) replay is being finished.\<close>

lemma queued_run: "(sub_step [116])\<^sup>*\<^sup>* freshSub (sub (oneStore [9]) [] Live False [] [] [] [] [subRecord [9]])"
proof -
  have "[subRecord [9]] = (if replayCovers (replayedMap []) (subRecord [9]) then [] else [subRecord [9]])"
    by (simp add: replayCovers_def replayedMap_def)
  note drained = sub_drain [OF this]
  show ?thesis
    unfolding freshSub_def
    by (rule run_cons [OF sub_register], rule run_cons [OF sub_snapshot [OF topicRecordsAll_samples(1)]],
        rule run_cons [OF sub_finish], rule run_cons [OF sub_accept [OF accept_first]], unfold append.simps,
        rule run_cons [OF sub_lookup], simp, unfold append.simps, rule run_cons [OF sub_enqueue],
        unfold append.simps, rule run_cons [OF sub_batch], simp, rule run_cons [OF drained],
        unfold append.simps, rule run_cons [OF sub_open], rule rtranclp.rtrancl_refl)
qed

theorem subscription_misses_nothing_witness:
  "\<exists>x\<in>set (seen (sub (oneStore [9]) [] Live False [] [] [] [] [subRecord [9]])).
     keyOf x = RecordKey [5] [] \<and> HLC (subRecord [9]) \<le> HLC x"
proof -
  let ?fin = "sub (oneStore [9]) [] Live False [] [] [] [] [subRecord [9]]"
  have "ph freshSub = Unregistered" "wf_store (sysStore freshSub)"
    "looked freshSub = [] \<and> entering freshSub = [] \<and> seen freshSub = []"
    by (simp_all add: freshSub_def sub_def)
  from subscription_misses_nothing [OF queued_run this]
  have "\<forall>k c. slotMap (sysStore ?fin) [116] k = Some c \<longrightarrow> (\<exists>x\<in>set (seen ?fin). keyOf x = k \<and> HLC c \<le> HLC x)"
    by (simp add: sub_def)
  moreover have "slotMap (sysStore ?fin) [116] (RecordKey [5] []) = Some (subRecord [9])"
    by (simp add: sub_def slotMap_def oneStore_def)
  ultimately show ?thesis by blast
qed

subsection \<open>What the gate does not exclude\<close>

text \<open>C36: A record can be delivered twice, and an update can be skipped: when a record enters the store
  before the snapshot and its delivery runs after the gate has opened, the subscriber sees it in
  the replay and again live; and when a record wins its slot by the signature tie-break (same clock
  as the replayed one) while replay runs, the gate drops it and the subscriber never sees what the
  store now holds.\<close>

theorem replay_duplicates_and_drops_ties:
  "(\<exists>s. (sub_step [116])\<^sup>*\<^sup>* freshSub s \<and> ph s = Live \<and> seen s = [subRecord [9], subRecord [9]]) \<and>
   (\<exists>s. (sub_step [116])\<^sup>*\<^sup>* freshSub s \<and> ph s = Live \<and> undelivered s = [] \<and> looked s = [] \<and> entering s = [] \<and>
      slotMap (sysStore s) [116] (RecordKey [5] []) = Some (subRecord [9]) \<and> subRecord [9] \<notin> set (seen s))"
proof
  have "(sub_step [116])\<^sup>*\<^sup>* freshSub
      (sub (oneStore [9]) [subRecord [9]] Live False [] [] [] [] [subRecord [9], subRecord [9]])"
    unfolding freshSub_def
    by (rule run_cons [OF sub_accept [OF accept_first]], unfold append.simps, rule run_cons [OF sub_register],
        rule run_cons [OF sub_snapshot [OF topicRecordsAll_samples(2)]], rule run_cons [OF sub_replay],
        unfold append.simps, rule run_cons [OF sub_finish], rule run_cons [OF sub_open],
        rule run_cons [OF sub_lookup], simp, unfold append.simps, rule run_cons [OF sub_pass],
        unfold append.simps, rule run_cons [OF sub_enter], unfold append.simps, rule rtranclp.rtrancl_refl)
  then show "\<exists>s. (sub_step [116])\<^sup>*\<^sup>* freshSub s \<and> ph s = Live \<and> seen s = [subRecord [9], subRecord [9]]"
    by (intro exI conjI, assumption) (simp_all add: sub_def)
  have covers: "[] = (if replayCovers (replayedMap [subRecord [8]]) (subRecord [9]) then [] else [subRecord [9]])"
    by (simp add: replayCovers_def replayedMap_def subRecord_fields)
  note drained = sub_drain [OF covers]
  have run: "(sub_step [116])\<^sup>*\<^sup>* freshSub
      (sub (oneStore [9]) [subRecord [8]] Live False [] [] [] [] [subRecord [8]])"
    unfolding freshSub_def
    by (rule run_cons [OF sub_accept [OF accept_first]], unfold append.simps,
        rule run_cons [OF sub_lookup_early], rule run_cons [OF sub_register],
        rule run_cons [OF sub_snapshot [OF topicRecordsAll_samples(2)]],
        rule run_cons [OF sub_accept [OF accept_tie]], unfold append.simps,
        rule run_cons [OF sub_lookup], simp, unfold append.simps, rule run_cons [OF sub_enqueue],
        unfold append.simps, rule run_cons [OF sub_replay], unfold append.simps, rule run_cons [OF sub_finish],
        rule run_cons [OF sub_batch], simp, rule run_cons [OF drained], unfold append.simps,
        rule run_cons [OF sub_open], rule rtranclp.rtrancl_refl)
  have "subRecord [9] \<noteq> subRecord [8]"
    by (rule notI, drule arg_cong [where f = Sig]) (simp add: subRecord_fields)
  with run show "\<exists>s. (sub_step [116])\<^sup>*\<^sup>* freshSub s \<and> ph s = Live \<and> undelivered s = [] \<and> looked s = [] \<and>
      entering s = [] \<and> slotMap (sysStore s) [116] (RecordKey [5] []) = Some (subRecord [9]) \<and>
      subRecord [9] \<notin> set (seen s)"
    by (intro exI [of _ "sub (oneStore [9]) [subRecord [8]] Live False [] [] [] [] [subRecord [8]]"] conjI)
      (simp_all add: sub_def slotMap_def oneStore_def)
qed

end
