(* ===== verification/Content.thy ===== *)
theory Content
  imports Node_Props
begin

text \<open>
  Content-addressed pull, \<open>src/content_impl.go\<close> and \<open>src/manifest.go\<close>: chunking and signed manifests,
  the advert index, serving and correlating fetches, \<open>Fetch\<close> and \<open>FetchBlob\<close>.

  Protobuf marshalling of adverts and manifests is the parameter \<open>contentCodec\<close>. A blocking call is
  one function: what reaches the node while request number \<open>i\<close> to a holder for a hash waits is the
  list of response frames \<open>arrivals i holder hash\<close> (from any peer, with any content),
  \<open>sendErr i holder\<close> is what the transport's \<open>Send\<close> returned, and \<open>ctxErr i\<close> what \<open>ctx.Err()\<close> gives after \<open>i\<close> requests. A wait that no response ends
  is ended by the context's deadline. SHA-256 over a stream of writes is \<open>Sum256\<close> of the
  concatenation.
\<close>

subsection \<open>Messages\<close>

record ContentAdvert =
  ad_Hash :: bytes
  ad_Holder :: bytes
  ad_ExpiresAt :: i64
  ad_Size :: u32
  ad_IsManifest :: bool
  ad_Sig :: bytes

record Manifest =
  mf_BlobHash :: bytes
  mf_TotalSize :: u64
  mf_ChunkSize :: u32
  mf_Chunks :: "bytes list"
  mf_Filename :: gostring
  mf_Mime :: gostring
  mf_PublishedAt :: i64
  mf_Publisher :: bytes
  mf_Sig :: bytes

record contentCodec =
  MarshalAdvert :: "ContentAdvert \<Rightarrow> bytes option"
  UnmarshalAdvert :: "bytes \<Rightarrow> ContentAdvert option"
  MarshalManifest :: "Manifest \<Rightarrow> bytes option"
  UnmarshalManifest :: "bytes \<Rightarrow> Manifest option"

subsection \<open>Chunks and manifests\<close>

function chunksFrom :: "bytes \<Rightarrow> nat \<Rightarrow> nat \<Rightarrow> bytes list" where
  "chunksFrom body sz i =
     (if sz > 0 \<and> i < length body
      then (let stop = (if i + sz > length body then length body else i + sz)
            in take (stop - i) (drop i body) # chunksFrom body sz (i + sz))
      else [])"
  by auto
termination by (relation "measure (\<lambda>(body, sz, i). length body - i)") auto

declare chunksFrom.simps [simp del]

definition ChunkBlob :: "crypto \<Rightarrow> bytes \<Rightarrow> u32 \<Rightarrow> bytes list \<times> bytes list" where
  "ChunkBlob C body chunkSize =
     (if chunkSize = 0 then ([], [])
      else (let chunks = chunksFrom body (unat chunkSize) 0 in (map (Sum256 C) chunks, chunks)))"

definition toManifestSig :: "Manifest \<Rightarrow> manifestSig" where
  "toManifestSig m =
     \<lparr>ms_BlobHash = mf_BlobHash m, ms_TotalSize = mf_TotalSize m, ms_ChunkSize = mf_ChunkSize m,
      ms_Chunks = mf_Chunks m, ms_Filename = mf_Filename m, ms_Mime = mf_Mime m,
      ms_PublishedAt = mf_PublishedAt m, ms_Publisher = mf_Publisher m\<rparr>"

definition signedManifest :: "env \<Rightarrow> bytes \<Rightarrow> u32 \<Rightarrow> gostring \<Rightarrow> gostring \<Rightarrow> bytes \<Rightarrow> Manifest" where
  "signedManifest E body chunkSize filename mime pk =
     (let C = cr E;
          m = \<lparr>mf_BlobHash = Sum256 C body, mf_TotalSize = word_of_nat (length body),
               mf_ChunkSize = chunkSize, mf_Chunks = fst (ChunkBlob C body chunkSize),
               mf_Filename = filename, mf_Mime = mime, mf_PublishedAt = word_of_int (clk_wall E),
               mf_Publisher = nodeIDFromPub (ed_Public C pk), mf_Sig = []\<rparr>
      in m\<lparr>mf_Sig := ed_Sign C pk (signableManifestBytes (toManifestSig m))\<rparr>)"

definition BuildSignedManifest ::
  "env \<Rightarrow> contentCodec \<Rightarrow> bytes \<Rightarrow> u32 \<Rightarrow> gostring \<Rightarrow> gostring \<Rightarrow> bytes \<Rightarrow>
    (bytes \<times> bytes \<times> bytes list \<times> bytes list) option" where
  "BuildSignedManifest E K body chunkSize filename mime pk =
     (let sz = (if chunkSize = 0 then 2 ^ 20 else chunkSize);
          (hashes, chunks) = ChunkBlob (cr E) body sz
      in case MarshalManifest K (signedManifest E body sz filename mime pk) of
           None \<Rightarrow> None
         | Some b \<Rightarrow> Some (b, Sum256 (cr E) b, hashes, chunks))"

definition verifyManifestSig :: "crypto \<Rightarrow> Manifest \<Rightarrow> bool" where
  "verifyManifestSig C m =
     (if length (mf_Sig m) = 0 then False
      else case pubFromNodeID (mf_Publisher m) of
             None \<Rightarrow> False
           | Some pub \<Rightarrow> ed_Verify C pub (signableManifestBytes (toManifestSig m)) (mf_Sig m))"

definition verifyContentHash :: "crypto \<Rightarrow> bytes \<Rightarrow> bytes \<Rightarrow> bool" where
  "verifyContentHash C h body \<longleftrightarrow> Sum256 C body = h"

subsection \<open>State\<close>

record provider =
  pHas :: "bytes \<Rightarrow> bool"
  pRead :: "bytes \<Rightarrow> gostring + bytes"
  pSize :: "bytes \<Rightarrow> u32 option"

text \<open>A pending request's channel holds at most one response.\<close>

record contentTopicImpl =
  contentProvider :: "provider option"
  holders :: "(bytes, (NodeID, i64) gomap) gomap"
  advertTTL :: duration
  pending :: "(u64, ContentFetchResponse option) gomap"
  reqCount :: u64

definition newContentTopic :: contentTopicImpl where
  "newContentTopic =
     \<lparr>contentProvider = None, holders = [], advertTTL = 6 * 60 * minute, pending = [], reqCount = 0\<rparr>"

definition SetProvider :: "contentTopicImpl \<Rightarrow> provider option \<Rightarrow> contentTopicImpl" where
  "SetProvider c p = c\<lparr>contentProvider := p\<rparr>"

subsection \<open>Adverts\<close>

definition advertFor :: "NodeID \<Rightarrow> bytes \<Rightarrow> i64 \<Rightarrow> u32 \<Rightarrow> ContentAdvert" where
  "advertFor me h expires sz =
     \<lparr>ad_Hash = h, ad_Holder = me, ad_ExpiresAt = expires, ad_Size = sz, ad_IsManifest = False, ad_Sig = []\<rparr>"

definition publishAdvert :: "env \<Rightarrow> contentCodec \<Rightarrow> nodeImpl \<Rightarrow> ContentAdvert \<Rightarrow> nodeImpl \<times> outcome" where
  "publishAdvert E K n a =
     (case MarshalAdvert K a of
        None \<Rightarrow> (n, Returns (Some (ErrOther (str ''proto: marshal''))))
      | Some body \<Rightarrow> Publish E n FleetContentAdvertTopic body)"

definition Announce :: "env \<Rightarrow> contentCodec \<Rightarrow> nodeImpl \<Rightarrow> contentTopicImpl \<Rightarrow> bytes \<Rightarrow> nodeImpl \<times> outcome" where
  "Announce E K n c h =
     (let sz = (case contentProvider c of
                    None \<Rightarrow> 0
                  | Some p \<Rightarrow> (case pSize p h of None \<Rightarrow> 0 | Some s \<Rightarrow> s))
      in publishAdvert E K n (advertFor (nid n) h (word_of_int (clk_wall E + advertTTL c)) sz))"

definition Withdraw :: "env \<Rightarrow> contentCodec \<Rightarrow> nodeImpl \<Rightarrow> bytes \<Rightarrow> nodeImpl \<times> outcome" where
  "Withdraw E K n h = publishAdvert E K n (advertFor (nid n) h (word_of_int (clk_wall E) - 1) 0)"

definition unexpired :: "env \<Rightarrow> (NodeID, i64) gomap \<Rightarrow> (NodeID, i64) gomap" where
  "unexpired E m = filter (\<lambda>(_, e). \<not> sint e \<le> sint (word_of_int (clk_wall E) :: i64)) m"

definition Holders :: "env \<Rightarrow> contentTopicImpl \<Rightarrow> bytes \<Rightarrow> contentTopicImpl \<times> NodeID list" where
  "Holders E c h =
     (case map_of (holders c) h of
        None \<Rightarrow> (c, [])
      | Some m \<Rightarrow>
          let m' = unexpired E m
          in (c\<lparr>holders := (if m' = [] then AList.delete h (holders c) else AList.update h m' (holders c))\<rparr>,
              map fst m'))"

definition onAdvertRecord :: "env \<Rightarrow> contentCodec \<Rightarrow> contentTopicImpl \<Rightarrow> Record \<Rightarrow> contentTopicImpl" where
  "onAdvertRecord E K c r =
     (if Tombstone r then c
      else
        case UnmarshalAdvert K (Body r) of
          None \<Rightarrow> c
        | Some a \<Rightarrow>
            if length (ad_Hash a) \<noteq> 32 then c
            else
              let h = ad_Hash a;
                  holder = (if ad_Holder a = [] then NodeID r else ad_Holder a);
                  m = (case map_of (holders c) h of None \<Rightarrow> [] | Some m \<Rightarrow> m)
              in if sint (ad_ExpiresAt a) \<le> sint (word_of_int (clk_wall E) :: i64)
                 then (case map_of (holders c) h of
                         None \<Rightarrow> c
                       | Some m \<Rightarrow>
                           let m' = AList.delete holder m
                           in c\<lparr>holders := (if m' = [] then AList.delete h (holders c)
                                            else AList.update h m' (holders c))\<rparr>)
                 else c\<lparr>holders := AList.update h (AList.update holder (ad_ExpiresAt a) m) (holders c)\<rparr>)"

subsection \<open>Serving and correlating\<close>

definition fetchResponse :: "contentTopicImpl \<Rightarrow> ContentFetchRequest \<Rightarrow> ContentFetchResponse" where
  "fetchResponse c q =
     (let resp = \<lparr>fr_RequestId = fq_RequestId q, fr_Body = [], fr_Error = []\<rparr>
      in if length (fq_Hash q) \<noteq> 32 then resp\<lparr>fr_Error := str ''invalid hash length''\<rparr>
         else case contentProvider c of
                None \<Rightarrow> resp\<lparr>fr_Error := str ''no local provider''\<rparr>
              | Some p \<Rightarrow>
                  if \<not> pHas p (fq_Hash q) then resp\<lparr>fr_Error := str ''not held''\<rparr>
                  else (case pRead p (fq_Hash q) of
                          Inl err \<Rightarrow> resp\<lparr>fr_Error := err\<rparr>
                        | Inr body \<Rightarrow> resp\<lparr>fr_Body := body\<rparr>))"

definition handleFetchRequest ::
  "env \<Rightarrow> nodeImpl \<Rightarrow> contentTopicImpl \<Rightarrow> NodeID \<Rightarrow> ContentFetchRequest \<Rightarrow> nodeImpl" where
  "handleFetchRequest E n c from q =
     (if \<not> wired n then n
      else n\<lparr>eng := sendFrame E (eng n) from (Frame_FetchResp (fetchResponse c q))\<rparr>)"

definition handleFetchResponse :: "contentTopicImpl \<Rightarrow> ContentFetchResponse \<Rightarrow> contentTopicImpl" where
  "handleFetchResponse c resp =
     (case map_of (pending c) (fr_RequestId resp) of
        None \<Rightarrow> c
      | Some (Some _) \<Rightarrow> c
      | Some None \<Rightarrow> c\<lparr>pending := AList.update (fr_RequestId resp) (Some resp) (pending c)\<rparr>)"

subsection \<open>Fetching\<close>

record fetchEnv =
  arrivals :: "u64 \<Rightarrow> NodeID \<Rightarrow> bytes \<Rightarrow> ContentFetchResponse list"
  sendErr :: "u64 \<Rightarrow> NodeID \<Rightarrow> error option"
  ctxErr :: "u64 \<Rightarrow> error option"

definition deadlineExceeded :: error where
  "deadlineExceeded = ErrOther (str ''context deadline exceeded'')"

text \<open>The result of one request and what the context reports after it.\<close>

definition requestFromHolder ::
  "env \<Rightarrow> fetchEnv \<Rightarrow> nodeImpl \<Rightarrow> contentTopicImpl \<Rightarrow> NodeID \<Rightarrow> bytes \<Rightarrow>
    contentTopicImpl \<times> (error + bytes) \<times> error option" where
  "requestFromHolder E net n c holder h =
     (if \<not> wired n then (c, Inl ErrNotImplemented, ctxErr net (reqCount c))
      else
        let i = reqCount c + 1;
            c1 = c\<lparr>reqCount := i, pending := AList.update i None (pending c)\<rparr>;
            done = (\<lambda>c. c\<lparr>pending := AList.delete i (pending c)\<rparr>)
        in case encodeFrame (wr E) (Frame_FetchReq \<lparr>fq_RequestId = i, fq_Hash = h\<rparr>) of
             None \<Rightarrow> (done c1, Inl (ErrOther (str ''proto: marshal'')), ctxErr net i)
           | Some _ \<Rightarrow>
               (case sendErr net i holder of
                  Some err \<Rightarrow> (done c1, Inl err, ctxErr net i)
                | None \<Rightarrow>
                    let c2 = foldl handleFetchResponse c1 (arrivals net i holder h)
                    in case map_of (pending c2) i of
                         Some (Some resp) \<Rightarrow>
                           (done c2, if fr_Error resp \<noteq> [] then Inl (ErrOther (fr_Error resp)) else Inr (fr_Body resp),
                            ctxErr net i)
                       | _ \<Rightarrow>
                           (let err = (case ctxErr net i of None \<Rightarrow> deadlineExceeded | Some x \<Rightarrow> x)
                            in (done c2, Inl err, Some err))))"

definition localRead :: "crypto \<Rightarrow> contentTopicImpl \<Rightarrow> bytes \<Rightarrow> bytes option" where
  "localRead C c h =
     (case contentProvider c of
        None \<Rightarrow> None
      | Some p \<Rightarrow>
          if pHas p h
          then (case pRead p h of Inl _ \<Rightarrow> None | Inr body \<Rightarrow> if verifyContentHash C h body then Some body else None)
          else None)"

fun fetchFrom ::
  "env \<Rightarrow> fetchEnv \<Rightarrow> nodeImpl \<Rightarrow> contentTopicImpl \<Rightarrow> bytes \<Rightarrow> error option \<Rightarrow> NodeID list \<Rightarrow>
    contentTopicImpl \<times> (error + bytes)" where
  "fetchFrom E net n c h lastErr [] =
     (c, Inl (case lastErr of Some err \<Rightarrow> err | None \<Rightarrow> ErrNoHolders))"
| "fetchFrom E net n c h lastErr (holder # rest) =
     (if holder = nid n
      then (case localRead (cr E) c h of
              Some body \<Rightarrow> (c, Inr body)
            | None \<Rightarrow> fetchFrom E net n c h lastErr rest)
      else
        (case requestFromHolder E net n c holder h of
           (c1, res, ctx) \<Rightarrow>
             (case res of
                Inr body \<Rightarrow>
                  if verifyContentHash (cr E) h body then (c1, Inr body)
                  else (case ctx of
                          Some err \<Rightarrow> (c1, Inl err)
                        | None \<Rightarrow> fetchFrom E net n c1 h (Some ErrHashMismatch) rest)
              | Inl err \<Rightarrow>
                  (case ctx of
                     Some err' \<Rightarrow> (c1, Inl err')
                   | None \<Rightarrow> fetchFrom E net n c1 h (Some err) rest))))"

definition Fetch :: "env \<Rightarrow> fetchEnv \<Rightarrow> nodeImpl \<Rightarrow> contentTopicImpl \<Rightarrow> bytes \<Rightarrow> contentTopicImpl \<times> (error + bytes)" where
  "Fetch E net n c h =
     (case Holders E c h of
        (c1, hs) \<Rightarrow> if length hs = 0 then (c1, Inl ErrNoHolders) else fetchFrom E net n c1 h None hs)"

text \<open>
  The chunk loop of \<open>FetchBlob\<close>: the content state, the bytes written so far, the progress reports
  and the error it ended with. \<open>wErr k\<close> is the error of the \<open>k\<close>-th write.
\<close>

fun blobLoop ::
  "env \<Rightarrow> fetchEnv \<Rightarrow> (nat \<Rightarrow> error option) \<Rightarrow> nodeImpl \<Rightarrow> u64 \<Rightarrow> contentTopicImpl \<Rightarrow> bytes \<Rightarrow>
    (u64 \<times> u64) list \<Rightarrow> bytes list \<Rightarrow> contentTopicImpl \<times> bytes \<times> (u64 \<times> u64) list \<times> error option" where
  "blobLoop E net wErr n totalSize c out prg [] = (c, out, prg, None)"
| "blobLoop E net wErr n totalSize c out prg (h # hs) =
     (case ctxErr net (reqCount c) of
        Some err \<Rightarrow> (c, out, prg, Some err)
      | None \<Rightarrow>
          if length h \<noteq> 32 then (c, out, prg, Some (ErrOther (str ''swarm: manifest chunk hash length invalid'')))
          else
            (case Fetch E net n c h of
               (c1, Inl err) \<Rightarrow> (c1, out, prg, Some err)
             | (c1, Inr body) \<Rightarrow>
                 (case wErr (length prg) of
                    Some err \<Rightarrow> (c1, out, prg, Some err)
                  | None \<Rightarrow>
                      let out' = out @ body
                      in blobLoop E net wErr n totalSize c1 out' (prg @ [(word_of_nat (length out'), totalSize)]) hs)))"

definition FetchBlob ::
  "env \<Rightarrow> contentCodec \<Rightarrow> fetchEnv \<Rightarrow> (nat \<Rightarrow> error option) \<Rightarrow> nodeImpl \<Rightarrow> contentTopicImpl \<Rightarrow> bytes \<Rightarrow>
    bool \<Rightarrow> contentTopicImpl \<times> bytes \<times> (u64 \<times> u64) list \<times> error option" where
  "FetchBlob E K net wErr n c manifestHash outIsNil =
     (if outIsNil
      then (c, [], [], Some (ErrOther (str ''swarm: FetchBlob requires non-nil out writer'')))
      else case Fetch E net n c manifestHash of
        (c1, Inl err) \<Rightarrow> (c1, [], [], Some err)
      | (c1, Inr mb) \<Rightarrow>
          (case UnmarshalManifest K mb of
             None \<Rightarrow> (c1, [], [], Some (ErrOther (str ''swarm: malformed manifest body'')))
           | Some m \<Rightarrow>
               if \<not> verifyManifestSig (cr E) m
               then (c1, [], [], Some (ErrOther (str ''swarm: manifest signature verification failed'')))
               else if length (mf_BlobHash m) \<noteq> 32
               then (c1, [], [], Some (ErrOther (str ''swarm: manifest blob_hash length invalid'')))
               else
                 (case blobLoop E net wErr n (mf_TotalSize m) c1 [] [] (mf_Chunks m) of
                    (c2, out, prg, Some err) \<Rightarrow> (c2, out, prg, Some err)
                  | (c2, out, prg, None) \<Rightarrow>
                      (c2, out, prg, if Sum256 (cr E) out \<noteq> mf_BlobHash m then Some ErrHashMismatch else None))))"

end
