(* ===== verification/Content_Props.thy ===== *)
theory Content_Props
  imports Content
begin

text \<open>
  What content distribution guarantees: chunking loses nothing, a fetch returns only bytes with the
  requested hash and succeeds when every holder answers and one of them honestly, and a blob
  published through a signed manifest arrives unchanged.
\<close>

subsection \<open>Chunks\<close>

lemma concat_chunksFrom: "0 < sz \<Longrightarrow> concat (chunksFrom body sz i) = drop i body"
proof (induction body sz i rule: chunksFrom.induct)
  case (1 body sz i)
  show ?case
  proof (cases "i < length body")
    case True
    let ?stop = "if i + sz > length body then length body else i + sz"
    have "take (?stop - i) (drop i body) @ drop (i + sz) body = drop i body"
      using append_take_drop_id [of sz "drop i body"] by (simp add: add.commute)
    then show ?thesis
      using 1 True by (subst chunksFrom.simps) (simp add: Let_def)
  qed (subst chunksFrom.simps, simp)
qed

lemma chunksFrom_sizes:
  "0 < sz \<Longrightarrow> \<forall>c\<in>set (chunksFrom body sz i). 0 < length c \<and> length c \<le> sz"
proof (induction body sz i rule: chunksFrom.induct)
  case (1 body sz i)
  then show ?case by (subst chunksFrom.simps) (auto simp: Let_def)
qed

subsection \<open>Correlation\<close>

text \<open>A waiting request takes the first response that carries its number.\<close>

lemma foldl_handleFetchResponse:
  "map_of (pending (foldl handleFetchResponse c rs)) i =
     (case map_of (pending c) i of
        Some None \<Rightarrow> Some (List.find (\<lambda>r. fr_RequestId r = i) rs)
      | x \<Rightarrow> x)"
proof (induction rs arbitrary: c)
  case Nil
  then show ?case by (auto split: option.split)
next
  case (Cons r rs)
  then show ?case
    by (auto simp: handleFetchResponse_def split: option.splits)
qed

lemma handleFetchResponse_fields [simp]:
  "holders (foldl handleFetchResponse c rs) = holders c"
  "reqCount (foldl handleFetchResponse c rs) = reqCount c"
  "contentProvider (foldl handleFetchResponse c rs) = contentProvider c"
  by (induction rs arbitrary: c) (simp_all add: handleFetchResponse_def split: option.split)

text \<open>What one request returns, by the responses that arrive for its number.\<close>

definition answer :: "fetchEnv \<Rightarrow> u64 \<Rightarrow> NodeID \<Rightarrow> bytes \<Rightarrow> ContentFetchResponse option" where
  "answer net i holder h = List.find (\<lambda>r. fr_RequestId r = i) (arrivals net i holder h)"

definition codecSends :: "env \<Rightarrow> bool" where
  "codecSends E \<longleftrightarrow> (\<forall>q. encodeFrame (wr E) (Frame_FetchReq q) \<noteq> None)"

lemma requestFromHolder_fields [simp]:
  "holders (fst (requestFromHolder E net n c holder h)) = holders c"
  "contentProvider (fst (requestFromHolder E net n c holder h)) = contentProvider c"
  by (simp_all add: requestFromHolder_def Let_def split: option.split)

lemma requestFromHolder_answer:
  assumes "wired n" and "codecSends E" and "sendErr net (reqCount c + 1) holder = None"
    and "answer net (reqCount c + 1) holder h = Some resp"
  shows "snd (requestFromHolder E net n c holder h) =
    (if fr_Error resp \<noteq> [] then Inl (ErrOther (fr_Error resp)) else Inr (fr_Body resp), ctxErr net (reqCount c + 1))"
proof -
  let ?i = "reqCount c + 1"
  obtain b where "encodeFrame (wr E) (Frame_FetchReq \<lparr>fq_RequestId = ?i, fq_Hash = h\<rparr>) = Some b"
    using assms(2) by (auto simp: codecSends_def)
  then show ?thesis
    using assms by (simp add: requestFromHolder_def Let_def foldl_handleFetchResponse answer_def)
qed

subsection \<open>Fetch\<close>

text \<open>A holder that answers every request for a hash, and one that answers with the content.\<close>

definition answersFor :: "fetchEnv \<Rightarrow> bytes \<Rightarrow> NodeID \<Rightarrow> bool" where
  "answersFor net h y \<longleftrightarrow> (\<forall>i. sendErr net i y = None \<and> answer net i y h \<noteq> None)"

definition honestFor :: "crypto \<Rightarrow> fetchEnv \<Rightarrow> bytes \<Rightarrow> NodeID \<Rightarrow> bool" where
  "honestFor C net h y \<longleftrightarrow>
     (\<forall>i resp. answer net i y h = Some resp \<longrightarrow> fr_Error resp = [] \<and> Sum256 C (fr_Body resp) = h)"

definition fetchable :: "env \<Rightarrow> fetchEnv \<Rightarrow> nodeImpl \<Rightarrow> contentTopicImpl \<Rightarrow> bytes \<Rightarrow> bool" where
  "fetchable E net n c h \<longleftrightarrow>
     (\<forall>y\<in>set (snd (Holders E c h)). y \<noteq> nid n \<longrightarrow> answersFor net h y) \<and>
     (\<exists>y\<in>set (snd (Holders E c h)). y \<noteq> nid n \<and> honestFor (cr E) net h y)"

lemma fetchFrom_verified:
  "snd (fetchFrom E net n c h lastErr hs) = Inr body \<Longrightarrow> Sum256 (cr E) body = h"
proof (induction hs arbitrary: c lastErr)
  case (Cons y hs)
  then show ?case
    by (auto simp: localRead_def verifyContentHash_def case_prod_beta split: if_splits option.splits sum.splits)
qed simp

lemma fetchFrom_finds:
  assumes "wired n" and "codecSends E" and "\<forall>i. ctxErr net i = None"
    and "\<forall>y\<in>set hs. y \<noteq> nid n \<longrightarrow> answersFor net h y"
    and "\<exists>y\<in>set hs. y \<noteq> nid n \<and> honestFor (cr E) net h y"
  shows "\<exists>body. snd (fetchFrom E net n c h lastErr hs) = Inr body"
  using assms(4,5)
proof (induction hs arbitrary: c lastErr)
  case (Cons y hs)
  show ?case
  proof (cases "y = nid n")
    case True
    with Cons show ?thesis by (auto split: option.split)
  next
    case False
    then have "sendErr net (reqCount c + 1) y = None" and "answer net (reqCount c + 1) y h \<noteq> None"
      using Cons.prems(1) by (auto simp: answersFor_def)
    then obtain resp where resp: "answer net (reqCount c + 1) y h = Some resp" by blast
    obtain c1 res ctx where req: "requestFromHolder E net n c y h = (c1, res, ctx)"
      by (cases "requestFromHolder E net n c y h") auto
    then have res: "res = (if fr_Error resp \<noteq> [] then Inl (ErrOther (fr_Error resp)) else Inr (fr_Body resp))"
      and ctx: "ctx = None"
      using requestFromHolder_answer [OF assms(1,2) \<open>sendErr net (reqCount c + 1) y = None\<close> resp] assms(3)
      by simp_all
    show ?thesis
    proof (cases "honestFor (cr E) net h y")
      case True
      then have "res = Inr (fr_Body resp)" "verifyContentHash (cr E) h (fr_Body resp)"
        using res resp by (auto simp: honestFor_def verifyContentHash_def)
      with False req show ?thesis by simp
    next
      case other: False
      then have "\<exists>body. snd (fetchFrom E net n c1 h l hs) = Inr body" for l
        using Cons by auto
      with False req ctx show ?thesis by (auto split: sum.split)
    qed
  qed
qed simp

text \<open>C23: A fetch returns only what was asked for, and finds it: whatever bytes peers send in response, a
  fetch that returns a body returns one whose SHA-256 is the requested hash; and when no context
  ends, every known remote holder answers each request and one of them answers with the content,
  the fetch returns a body, however many others lie or report errors before it.\<close>

theorem fetch_is_verified_and_finds:
  "(\<forall>body. snd (Fetch E net n c h) = Inr body \<longrightarrow> Sum256 (cr E) body = h) \<and>
   (wired n \<longrightarrow> codecSends E \<longrightarrow> (\<forall>i. ctxErr net i = None) \<longrightarrow> fetchable E net n c h \<longrightarrow>
      (\<exists>body. snd (Fetch E net n c h) = Inr body))"
proof (intro conjI allI impI)
  show "Sum256 (cr E) body = h" if "snd (Fetch E net n c h) = Inr body" for body
    using that fetchFrom_verified by (auto simp: Fetch_def case_prod_beta split: if_splits)
  assume "wired n" "codecSends E" "\<forall>i. ctxErr net i = None" "fetchable E net n c h"
  then show "\<exists>body. snd (Fetch E net n c h) = Inr body"
    using fetchFrom_finds [of n E net "snd (Holders E c h)" h "fst (Holders E c h)" None]
    by (auto simp: Fetch_def case_prod_beta fetchable_def)
qed

subsection \<open>Blobs\<close>

lemma Holders_stable: "snd (Holders E (fst (Holders E c h)) h') = snd (Holders E c h')"
proof -
  have "unexpired E (unexpired E m) = unexpired E m" for m
    by (simp add: unexpired_def)
  then show ?thesis by (auto simp: Holders_def Let_def unexpired_def split: option.split)
qed

lemma Holders_cong: "holders c = holders c' \<Longrightarrow> snd (Holders E c h) = snd (Holders E c' h)"
  by (simp add: Holders_def Let_def split: option.split)

lemma fetchFrom_fields:
  "holders (fst (fetchFrom E net n c h lastErr hs)) = holders c \<and>
   contentProvider (fst (fetchFrom E net n c h lastErr hs)) = contentProvider c"
proof (induction hs arbitrary: c lastErr)
  case (Cons y hs)
  obtain c1 res ctx where req: "requestFromHolder E net n c y h = (c1, res, ctx)"
    by (cases "requestFromHolder E net n c y h") auto
  have "holders c1 = holders c" "contentProvider c1 = contentProvider c"
    using requestFromHolder_fields [of E net n c y h] req by simp_all
  with Cons req show ?case by (auto split: option.split sum.split)
qed simp

lemma Fetch_stable:
  "snd (Holders E (fst (Fetch E net n c h)) h') = snd (Holders E c h')"
  "contentProvider (fst (Fetch E net n c h)) = contentProvider c"
proof -
  let ?c = "fst (Holders E c h)"
  have "holders (fst (Fetch E net n c h)) = holders ?c"
    using fetchFrom_fields [of E net n ?c h None] by (simp add: Fetch_def case_prod_beta)
  then show "snd (Holders E (fst (Fetch E net n c h)) h') = snd (Holders E c h')"
    using Holders_cong Holders_stable by metis
  show "contentProvider (fst (Fetch E net n c h)) = contentProvider c"
    using fetchFrom_fields [of E net n ?c h None]
    by (simp add: Fetch_def case_prod_beta Holders_def Let_def split: option.split)
qed

text \<open>No answer, and no local copy, that hashes like the content differs from it.\<close>

definition authenticFor :: "env \<Rightarrow> fetchEnv \<Rightarrow> contentTopicImpl \<Rightarrow> bytes \<Rightarrow> bool" where
  "authenticFor E net c x \<longleftrightarrow>
     (\<forall>i y resp. answer net i y (Sum256 (cr E) x) = Some resp \<longrightarrow>
        Sum256 (cr E) (fr_Body resp) = Sum256 (cr E) x \<longrightarrow> fr_Body resp = x) \<and>
     (\<forall>b. localRead (cr E) c (Sum256 (cr E) x) = Some b \<longrightarrow> b = x)"

definition available :: "env \<Rightarrow> fetchEnv \<Rightarrow> nodeImpl \<Rightarrow> contentTopicImpl \<Rightarrow> bytes \<Rightarrow> bool" where
  "available E net n c x \<longleftrightarrow> fetchable E net n c (Sum256 (cr E) x) \<and> authenticFor E net c x"

lemma available_stable: "available E net n (fst (Fetch E net n c h)) x = available E net n c x"
  using Fetch_stable [of E net n c h]
  by (simp add: available_def fetchable_def authenticFor_def localRead_def)

lemma answer_of_request:
  assumes "snd (requestFromHolder E net n c y h) = (Inr body, ctx)"
  shows "\<exists>resp. answer net (reqCount c + 1) y h = Some resp \<and> fr_Body resp = body"
  using assms
  by (auto simp: requestFromHolder_def Let_def foldl_handleFetchResponse answer_def
      split: if_splits option.splits)

lemma fetchFrom_exact:
  assumes "authenticFor E net c x" and "snd (fetchFrom E net n c (Sum256 (cr E) x) lastErr hs) = Inr body"
  shows "body = x"
  using assms
proof (induction hs arbitrary: c lastErr)
  case (Cons y hs)
  obtain c1 res ctx where req: "requestFromHolder E net n c y (Sum256 (cr E) x) = (c1, res, ctx)"
    by (cases "requestFromHolder E net n c y (Sum256 (cr E) x)") auto
  have "contentProvider c1 = contentProvider c"
    using requestFromHolder_fields(2) [of E net n c y] req by (metis fst_conv)
  then have auth: "authenticFor E net c1 x" using Cons.prems(1) by (simp add: authenticFor_def localRead_def)
  have res: "b = x" if "res = Inr b" "Sum256 (cr E) b = Sum256 (cr E) x" for b
    using answer_of_request [of E net n c y "Sum256 (cr E) x" b ctx] req that Cons.prems(1)
    by (auto simp: authenticFor_def)
  show ?case
    using Cons.prems Cons.IH [OF Cons.prems(1)] Cons.IH [OF auth] req res
    by (auto simp: authenticFor_def verifyContentHash_def split: if_splits option.splits sum.splits)
qed simp

text \<open>The conditions under which the network lets a blob through.\<close>

definition networkUp :: "env \<Rightarrow> fetchEnv \<Rightarrow> nodeImpl \<Rightarrow> bool" where
  "networkUp E net n \<longleftrightarrow> wired n \<and> codecSends E \<and> (\<forall>i. ctxErr net i = None)"

lemma Fetch_exact:
  assumes "networkUp E net n" and "available E net n c x"
  shows "snd (Fetch E net n c (Sum256 (cr E) x)) = Inr x"
proof -
  let ?h = "Sum256 (cr E) x" and ?hs = "snd (Holders E c (Sum256 (cr E) x))"
  let ?c = "fst (Holders E c ?h)"
  have ne: "?hs \<noteq> []" using assms(2) by (auto simp: available_def fetchable_def)
  have "\<exists>body. snd (fetchFrom E net n ?c ?h None ?hs) = Inr body"
    using assms by (intro fetchFrom_finds) (auto simp: networkUp_def available_def fetchable_def)
  then obtain body where body: "snd (fetchFrom E net n ?c ?h None ?hs) = Inr body" ..
  have "contentProvider ?c = contentProvider c" by (simp add: Holders_def Let_def split: option.split)
  then have "authenticFor E net ?c x" using assms(2) by (simp add: available_def authenticFor_def localRead_def)
  from fetchFrom_exact [OF this body] body ne show ?thesis by (simp add: Fetch_def case_prod_beta)
qed

lemma blobLoop_exact:
  assumes "networkUp E net n" and "\<forall>x. length (Sum256 (cr E) x) = 32" and "\<forall>k. wErr k = None"
    and "\<forall>x\<in>set xs. available E net n c x"
  shows "\<exists>c' prg'. blobLoop E net wErr n t c out prg (map (Sum256 (cr E)) xs) = (c', out @ concat xs, prg', None) \<and>
    length prg' = length prg + length xs \<and>
    (xs \<noteq> [] \<longrightarrow> last prg' = (word_of_nat (length (out @ concat xs)), t))"
  using assms(4)
proof (induction xs arbitrary: c out prg)
  case (Cons x xs)
  obtain c1 where c1: "Fetch E net n c (Sum256 (cr E) x) = (c1, Inr x)"
    using Fetch_exact [OF assms(1), of c x] Cons.prems by (cases "Fetch E net n c (Sum256 (cr E) x)") auto
  then have "\<forall>y\<in>set xs. available E net n c1 y"
    using Cons.prems available_stable [of E net n c "Sum256 (cr E) x"] by simp
  from Cons.IH [OF this, of "out @ x" "prg @ [(word_of_nat (length (out @ x)), t)]"] c1 show ?case
    using assms by (auto simp: networkUp_def Let_def)
qed simp

lemma signedManifest_verifies:
  assumes "ed25519_ok (cr E)"
  shows "verifyManifestSig (cr E) (signedManifest E body sz fname mime pk)"
proof -
  let ?m = "signedManifest E body sz fname mime pk"
  have len: "length (ed_Public (cr E) pk) = PublicKeySize" "0 < length (mf_Sig ?m)"
    using assms by (simp_all add: ed25519_ok_def signedManifest_def Let_def SignatureSize_def)
  then have "pubFromNodeID (mf_Publisher ?m) = Some (ed_Public (cr E) pk)"
    by (simp add: signedManifest_def Let_def pubFromNodeID_iff lowerHex_nodeID)
  moreover have "ed_Verify (cr E) (ed_Public (cr E) pk) (signableManifestBytes (toManifestSig ?m)) (mf_Sig ?m)"
    using assms by (simp add: signedManifest_def Let_def toManifestSig_def ed25519_ok_def)
  ultimately show ?thesis using len by (simp add: verifyManifestSig_def)
qed

text \<open>C22: A blob arrives unchanged: a body published with \<open>BuildSignedManifest\<close> (any chunk size, the
  default included), whose manifest and chunks are available from holders that answer, one of
  them with the content, is reassembled by \<open>FetchBlob\<close> from the manifest hash to exactly that
  body, without error, with one progress report per chunk, the last one reporting the full size.\<close>

theorem blob_round_trip:
  assumes "BuildSignedManifest E K body chunkSize fname mime pk = Some (mb, mh, hashes, chunks)"
    and "\<forall>m b. MarshalManifest K m = Some b \<longrightarrow> UnmarshalManifest K b = Some m"
    and "ed25519_ok (cr E)" and "\<forall>x. length (Sum256 (cr E) x) = 32"
    and "networkUp E net n" and "\<forall>k. wErr k = None" and "\<forall>x\<in>set (mb # chunks). available E net n c x"
  shows "\<exists>c' prg. FetchBlob E K net wErr n c mh False = (c', body, prg, None) \<and> length prg = length chunks \<and>
    (body \<noteq> [] \<longrightarrow> last prg = (word_of_nat (length body), word_of_nat (length body)))"
proof -
  let ?sz = "if chunkSize = 0 then 2 ^ 20 else chunkSize"
  let ?m = "signedManifest E body ?sz fname mime pk"
  have sz: "?sz \<noteq> 0" by simp
  then have pos: "0 < unat ?sz" by (simp add: unat_gt_0)
  have mb: "MarshalManifest K ?m = Some mb" "mh = Sum256 (cr E) mb"
    and chunks: "chunks = chunksFrom body (unat ?sz) 0"
    using assms(1) sz by (auto simp: BuildSignedManifest_def ChunkBlob_def Let_def split: option.splits)
  have all: "concat chunks = body" using concat_chunksFrom [OF pos, of body 0] chunks by simp
  have m: "mf_Chunks ?m = map (Sum256 (cr E)) chunks" "mf_BlobHash ?m = Sum256 (cr E) body"
    "mf_TotalSize ?m = word_of_nat (length body)"
    using sz by (simp_all add: signedManifest_def Let_def ChunkBlob_def chunks)
  obtain c1 where c1: "Fetch E net n c mh = (c1, Inr mb)"
    using Fetch_exact [OF assms(5), of c mb] assms(7) mb(2) by (cases "Fetch E net n c mh") auto
  then have "\<forall>x\<in>set chunks. available E net n c1 x"
    using assms(7) available_stable [of E net n c mh] by simp
  from blobLoop_exact [OF assms(5,4,6) this, of "word_of_nat (length body)" "[]" "[]"]
  obtain c2 prg where loop: "blobLoop E net wErr n (mf_TotalSize ?m) c1 [] [] (mf_Chunks ?m) = (c2, body, prg, None)"
    and prg: "length prg = length chunks"
    "chunks \<noteq> [] \<longrightarrow> last prg = (word_of_nat (length body), word_of_nat (length body))"
    using all m by auto
  have "FetchBlob E K net wErr n c mh False = (c2, body, prg, None)"
    using c1 mb(1) assms(2,4) loop m(2) signedManifest_verifies [OF assms(3)]
    by (simp add: FetchBlob_def)
  then show ?thesis using prg all by auto
qed

text \<open>C37: One silent holder ends a fetch: when the first holder asked never responds, the wait lasts until
  the context's deadline and the fetch returns that error without asking any other holder, even
  when the others would have answered with the content.\<close>

theorem silent_holder_ends_fetch:
  assumes "snd (Holders E c h) = y # rest" and "y \<noteq> nid n" and "wired n" and "codecSends E"
    and "\<forall>i. sendErr net i y = None \<and> answer net i y h = None" and "ctxErr net (reqCount c + 1) = None"
  shows "snd (Fetch E net n c h) = Inl deadlineExceeded \<and> reqCount (fst (Fetch E net n c h)) = reqCount c + 1"
proof -
  let ?c = "fst (Holders E c h)" and ?i = "reqCount c + 1"
  have count: "reqCount ?c = reqCount c" by (simp add: Holders_def Let_def split: option.split)
  obtain b where "encodeFrame (wr E) (Frame_FetchReq \<lparr>fq_RequestId = ?i, fq_Hash = h\<rparr>) = Some b"
    using assms(4) by (auto simp: codecSends_def)
  then have "snd (requestFromHolder E net n ?c y h) = (Inl deadlineExceeded, Some deadlineExceeded) \<and>
      reqCount (fst (requestFromHolder E net n ?c y h)) = ?i"
    using assms(3,5,6) count
    by (simp add: requestFromHolder_def Let_def foldl_handleFetchResponse flip: answer_def)
  then show ?thesis
    using assms(1,2) by (cases "requestFromHolder E net n ?c y h") (auto simp: Fetch_def case_prod_beta)
qed

subsection \<open>A sample network\<close>

definition contentEnv :: env where
  "contentEnv = sampleEnv\<lparr>wr := \<lparr>Marshal = (\<lambda>_. Some []), Unmarshal = (\<lambda>_. None)\<rparr>\<rparr>"

definition blobManifest :: Manifest where
  "blobManifest = signedManifest contentEnv [10, 20, 30] 2 [] [] [7]"

definition sampleCodec :: contentCodec where
  "sampleCodec =
     \<lparr>MarshalAdvert = (\<lambda>_. None), UnmarshalAdvert = (\<lambda>_. None),
      MarshalManifest = (\<lambda>m. if m = blobManifest then Some [1] else None),
      UnmarshalManifest = (\<lambda>b. if b = [1] then Some blobManifest else None)\<rparr>"

definition contentOf :: "bytes \<Rightarrow> bytes" where
  "contentOf h = (if h = fit32 [1] then [1] else if h = fit32 [10, 20] then [10, 20] else [30])"

text \<open>Holder 2 serves everything; holder 3 never responds.\<close>

definition sampleNet :: fetchEnv where
  "sampleNet =
     \<lparr>arrivals = (\<lambda>i y h. if y = [3] then [] else [\<lparr>fr_RequestId = i, fr_Body = contentOf h, fr_Error = []\<rparr>]),
      sendErr = (\<lambda>_ _. None), ctxErr = (\<lambda>_. None)\<rparr>"

definition heldBy2 :: "NodeID list \<Rightarrow> contentTopicImpl" where
  "heldBy2 ys = newContentTopic\<lparr>holders :=
     map (\<lambda>x. (fit32 x, map (\<lambda>y. (y, 1000000000000)) ys)) [[1], [10, 20], [30]]\<rparr>"

lemma sampleNet_answer:
  "answer sampleNet i y h =
     (if y = [3] then None else Some \<lparr>fr_RequestId = i, fr_Body = contentOf h, fr_Error = []\<rparr>)"
  by (simp add: answer_def sampleNet_def)

lemma sample_hashes: "fit32 [1] \<noteq> fit32 [10, 20]" "fit32 [1] \<noteq> fit32 [30]" "fit32 [10, 20] \<noteq> fit32 [30]"
  by (simp_all add: fit32_def)

lemma sample_holders:
  "x \<in> {[1], [10, 20], [30]} \<Longrightarrow> snd (Holders contentEnv (heldBy2 ys) (fit32 x)) = ys"
  using sample_hashes
  by (auto simp: Holders_def Let_def heldBy2_def unexpired_def contentEnv_def sampleEnv_def millisecond_def
      newContentTopic_def comp_def filter_map)

lemma contentEnv_fields: "cr contentEnv = sampleCrypto" "codecSends contentEnv" "Sum256 sampleCrypto = fit32"
  by (simp_all add: contentEnv_def sampleEnv_def codecSends_def encodeFrame_def sampleCrypto_def)

lemma sampleNet_fields: "sendErr sampleNet i y = None" "ctxErr sampleNet i = None" "contentProvider (heldBy2 ys) = None"
  by (simp_all add: sampleNet_def heldBy2_def newContentTopic_def)

lemma contentOf_sample: "x \<in> {[1], [10, 20], [30]} \<Longrightarrow> contentOf (fit32 x) = x"
  using sample_hashes by (auto simp: contentOf_def)

lemma sample_available:
  "x \<in> {[1], [10, 20], [30]} \<Longrightarrow> available contentEnv sampleNet (sampleNode newRecordStore) (heldBy2 [[2]]) x"
  using sample_holders [of x "[[2]]"] contentOf_sample [of x]
  by (simp add: available_def fetchable_def authenticFor_def answersFor_def honestFor_def sampleNet_answer
      sampleNet_fields contentEnv_fields localRead_def)

theorem blob_round_trip_witness:
  "\<exists>c' prg. FetchBlob contentEnv sampleCodec sampleNet (\<lambda>_. None) (sampleNode newRecordStore) (heldBy2 [[2]]) (fit32 [1]) False
     = (c', [10, 20, 30], prg, None) \<and> length prg = 2"
proof -
  have two: "chunksFrom [10, 20, 30] 2 0 = [[10, 20], [30]]" by (simp add: chunksFrom.simps)
  have "BuildSignedManifest contentEnv sampleCodec [10, 20, 30] 2 [] [] [7] =
      Some ([1], fit32 [1], [fit32 [10, 20], fit32 [30]], [[10, 20], [30]])"
    by (simp add: BuildSignedManifest_def sampleCodec_def blobManifest_def ChunkBlob_def two contentEnv_fields)
  moreover have "\<forall>m b. MarshalManifest sampleCodec m = Some b \<longrightarrow> UnmarshalManifest sampleCodec b = Some m"
    by (simp add: sampleCodec_def)
  moreover have "networkUp contentEnv sampleNet (sampleNode newRecordStore)"
    by (simp add: networkUp_def contentEnv_fields sampleNet_fields)
  moreover have "\<forall>x\<in>set ([1] # [[10, 20], [30]]).
      available contentEnv sampleNet (sampleNode newRecordStore) (heldBy2 [[2]]) x"
    using sample_available by simp
  ultimately show ?thesis
    using blob_round_trip [of contentEnv sampleCodec "[10, 20, 30]" 2 "[]" "[]" "[7]" "[1]" "fit32 [1]"
        "[fit32 [10, 20], fit32 [30]]" "[[10, 20], [30]]" sampleNet "sampleNode newRecordStore" "\<lambda>_. None"
        "heldBy2 [[2]]"] sampleCrypto_ok
    by (auto simp: contentEnv_fields)
qed

theorem fetch_is_verified_and_finds_witness:
  "\<exists>body. snd (Fetch contentEnv sampleNet (sampleNode newRecordStore) (heldBy2 [[2]]) (fit32 [30])) = Inr body \<and>
     fit32 body = fit32 [30]"
proof -
  have "fetchable contentEnv sampleNet (sampleNode newRecordStore) (heldBy2 [[2]]) (fit32 [30])"
    using sample_available [of "[30]"] by (simp add: available_def contentEnv_fields)
  then show ?thesis
    using fetch_is_verified_and_finds [of contentEnv sampleNet "sampleNode newRecordStore" "heldBy2 [[2]]" "fit32 [30]"]
    by (auto simp: contentEnv_fields sampleNet_fields)
qed

theorem silent_holder_ends_fetch_witness:
  "snd (Fetch contentEnv sampleNet (sampleNode newRecordStore) (heldBy2 [[3], [2]]) (fit32 [30])) = Inl deadlineExceeded \<and>
   honestFor sampleCrypto sampleNet (fit32 [30]) [2] \<and> answersFor sampleNet (fit32 [30]) [2]"
proof -
  have "snd (Holders contentEnv (heldBy2 [[3], [2]]) (fit32 [30])) = [3] # [[2]]"
    by (rule sample_holders) simp
  from silent_holder_ends_fetch [OF this, of "sampleNode newRecordStore" sampleNet] show ?thesis
    using contentOf_sample [of "[30]"]
    by (simp add: contentEnv_fields sampleNet_answer sampleNet_fields honestFor_def answersFor_def)
qed

end
