(* ===== verification/Lazy_Repair.thy ===== *)
theory Lazy_Repair
  imports Gossip Crdt_Advance
begin

text \<open>
  The lazy path of \<open>src/plumtrees.go\<close> from end to end: an announcement is tracked, the graft timer asks
  its announcer, the announcer answers with what its slot holds, and the answer reaches the store.
\<close>

subsection \<open>The stages\<close>

lemma reachable_engine:
  assumes "(engine_step R)\<^sup>*\<^sup>* e e'" and "wf_store (store e)" and "trackerOK e"
  shows "wf_store (store e') \<and> trackerOK e' \<and> settings e' = settings e"
  using assms(1)
proof (induction rule: rtranclp_induct)
  case base
  show ?case using assms(2,3) by simp
next
  case (step e1 e2)
  then show ?case using step_wf_store [OF step(2)] step_trackerOK [OF step(2)] step_settings [OF step(2)] by simp
qed

lemma ihave_tracked:
  assumes "decodeFrame (wr E) raw = Inr (frameIHave t i k h bh)"
    and "\<forall>c. slotMap (store e) t (RecordKey i k) = Some c \<longrightarrow> HLC c < h"
    and "map_of (missingIHaves e) (IHaveKey t i k h) = None" and "int (length (missingIHaves e)) < maxIHaves e"
  shows "map_of (missingIHaves (fst (ReceiveFrame E e peer raw))) (IHaveKey t i k h) =
    Some \<lparr>announcer = peer, ie_bodyHash = copy32 bh, seenAt = clk_now E, grafted = False\<rparr>"
  using assms
  by (auto simp: ReceiveFrame_def frameIHave_def handleIHave_def Let_def getRawKeyed_slotMap split: option.split)

lemma tick_grafts:
  assumes "wf_map (missingIHaves e)" and "map_of (missingIHaves e) k = Some en" and "\<not> grafted en"
    and "graftDelay e \<le> now - seenAt en" and "now - seenAt en \<le> ihaveEntryTTL"
    and "encodeFrame (wr E) (frameGraft (ik_topic k) (ik_nodeID k) (ik_key k) (ik_hlc k)) = Some raw"
  shows "(announcer en, raw) \<in> set (drop (length (sent e)) (sent (plumTick E e now)))"
proof -
  have "k \<in> set (dueKeys e now)"
    using map_of_SomeD [OF assms(2)] assms(3-5) by (force simp: dueKeys_def graftDue_def expiredIHave_def)
  then have "graftMsg E e k \<in> set (map (graftMsg E e) (dueKeys e now))" by simp
  moreover have "graftMsg E e k = (announcer en, raw)" using assms(2,6) by (simp add: graftMsg_def)
  ultimately show ?thesis by (simp add: plumTick_sent [OF assms(1)])
qed

lemma graft_answered:
  assumes "decodeFrame (wr E) raw = Inr (frameGraft t i k h)" and "slotMap (store e) t (RecordKey i k) = Some c"
    and "Sig c \<noteq> []" and "encodeFrame (wr E) (frameEagerPush c (eagerTTL e)) = Some out"
  shows "(peer, out) \<in> set (drop (length (sent e)) (sent (fst (ReceiveFrame E e peer raw))))"
proof -
  have "sent (promoteTreeEdgeBounded E e peer) = sent e" "eagerTTL (promoteTreeEdgeBounded E e peer) = eagerTTL e"
    "store (promoteTreeEdgeBounded E e peer) = store e"
    by (simp_all add: promoteTreeEdgeBounded_def)
  with assms show ?thesis
    by (simp add: ReceiveFrame_def frameGraft_def handleGraft_def getRawKeyed_slotMap sendUnchecked_def)
qed

lemma eager_arrives:
  assumes "decodeFrame (wr E) raw = Inr (frameEagerPush c ttl)" and "acceptable E (gate e) c"
    and "\<not> IsObserverAttestation c" and "wf_store (store e)"
  shows "arrived c (store (fst (ReceiveFrame E e peer raw)))"
proof -
  have "inboundRecords E e raw = [c]"
    using assms(1) by (auto simp: inboundRecords_def decodeFrame_def frameEagerPush_def split: option.splits)
  then show ?thesis using assms(2) apply_arrives [OF assms(4,3)] by (simp add: ReceiveFrame_store)
qed

lemma arrived_older:
  assumes "arrived c s" and "\<not> newer r c" and "Topic c = Topic r" and "keyOf c = keyOf r"
  shows "arrived r s"
  using assms record_lww.nw_cotrans [of r c] by (auto simp: arrived_def hasRecord_def)

subsection \<open>The whole path\<close>

text \<open>C14: Lazy repair completes: when a node hears an announcement of a record it lacks, and has room to track
  it, the first graft tick inside the announcement's window that still finds it tracked asks the
  announcer; an announcer that still holds the record or one it does not supersede, signed,
  answers with an eager push of what it holds; and handling the answer leaves the record, or one it
  does not supersede, in the node's slot, unless a cap of its store is reached. Any engine steps
  may come between the stages, on either side.\<close>

theorem lazy_repair_completes:
  assumes node: "wf_store (store b)" "trackerOK b"
    and wires: "wr E0 = w" "wr E1 = w" "wr E2 = w" "wr E3 = w"
    and frames: "wire_ok w (frameIHave (Topic r) (NodeID r) (Key r) (HLC r) bh)"
      "wire_ok w (frameGraft (Topic r) (NodeID r) (Key r) (HLC r))" "wire_ok w (frameEagerPush c (eagerTTL a))"
    and raws: "encodeFrame w (frameIHave (Topic r) (NodeID r) (Key r) (HLC r) bh) = Some announcement"
      "encodeFrame w (frameGraft (Topic r) (NodeID r) (Key r) (HLC r)) = Some request"
      "encodeFrame w (frameEagerPush c (eagerTTL a)) = Some answer"
    and lacks: "\<forall>x. slotMap (store b) (Topic r) (keyOf r) = Some x \<longrightarrow> HLC x < HLC r"
    and room: "map_of (missingIHaves b) (IHaveKey (Topic r) (NodeID r) (Key r) (HLC r)) = None"
      "int (length (missingIHaves b)) < maxIHaves b"
    and heard: "b1 = fst (ReceiveFrame E0 b ida announcement)"
    and before: "(engine_step R)\<^sup>*\<^sup>* b1 b2"
      "map_of (missingIHaves b2) (IHaveKey (Topic r) (NodeID r) (Key r) (HLC r)) =
       map_of (missingIHaves b1) (IHaveKey (Topic r) (NodeID r) (Key r) (HLC r))"
    and window: "graftDelay b2 \<le> now - clk_now E0" "now - clk_now E0 \<le> ihaveEntryTTL"
    and later: "(engine_step R)\<^sup>*\<^sup>* (plumTick E1 b2 now) b3"
    and holds: "slotMap (store a) (Topic r) (keyOf r) = Some c" "wf_store (store a)" "\<not> newer r c" "Sig c \<noteq> []"
    and admits: "acceptable E3 (gate b) c" "\<not> IsObserverAttestation c"
  shows "(ida, request) \<in> set (drop (length (sent b2)) (sent (plumTick E1 b2 now))) \<and>
    (idb, answer) \<in> set (drop (length (sent a)) (sent (fst (ReceiveFrame E2 a idb request)))) \<and>
    (let s = store (fst (ReceiveFrame E3 b3 ida answer)) in hasRecord r s \<or> \<not> fits s 1)"
proof -
  let ?k = "IHaveKey (Topic r) (NodeID r) (Key r) (HLC r)"
  have dec: "decodeFrame w announcement = Inr (frameIHave (Topic r) (NodeID r) (Key r) (HLC r) bh)"
    "decodeFrame w request = Inr (frameGraft (Topic r) (NodeID r) (Key r) (HLC r))"
    "decodeFrame w answer = Inr (frameEagerPush c (eagerTTL a))"
    using wire_ok_decode frames raws by blast+
  have "map_of (missingIHaves b1) ?k = Some \<lparr>announcer = ida, ie_bodyHash = copy32 bh, seenAt = clk_now E0, grafted = False\<rparr>"
    unfolding heard using dec(1) wires(1) lacks room by (intro ihave_tracked) (simp_all add: keyOf_def)
  then have tracked: "map_of (missingIHaves b2) ?k = Some \<lparr>announcer = ida, ie_bodyHash = copy32 bh, seenAt = clk_now E0, grafted = False\<rparr>"
    using before(2) by simp
  have b1: "wf_store (store b1)" "trackerOK b1" "settings b1 = settings b"
    using node by (simp_all add: heard ReceiveFrame_store applyAll_wf trackerOK_receive)
  then have b2: "wf_store (store b2)" "trackerOK b2" "settings b2 = settings b"
    using reachable_engine [OF before(1)] by simp_all
  then have "wf_map (missingIHaves b2)" by (simp add: trackerOK_def)
  from tick_grafts [OF this tracked, of now E1 request] window wires(2) raws(2)
  have asked: "(ida, request) \<in> set (drop (length (sent b2)) (sent (plumTick E1 b2 now)))" by simp
  have key: "keyOf c = keyOf r \<and> Topic c = Topic r" using slotMap_wf [OF holds(2,1)] .
  have answered: "(idb, answer) \<in> set (drop (length (sent a)) (sent (fst (ReceiveFrame E2 a idb request))))"
    using dec(2) holds raws(3) wires(3) by (intro graft_answered) (simp_all add: keyOf_def)
  have "engine_step (R\<lparr>runCrypto := cr E1\<rparr>) b2 (plumTick E1 b2 now)" by (rule engine_step.graft_tick) simp
  from step_trackerOK [OF this b2(2)] reachable_engine [OF later] b2
  have b3: "wf_store (store b3)" "settings b3 = settings b" by simp_all
  then have "acceptable E3 (gate b3) c"
    using admits(1) acceptable_config [of "gate b3" "gate b"] by (simp add: settings_def)
  from eager_arrives [OF _ this admits(2) b3(1), of answer "eagerTTL a" ida] dec(3) wires(4)
  have "arrived c (store (fst (ReceiveFrame E3 b3 ida answer)))" by simp
  from arrived_older [OF this holds(3)] key have "arrived r (store (fst (ReceiveFrame E3 b3 ida answer)))" by simp
  with asked answered show ?thesis by (simp add: arrived_def Let_def)
qed

definition repairWire :: wire where
  "repairWire = sampleWire [frameIHave [116] (NodeID sampleSigned) [] 5 [], frameGraft [116] (NodeID sampleSigned) [] 5,
     frameEagerPush sampleSigned 8]"

definition repairEnv :: env where
  "repairEnv = sampleEnv\<lparr>wr := repairWire\<rparr>"

lemma repair_frames:
  "wire_ok repairWire (frameIHave [116] (NodeID sampleSigned) [] 5 [])"
  "wire_ok repairWire (frameGraft [116] (NodeID sampleSigned) [] 5)" "wire_ok repairWire (frameEagerPush sampleSigned 8)"
  "encodeFrame repairWire (frameIHave [116] (NodeID sampleSigned) [] 5 []) = Some [0]"
  "encodeFrame repairWire (frameGraft [116] (NodeID sampleSigned) [] 5) = Some [1]"
  "encodeFrame repairWire (frameEagerPush sampleSigned 8) = Some [2]"
  by (simp_all add: repairWire_def wire_ok_def encodeFrame_def sampleWire_def frameIHave_def frameGraft_def frameEagerPush_def)

theorem lazy_repair_completes_witness:
  "let b1 = fst (ReceiveFrame repairEnv (sampleEngine newRecordStore) [2] [0]);
       b2 = plumTick repairEnv b1 (2200 * millisecond);
       s = store (fst (ReceiveFrame repairEnv b2 [2] [2]))
   in ([2], [1]) \<in> set (drop (length (sent b1)) (sent b2)) \<and> (hasRecord sampleSigned s \<or> \<not> fits s 1)"
proof -
  let ?b = "sampleEngine newRecordStore" and ?sA = "fst (ApplyExt newRecordStore 1 sampleSigned)"
  let ?a = "sampleEngine ?sA"
  let ?b1 = "fst (ReceiveFrame repairEnv ?b [2] [0])"
  have own: "\<not> IsObserverAttestation sampleSigned" "Topic sampleSigned = [116]" "Sig sampleSigned \<noteq> []"
    "Key sampleSigned = []" "HLC sampleSigned = 5"
    by (simp_all add: sampleSigned_def signRecord_def Let_def zero_record_def sampleCrypto_def fit32_def
        IsObserverAttestation_def)
  have fields: "store ?b = newRecordStore" "store ?a = ?sA" "eagerTTL ?a = 8" "missingIHaves ?b = []" "maxIHaves ?b = 4096"
    "gate ?b = None" by (simp_all add: sampleEngine_def)
  have none: "slotMap newRecordStore t k = None" for t k by (simp add: slotMap_def newRecordStore_def setCaps_def)
  have env: "wr repairEnv = repairWire" "cr repairEnv = sampleCrypto" "clk_now repairEnv = 2000 * millisecond"
    by (simp_all add: repairEnv_def sampleEnv_def)
  have held: "slotMap ?sA [116] (keyOf sampleSigned) = Some sampleSigned"
    using arg_cong [OF ApplyExt_refines [OF wf_store_new own(1), of 0 1], of "\<lambda>m. m (fullSlot sampleSigned)"] none own(2)
    by (simp add: fits_new lww_apply_def storeMap_fullSlot)
  have delay: "graftDelay ?b1 = 200 * millisecond"
    using repair_frames(1,4) wire_ok_decode
    by (simp add: ReceiveFrame_def env frameIHave_def handleIHave_def Let_def sampleEngine_def split: sum.split Frame.split option.split)
  have acc: "acceptable repairEnv (gate ?b) sampleSigned"
    using sampleSigned_inbound by (simp add: acceptable_def fields verifyInbound_def repairEnv_def)
  have "([2], [1]) \<in> set (drop (length (sent ?b1)) (sent (plumTick repairEnv ?b1 (2200 * millisecond)))) \<and>
    ([1], [2]) \<in> set (drop (length (sent ?a)) (sent (fst (ReceiveFrame repairEnv ?a [1] [1])))) \<and>
    (let s = store (fst (ReceiveFrame repairEnv (plumTick repairEnv ?b1 (2200 * millisecond)) [2] [2]))
     in hasRecord sampleSigned s \<or> \<not> fits s 1)"
    by (rule lazy_repair_completes [where b = ?b and a = ?a and ?b1.0 = ?b1 and ?b2.0 = ?b1 and w = repairWire
          and R = sampleRun and ?E0.0 = repairEnv and bh = "[]" and c = sampleSigned and announcement = "[0]"])
      (use own held acc delay wf_store_new ApplyExt_wf [OF wf_store_new] in
        \<open>simp_all add: env fields repair_frames none trackerOK_def record_lww.nw_irrefl ihaveEntryTTL_def millisecond_def second_def\<close>)
  then show ?thesis by (simp add: Let_def)
qed

end
