(* ===== verification/Node_Inv.thy ===== *)
theory Node_Inv
  imports Node_Props
begin

text \<open>
  The invariant of a node in use. Every method of \<open>src/node.go\<close> that changes state and every transport
  callback is a step of \<open>node_step\<close>; each is a run of the engine's steps of \<open>Gossip\<close> together with bookkeeping of
  subscriptions and hooks, so what holds of every reachable engine holds of every node.
\<close>

subsection \<open>Steps\<close>

text \<open>The records a node signs with its own key in its own name.\<close>

definition ownRecords :: "crypto \<Rightarrow> bytes \<Rightarrow> NodeID \<Rightarrow> Record set" where
  "ownRecords C pk me = {r. bindID r = me \<and> (\<exists>r0. r = signRecord C r0 pk)}"

text \<open>A run of a node: it publishes only what it signs itself.\<close>

definition nodeRun :: "crypto \<Rightarrow> nodeImpl \<Rightarrow> instant set \<Rightarrow> int \<Rightarrow> runContext" where
  "nodeRun C n walls q =
     \<lparr>runCrypto = C, runOwn = ownRecords C (priv n) (nid n), runWalls = walls, runQuorum = q\<rparr>"

lemma nodeRun_fields [simp]:
  "runCrypto (nodeRun C n walls q) = C" "runOwn (nodeRun C n walls q) = ownRecords C (priv n) (nid n)"
  "runWalls (nodeRun C n walls q) = walls" "runQuorum (nodeRun C n walls q) = q"
  by (simp_all add: nodeRun_def)

inductive node_step :: "runContext \<Rightarrow> nodeImpl \<Rightarrow> nodeImpl \<Rightarrow> bool" for R where
  receive_frame: "during R E \<Longrightarrow> node_step R n (OnReceive E n from raw)"
| peer_join: "node_step R n (OnPeerJoin E n i)"
| peer_leave: "node_step R n (OnPeerLeave n i)"
| tick: "cr E = runCrypto R \<Longrightarrow> node_step R n (Tick E n now)"
| ticker: "cr E = runCrypto R \<Longrightarrow> node_step R n (fst (tickLoop E n now lastReap))"
| probe_peer: "cr E = runCrypto R \<Longrightarrow> node_step R n (nodeProbePeer E n i)"
| publish_keyed: "cr E = runCrypto R \<Longrightarrow> node_step R n (fst (PublishKeyed E n topic key body))"
| publish_tombstone: "cr E = runCrypto R \<Longrightarrow> node_step R n (fst (PublishKeyedTombstone E n topic key))"
| publish_observer: "cr E = runCrypto R \<Longrightarrow> node_step R n (fst (PublishObserverTombstone E n topic target))"
| set_tenant: "cr E = runCrypto R \<Longrightarrow> node_step R n (SetTenant E n t)"
| set_role: "node_step R n (SetRole n r)"
| role_hook: "node_step R n (OnRoleChange n)"
| tenant_hook: "node_step R n (OnTenantChange n)"
| observer_quorum: "runQuorum R \<le> observerQuorum (store (eng (nodeSetObserverQuorum n k w))) \<Longrightarrow>
    node_step R n (nodeSetObserverQuorum n k w)"
| observer_role_check: "node_step R n (nodeSetObserverRoleCheck n fn)"
| pause_node: "node_step R n (Pause n)"
| resume_node: "node_step R n (Resume n)"
| subscribe: "node_step R n (fst (Subscribe n topic subIsNil))"
| unsubscribe: "node_step R n (unsubscribe n topic i)"
| start: "node_step R n (fst (Start n))"
| stop: "node_step R n (Stop n)"

subsection \<open>The invariant\<close>

definition engineOK :: "runContext \<Rightarrow> engine \<Rightarrow> bool" where
  "engineOK R e \<longleftrightarrow> wf_store (store e) \<and> runQuorum R \<le> observerQuorum (store e) \<and>
     provenance (legit R (gate e)) (runQuorum R) (store e) \<and> peersOK e \<and> trackerOK e"

lemma engineOK_step: "engine_step R e e' \<Longrightarrow> engineOK R e \<Longrightarrow> engineOK R e' \<and> settings e' = settings e"
  unfolding engineOK_def
  using step_settings step_wf_store step_quorum step_provenance step_peersOK step_trackerOK legit_settings by metis

lemma engineOK_frame [simp]:
  "engineOK R (e\<lparr>calls := c\<rparr>) = engineOK R e" "engineOK R (e\<lparr>sent := o'\<rparr>) = engineOK R e"
  by (simp_all add: engineOK_def peersOK_def trackerOK_def maxTreeEdges_def)

text \<open>Subscriptions between calls: distinct handles, gates open, nothing queued.\<close>

definition subsOK :: "nodeImpl \<Rightarrow> bool" where
  "subsOK n \<longleftrightarrow> wf_map (subs n) \<and>
     (\<forall>(t, m)\<in>set (subs n). wf_map m \<and> (\<forall>(i, g)\<in>set m. \<not> replaying g \<and> queue g = []))"

definition nodeOK :: "runContext \<Rightarrow> nodeImpl \<Rightarrow> bool" where
  "nodeOK R n \<longleftrightarrow> engineOK R (eng n) \<and> localID (eng n) = nid n \<and> nid n \<noteq> [] \<and> wired n \<and> subsOK n \<and>
     ownRecords (runCrypto R) (priv n) (nid n) \<subseteq> runOwn R"

text \<open>What no step changes.\<close>

definition identity :: "nodeImpl \<Rightarrow> Config \<times> bytes \<times> NodeID \<times> (NodeID \<times> int \<times> int \<times> inboundGate option)" where
  "identity n = (cfg n, priv n, nid n, settings (eng n))"

definition kept :: "runContext \<Rightarrow> nodeImpl \<Rightarrow> nodeImpl \<Rightarrow> bool" where
  "kept R n n' \<longleftrightarrow> (nodeOK R n \<longrightarrow> nodeOK R n' \<and> identity n' = identity n)"

lemma kept_refl: "kept R n n" and kept_trans: "kept R n n' \<Longrightarrow> kept R n' n'' \<Longrightarrow> kept R n n''"
  by (auto simp: kept_def)

text \<open>An engine step under a node, leaving the rest.\<close>

lemma kept_engine:
  assumes "engine_step R (eng n) e"
  shows "kept R n (n\<lparr>eng := e\<rparr>)"
proof -
  have "localID e = localID (eng n)" using step_settings [OF assms] by (simp add: settings_def)
  then show ?thesis
    using engineOK_step [OF assms] by (simp add: kept_def nodeOK_def identity_def subsOK_def)
qed

lemma kept_frame:
  assumes "eng n' = eng n" "cfg n' = cfg n" "priv n' = priv n" "nid n' = nid n" "wired n' = wired n"
    and "subsOK n \<Longrightarrow> subsOK n'"
  shows "kept R n n'"
  using assms by (simp add: kept_def nodeOK_def identity_def)

lemma kept_foldl: "(\<And>n x. kept R n (f n x)) \<Longrightarrow> kept R n (foldl f n xs)"
  by (induction xs arbitrary: n) (auto intro: kept_refl kept_trans)

subsection \<open>Subscriptions\<close>

lemma wf_map_pair: "wf_map (map (\<lambda>(i, g). (i, f i g)) m) = wf_map m"
  by (simp add: case_prod_unfold comp_def)

lemma subsOK_update:
  assumes "subsOK n" and "wf_map m" and "\<forall>(i, g)\<in>set m. \<not> replaying g \<and> queue g = []"
  shows "subsOK (n\<lparr>subs := AList.update t m (subs n)\<rparr>)"
  using assms set_update_subset [of t m "subs n"] by (fastforce simp: subsOK_def)

lemma subsOK_topic:
  assumes "subsOK n"
  shows "wf_map (topicSubs n t)" and "\<forall>(i, g)\<in>set (topicSubs n t). \<not> replaying g \<and> queue g = []"
  using assms by (auto simp: subsOK_def topicSubs_def split: option.splits dest!: map_of_SomeD)

lemma subsOK_events [simp]: "subsOK (n\<lparr>events := x\<rparr>) = subsOK n"
  by (simp add: subsOK_def)

lemma subsOK_deliver:
  assumes ok: "subsOK n"
  shows "subsOK (deliverToSubs n r)"
proof (cases "map_of (subs n) (Topic r)")
  case None
  with ok show ?thesis by (simp add: deliverToSubs_def)
next
  case (Some m)
  have m: "wf_map m" "\<forall>(i, g)\<in>set m. \<not> replaying g \<and> queue g = []"
    using subsOK_topic [OF ok, of "Topic r"] Some by (simp_all add: topicSubs_def)
  have "map (\<lambda>(i, g). (i, fst (gateDeliver g r))) m = m"
    using m(2) by (intro map_idI) (auto simp: gateDeliver_def)
  with subsOK_update [OF ok m] Some show ?thesis by (simp add: deliverToSubs_def subsOK_def)
qed

lemma kept_recordAccepted: "kept R n (recordAccepted n r)"
  by (rule kept_frame) (simp_all add: recordAccepted_def Let_def subsOK_deliver)

lemma kept_subscribe: "kept R n (fst (Subscribe n topic b))"
proof (cases b)
  case True
  then show ?thesis by (simp add: Subscribe_def kept_refl)
next
  case False
  show ?thesis
  proof (rule kept_frame)
    assume ok: "subsOK n"
    let ?i = "subSeq n + 1"
    let ?g = "\<lparr>replaying = True, queue = []\<rparr>" and ?g' = "\<lparr>replaying = False, queue = []\<rparr>"
    let ?m = "AList.update ?i ?g' (AList.update ?i ?g (topicSubs n topic))"
    note t = subsOK_topic [OF ok, of topic]
    have "subs (fst (Subscribe n topic b)) = AList.update topic ?m (AList.update topic
        (AList.update ?i ?g (topicSubs n topic)) (subs n))"
      using False by (simp add: Subscribe_def subRegister_def Let_def topicSubs_def finishReplay_def)
    also have "\<dots> = AList.update topic ?m (subs n)" by simp
    finally have eq: "subs (fst (Subscribe n topic b)) = AList.update topic ?m (subs n)" .
    have "\<forall>(i, g)\<in>set ?m. \<not> replaying g \<and> queue g = []"
      using t(2) set_update_subset by fastforce
    with subsOK_update [OF ok, of ?m topic] t(1) have "subsOK (n\<lparr>subs := AList.update topic ?m (subs n)\<rparr>)" by simp
    then show "subsOK (fst (Subscribe n topic b))" using eq by (simp add: subsOK_def)
  qed (simp_all add: Subscribe_def subRegister_def Let_def finishReplay_def)
qed

lemma kept_unsubscribe: "kept R n (unsubscribe n topic i)"
proof (rule kept_frame)
  assume ok: "subsOK n"
  show "subsOK (unsubscribe n topic i)"
  proof (cases "map_of (subs n) topic")
    case None
    with ok show ?thesis by (simp add: unsubscribe_def)
  next
    case (Some m)
    have "wf_map m" "\<forall>(i, g)\<in>set m. \<not> replaying g \<and> queue g = []"
      using subsOK_topic [OF ok, of topic] Some by (simp_all add: topicSubs_def)
    then have "wf_map (AList.delete i m)" "\<forall>(i, g)\<in>set (AList.delete i m). \<not> replaying g \<and> queue g = []"
      by (auto simp: AList.delete_eq)
    from subsOK_update [OF ok this] Some show ?thesis by (simp add: unsubscribe_def)
  qed
qed (simp_all add: unsubscribe_def split: option.split)

subsection \<open>Operations\<close>

lemma kept_cond: "(nodeOK R n \<Longrightarrow> kept R n n') \<Longrightarrow> kept R n n'"
  by (simp add: kept_def)

lemma kept_calls: "kept R n (n\<lparr>eng := (eng n)\<lparr>calls := c\<rparr>\<rparr>)"
  by (simp add: kept_def nodeOK_def identity_def subsOK_def)

lemma kept_dispatch: "kept R n (dispatchApplied n)"
proof -
  have "kept R n (case c of OnApplied r \<Rightarrow> recordAccepted n r | _ \<Rightarrow> n)" for n c
    by (cases c) (simp_all add: kept_recordAccepted kept_refl)
  from kept_foldl [where f = "\<lambda>n c. case c of OnApplied r \<Rightarrow> recordAccepted n r | _ \<Rightarrow> n", OF this]
  show ?thesis unfolding dispatchApplied_def Let_def by (rule kept_trans [OF kept_calls])
qed

lemma kept_receive: "during R E \<Longrightarrow> kept R n (OnReceive E n from raw)"
  unfolding OnReceive_def
  by (auto intro: kept_refl kept_trans [OF kept_engine kept_dispatch] engine_step.receive)

lemma kept_tick: "cr E = runCrypto R \<Longrightarrow> kept R n (Tick E n now)"
proof -
  assume C: "cr E = runCrypto R"
  have "kept R n (n\<lparr>eng := merkleTick E (plumTick E (eng n) now)\<rparr>)"
    using kept_trans [OF kept_engine [OF engine_step.graft_tick [OF C]]
        kept_engine [OF engine_step.merkle_tick [OF C]], of n now] by simp
  then show ?thesis by (simp add: Tick_def kept_refl)
qed

lemma kept_ticker:
  assumes "cr E = runCrypto R"
  shows "kept R n (fst (tickLoop E n now lastReap))"
proof -
  let ?n = "Tick E n now"
  have "kept R ?n (?n\<lparr>eng := (eng ?n)\<lparr>store := fst (reapExpired (store (eng ?n)) nw ttl)\<rparr>\<rparr>)" for nw ttl
    by (rule kept_engine [OF engine_step.reap])
  from kept_trans [OF kept_tick [OF assms] this] kept_tick [OF assms, of n now] show ?thesis
    by (simp add: tickLoop_def Let_def)
qed

lemma kept_stamp: "kept R n (fst (stampHLC E n))"
  using kept_engine [OF engine_step.stamp] by (simp add: stampHLC_def case_prod_beta)

lemma own_signed: "bindID (signRecord C r pk) = me \<Longrightarrow> signRecord C r pk \<in> ownRecords C pk me"
  by (auto simp: ownRecords_def)

lemma own_verified: "ed25519_ok C \<Longrightarrow> r \<in> ownRecords C pk me \<Longrightarrow> verified C r"
  by (auto simp: ownRecords_def signRecord_verified)

lemma kept_publishSigned:
  assumes "cr E = runCrypto R" and "ed25519_ok (runCrypto R)" and "r \<in> ownRecords (runCrypto R) (priv n) (nid n)"
  shows "kept R n (fst (publishSigned E n r))"
proof (rule kept_cond)
  assume "nodeOK R n"
  then have "r \<in> runOwn R" using assms(3) by (auto simp: nodeOK_def)
  from kept_trans [OF kept_engine [OF engine_step.publish [OF assms(1) own_verified [OF assms(2,3)] this]] kept_recordAccepted]
  show "kept R n (fst (publishSigned E n r))" by (simp add: publishSigned_def kept_refl)
qed

lemma kept_applyAndNotify:
  assumes "ed25519_ok (runCrypto R)" and "r \<in> ownRecords (runCrypto R) (priv n) (nid n)"
  shows "kept R n (applyAndNotify E n r)"
proof (rule kept_cond)
  assume "nodeOK R n"
  then have "r \<in> runOwn R" using assms(2) by (auto simp: nodeOK_def)
  note step = kept_engine [OF engine_step.apply_own [OF own_verified [OF assms] this]]
  from step kept_trans [OF step kept_recordAccepted] show "kept R n (applyAndNotify E n r)"
    by (simp add: applyAndNotify_def case_prod_beta Let_def)
qed

lemma kept_broadcast: "cr E = runCrypto R \<Longrightarrow> kept R n (n\<lparr>eng := Broadcast E (eng n) r\<rparr>)"
  by (rule kept_engine [OF engine_step.broadcast])

lemma stamp_fields [simp]:
  "nid (fst (stampHLC E n)) = nid n" "priv (fst (stampHLC E n)) = priv n" "wired (fst (stampHLC E n)) = wired n"
  by (simp_all add: stampHLC_def case_prod_beta)

lemma bind_owner: "bindID (signRecord C (zero_record\<lparr>Topic := t, NodeID := i, Key := k, HLC := h, Body := b\<rparr>) p) = i"
  "bindID (signRecord C (zero_record\<lparr>Topic := t, NodeID := i, Key := k, HLC := h, Tombstone := True\<rparr>) p) = i"
  by (simp_all add: bindID_def IsObserverAttestation_def)

lemma kept_stampThen:
  assumes "\<And>n'. nid n' = nid n \<Longrightarrow> priv n' = priv n \<Longrightarrow> kept R n' (f n')"
  shows "kept R n (f (fst (stampHLC E n)))"
  by (rule kept_trans [OF kept_stamp assms]) simp_all

lemma kept_publishKeyed:
  assumes "cr E = runCrypto R" and "ed25519_ok (runCrypto R)"
  shows "kept R n (fst (PublishKeyed E n topic key body))"
    and "kept R n (fst (PublishKeyedTombstone E n topic key))"
proof -
  note signed = kept_publishSigned [OF assms own_signed]
  have "kept R n (fst (publishSigned E (fst (stampHLC E n))
      (signRecord (runCrypto R) (zero_record\<lparr>Topic := topic, NodeID := nid n, Key := key, HLC := h, Body := body\<rparr>) (priv n))))" for h
    by (rule kept_stampThen [where f = "\<lambda>n'. fst (publishSigned E n' _)"]) (metis signed bind_owner(1))
  then show "kept R n (fst (PublishKeyed E n topic key body))"
    by (simp add: PublishKeyed_def case_prod_beta Let_def kept_refl assms(1))
  have "kept R n (fst (publishSigned E (fst (stampHLC E n))
      (signRecord (runCrypto R) (zero_record\<lparr>Topic := topic, NodeID := nid n, Key := key, HLC := h, Tombstone := True\<rparr>) (priv n))))" for h
    by (rule kept_stampThen [where f = "\<lambda>n'. fst (publishSigned E n' _)"]) (metis signed bind_owner(2))
  then show "kept R n (fst (PublishKeyedTombstone E n topic key))"
    by (simp add: PublishKeyedTombstone_def case_prod_beta Let_def kept_refl assms(1))
qed

text \<open>Applying an own record and broadcasting it, as observers and tenant changes do.\<close>

lemma kept_applyBroadcast:
  assumes "cr E = runCrypto R" and "ed25519_ok (runCrypto R)" and "r \<in> ownRecords (runCrypto R) (priv n) (nid n)"
  shows "kept R n (let n2 = applyAndNotify E n r in if b then n2\<lparr>eng := Broadcast E (eng n2) r\<rparr> else n2)"
  using kept_applyAndNotify [OF assms(2,3)] kept_trans [OF kept_applyAndNotify [OF assms(2,3)] kept_broadcast [OF assms(1)]]
  by (simp add: Let_def)

lemma kept_stampBroadcast:
  assumes "cr E = runCrypto R" and "ed25519_ok (runCrypto R)" and "r \<in> ownRecords (runCrypto R) (priv n) (nid n)"
  shows "kept R n (let n2 = applyAndNotify E (fst (stampHLC E n)) r in if b then n2\<lparr>eng := Broadcast E (eng n2) r\<rparr> else n2)"
  by (rule kept_stampThen [where f = "\<lambda>n'. let n2 = applyAndNotify E n' _ in if _ then n2\<lparr>eng := Broadcast E (eng n2) _\<rparr> else n2"])
    (rule kept_applyBroadcast [OF assms(1,2)], simp add: assms(3))

lemma kept_publishObserver:
  assumes "cr E = runCrypto R" and "ed25519_ok (runCrypto R)"
  shows "kept R n (fst (PublishObserverTombstone E n topic target))"
proof (rule kept_cond)
  assume "nodeOK R n"
  then have ne: "nid n \<noteq> []" by (simp add: nodeOK_def)
  define r where "r h = signRecord (runCrypto R) (zero_record\<lparr>Topic := topic, NodeID := target, HLC := h, Tombstone := True,
      ObserverNodeID := nid n, ObservedAtUnixMs := nowMs E\<rparr>) (priv n)" for h
  have "r h \<in> ownRecords (runCrypto R) (priv n) (nid n)" for h
    unfolding r_def by (rule own_signed) (use ne in \<open>simp add: bindID_def IsObserverAttestation_def\<close>)
  from kept_stampBroadcast [OF assms this [of "snd (stampHLC E n)"], of "wired n"]
  show "kept R n (fst (PublishObserverTombstone E n topic target))"
    by (cases "wired n") (simp_all add: PublishObserverTombstone_def case_prod_beta Let_def kept_refl assms(1) r_def)
qed

lemma kept_setTenant:
  assumes "cr E = runCrypto R" and "ed25519_ok (runCrypto R)"
  shows "kept R n (SetTenant E n t)"
proof -
  have one: "kept R n (retireSlot E n r)" for n r
  proof -
    define tomb where "tomb h = signRecord (runCrypto R) (zero_record\<lparr>Topic := Topic r, NodeID := nid n, Key := Key r,
        HLC := h, Tombstone := True\<rparr>) (priv n)" for h
    have "tomb h \<in> ownRecords (runCrypto R) (priv n) (nid n)" for h
      unfolding tomb_def by (rule own_signed) (rule bind_owner)
    from kept_stampBroadcast [OF assms this [of "snd (stampHLC E n)"], of "wired n"] show ?thesis
      by (cases "wired n") (simp_all add: retireSlot_def case_prod_beta Let_def assms(1) tomb_def)
  qed
  have tenant: "kept R n (n\<lparr>tenant := t\<rparr>)" for n by (rule kept_frame) (simp_all add: subsOK_def)
  have hooks: "kept R n (n\<lparr>events := x\<rparr>)" for n x by (rule kept_frame) simp_all
  show ?thesis
    using kept_trans [OF kept_trans [OF tenant kept_foldl [where f = "retireSlot E", OF one]] hooks] tenant
    by (simp add: SetTenant_def Let_def)
qed

lemma kept_setters:
  "runQuorum R \<le> observerQuorum (store (eng (nodeSetObserverQuorum n k w))) \<Longrightarrow> kept R n (nodeSetObserverQuorum n k w)"
  "kept R n (nodeSetObserverRoleCheck n fn)"
  unfolding nodeSetObserverQuorum_def nodeSetObserverRoleCheck_def
  by (rule kept_engine [OF engine_step.set_quorum], simp) (rule kept_engine [OF engine_step.set_role_check])

lemma kept_setRole: "kept R n (SetRole n r)"
  by (rule kept_frame) (simp_all add: SetRole_def Let_def subsOK_def)

lemma kept_hooks: "kept R n (OnRoleChange n)" "kept R n (OnTenantChange n)"
  by (rule kept_frame; simp add: OnRoleChange_def OnTenantChange_def subsOK_def)+

lemma kept_life: "kept R n (fst (Start n))" "kept R n (Stop n)"
  by (rule kept_frame; simp add: Start_def Stop_def subsOK_def)+

lemma kept_pauses: "kept R n (Pause n)" "kept R n (Resume n)"
proof -
  have flag: "kept R n (n\<lparr>paused := b\<rparr>)" for n b by (rule kept_frame) (simp_all add: subsOK_def)
  have engines: "kept R n (setEnginePaused n b)" for n b
    using kept_engine [OF engine_step.pause] by (simp add: setEnginePaused_def kept_refl)
  have hook: "kept R n (n\<lparr>events := x\<rparr>)" for n x by (rule kept_frame) simp_all
  note both = kept_trans [OF flag engines]
  show "kept R n (Pause n)" "kept R n (Resume n)"
    using both kept_trans [OF both hook] by (simp_all add: Pause_def Resume_def Let_def kept_refl)
qed

theorem node_step_kept:
  assumes "node_step R n n'" and "ed25519_ok (runCrypto R)"
  shows "kept R n n'"
  using assms(1)
proof cases
  case peer_join
  then show ?thesis using kept_engine [OF engine_step.join] by (simp add: OnPeerJoin_def)
next
  case peer_leave
  then show ?thesis using kept_engine [OF engine_step.leave] by (simp add: OnPeerLeave_def)
next
  case (probe_peer E i)
  then show ?thesis using kept_engine [OF engine_step.probe] by (simp add: nodeProbePeer_def kept_refl)
qed (simp_all add: kept_receive kept_tick kept_ticker kept_publishKeyed kept_publishObserver kept_setTenant
    kept_setRole kept_setters kept_hooks kept_pauses kept_subscribe kept_unsubscribe kept_life assms(2))

lemma reachable_nodeOK:
  assumes "(node_step R)\<^sup>*\<^sup>* n0 n" and "nodeOK R n0" and "ed25519_ok (runCrypto R)"
  shows "nodeOK R n \<and> identity n = identity n0"
  using assms(1)
proof (induction rule: rtranclp_induct)
  case base
  show ?case using assms(2) by simp
next
  case (step n n')
  then show ?case using node_step_kept [OF step(2) assms(3)] by (simp add: kept_def)
qed

subsection \<open>A node from construction on\<close>

definition wiredEngine :: "env \<Rightarrow> nodeImpl \<Rightarrow> NodeID \<Rightarrow> engine" where
  "wiredEngine E n transportID =
     (let m = newMerkle (cr E) (Some transportID) (cfg_MerkleProbeInterval (cfg n))
      in SetMerkle (SetMaxPendingIHaves (SetInboundGate
           (newPlumtrees (nid n) (store (eng n)) (peers (eng n)) (hlc (eng n)) (cfg_TreeDegree (cfg n))
              (cfg_GraftDelay (cfg n)) m) (newInboundGate (cfg n))) (cfg_MaxPendingIHaves (cfg n))) m)"

lemma wiredEngine_fields:
  "localID (wiredEngine E n i) = nid n" "store (wiredEngine E n i) = store (eng n)"
  "peers (wiredEngine E n i) = peers (eng n)" "missingIHaves (wiredEngine E n i) = []"
  "gate (wiredEngine E n i) = Some (newInboundGate (cfg n))"
  "treeDeg (wiredEngine E n i) = (if cfg_TreeDegree (cfg n) \<le> 0 then 4 else cfg_TreeDegree (cfg n))"
  "maxIHaves (wiredEngine E n i) = (if cfg_MaxPendingIHaves (cfg n) > 0 then cfg_MaxPendingIHaves (cfg n) else 4096)"
  by (simp_all add: wiredEngine_def SetMerkle_def SetMaxPendingIHaves_def SetInboundGate_def newPlumtrees_def Let_def)

lemma New_fields:
  assumes "New E c = Inr n" and "ed25519_ok (cr E)"
  shows "nid n \<noteq> []" "byTopic (store (eng n)) = []" "observerQuorum (store (eng n)) = DefaultObserverQuorum"
    "0 \<le> maxTopics (store (eng n))" "ctxBy (peers (eng n)) = []" "\<not> wired n" "subs n = []"
proof -
  have "length (ed_Public (cr E) (cfg_PrivKey c)) = 32" using assms(2) by (simp add: ed25519_ok_def PublicKeySize_def)
  then have "ed_Public (cr E) (cfg_PrivKey c) \<noteq> []" by auto
  then have "nodeIDFromPub (ed_Public (cr E) (cfg_PrivKey c)) \<noteq> []" by (simp add: nodeIDFromPub_def)
  then have ne: "(if cfg_NodeID c = [] then nodeIDFromPub (ed_Public (cr E) (cfg_PrivKey c)) else cfg_NodeID c) \<noteq> []" by simp
  have key: "length (cfg_PrivKey c) = PrivateKeySize"
    using assms(1) by (cases "length (cfg_PrivKey c) = PrivateKeySize") (simp_all add: New_def)
  have proj: "n = projr (New E c)" using assms(1) by simp
  with key have n: "\<exists>mt mr mk ma lid h d g m. eng n = newPlumtrees lid (setCaps newRecordStore mt mr mk ma)
      (newPeerTable (cfg_PerPeerConfig c)) h d g m" "\<not> wired n" "subs n = []"
    by (simp_all add: New_def Let_def) blast
  then show "\<not> wired n" "subs n = []" by simp_all
  show "nid n \<noteq> []" using key proj ne by (simp add: New_def Let_def)
  from n(1) show "byTopic (store (eng n)) = []" "observerQuorum (store (eng n)) = DefaultObserverQuorum"
    "0 \<le> maxTopics (store (eng n))" "ctxBy (peers (eng n)) = []"
    by (auto simp: newPlumtrees_def newPeerTable_def setCaps_def newRecordStore_def)
qed

lemma Wire_nodeOK:
  assumes "New E c = Inr n0" and "Wire E n0 transportID known = (n1, Returns None)" and "ed25519_ok (cr E)"
    and "q \<le> DefaultObserverQuorum"
  shows "nodeOK (nodeRun (cr E) n0 walls q) n1 \<and>
    identity n1 = (cfg n0, priv n0, nid n0, settings (wiredEngine E n0 transportID)) \<and>
    observerQuorum (store (eng n1)) = DefaultObserverQuorum"
proof -
  let ?R = "nodeRun (cr E) n0 walls q" and ?e = "wiredEngine E n0 transportID"
  note n0 = New_fields [OF assms(1,3)]
  have "wf_peers (peers (eng n0))" "treeSet (peers (eng n0)) = {}"
    using n0(5) by (simp_all add: wf_peers_def treeSet_def)
  moreover have "wf_store (store (eng n0))" using n0(2,4) by (simp add: wf_store_def)
  moreover have "provenance P q (store (eng n0))" for P using n0(2) by (simp add: provenance_def slotMap_def witnessesOf_def)
  ultimately have "engineOK ?R ?e"
    using n0(3) assms(4) by (simp add: engineOK_def wiredEngine_fields peersOK_def trackerOK_def maxTreeEdges_def)
  then have start: "nodeOK ?R (n0\<lparr>wired := True, eng := ?e\<rparr>)"
    using n0 by (simp add: nodeOK_def subsOK_def wiredEngine_fields)
  have joins: "kept ?R n (n\<lparr>eng := (eng n)\<lparr>peers := foldl (\<lambda>pt p. fst (Ensure pt p (clk_wall E))) (peers (eng n)) ps\<rparr>\<rparr>)" for n ps
  proof (induction ps arbitrary: n)
    case Nil
    show ?case by (simp add: kept_refl)
  next
    case (Cons p ps)
    from kept_trans [OF kept_engine [OF engine_step.join] Cons.IH] show ?case by simp
  qed
  define n2 where "n2 = fst (Subscribe (n0\<lparr>wired := True, eng := ?e\<rparr>) FleetContentAdvertTopic False)"
  have n1: "n1 = n2\<lparr>eng := (eng n2)\<lparr>peers := foldl (\<lambda>pt p. fst (Ensure pt p (clk_wall E))) (peers (eng n2)) known\<rparr>\<rparr>"
    using assms(2) n0(6) by (simp add: Wire_def Let_def wiredEngine_def n2_def)
  have "eng n2 = ?e" by (simp add: n2_def Subscribe_def subRegister_def Let_def finishReplay_def)
  then have quorum: "observerQuorum (store (eng n1)) = DefaultObserverQuorum" using n0(3) by (simp add: n1 wiredEngine_fields)
  have "kept ?R (n0\<lparr>wired := True, eng := ?e\<rparr>) n2" unfolding n2_def by (rule kept_subscribe)
  then have "kept ?R (n0\<lparr>wired := True, eng := ?e\<rparr>) n1" unfolding n1 by (rule kept_trans [OF _ joins])
  with start quorum show ?thesis by (simp add: kept_def identity_def)
qed

text \<open>C7: A node stays well-formed and honest from construction on: after \<open>New\<close> and \<open>Wire\<close>, under any sequence
  of calls and callbacks with any bytes from peers, the store is well-formed, every slot holds a
  record of that slot that the node signed itself with its own key or that passed signature check
  and gate at one of the run's readings of the wall clock, or a tombstone with a quorum of such
  attestations behind it, tracked announcements and tree edges stay within the configured bounds,
  every subscription's gate is open with nothing queued under distinct handles, and identity and
  key never change. The quorum is at least \<open>q\<close>, where \<open>q\<close> is at most the default and no call of
  \<open>SetObserverQuorum\<close> in the sequence sets less.\<close>

theorem node_stays_well_formed:
  assumes "New E c = Inr n0" and "Wire E n0 transportID known = (n1, Returns None)" and "ed25519_ok (cr E)"
    and "q \<le> DefaultObserverQuorum" and "(node_step (nodeRun (cr E) n0 walls q))\<^sup>*\<^sup>* n1 n"
  shows "wf_store (store (eng n)) \<and> wf_peers (peers (eng n)) \<and> subsOK n \<and> nid n = nid n0 \<and> priv n = priv n0 \<and>
    q \<le> observerQuorum (store (eng n)) \<and>
    (\<forall>t k r. slotMap (store (eng n)) t k = Some r \<longrightarrow> keyOf r = k \<and> Topic r = t \<and>
       (legit (nodeRun (cr E) n0 walls q) (Some (newInboundGate (cfg n0))) r \<or>
        attested (legit (nodeRun (cr E) n0 walls q) (Some (newInboundGate (cfg n0)))) q r)) \<and>
    int (length (TreeEdges (peers (eng n)))) \<le> 4 * (if cfg_TreeDegree (cfg n0) \<le> 0 then 4 else cfg_TreeDegree (cfg n0)) \<and>
    int (length (missingIHaves (eng n))) \<le> (if cfg_MaxPendingIHaves (cfg n0) > 0 then cfg_MaxPendingIHaves (cfg n0) else 4096)"
proof -
  let ?R = "nodeRun (cr E) n0 walls q" and ?e = "wiredEngine E n0 transportID"
  have wire: "nodeOK ?R n1" "identity n1 = (cfg n0, priv n0, nid n0, settings ?e)"
    using Wire_nodeOK [OF assms(1-4)] by simp_all
  have ok: "nodeOK ?R n" and idn: "identity n = identity n1"
    using reachable_nodeOK [OF assms(5) wire(1)] assms(3) by simp_all
  then have set: "settings (eng n) = settings ?e" and own: "nid n = nid n0" "priv n = priv n0"
    using wire by (simp_all add: identity_def)
  note f = wiredEngine_fields [of E n0 transportID]
  have legit: "legit ?R (gate (eng n)) = legit ?R (Some (newInboundGate (cfg n0)))"
    using legit_settings [OF set] by (simp add: f)
  have parts: "wf_store (store (eng n))" "peersOK (eng n)" "trackerOK (eng n)" "subsOK n" "q \<le> observerQuorum (store (eng n))"
    "provenance (legit ?R (Some (newInboundGate (cfg n0)))) q (store (eng n))"
    using ok by (simp_all add: nodeOK_def engineOK_def legit)
  moreover have "keyOf r = k \<and> Topic r = t" if "slotMap (store (eng n)) t k = Some r" for t k r
    using slotMap_wf [OF parts(1) that] .
  moreover have "treeDeg (eng n) = (if cfg_TreeDegree (cfg n0) \<le> 0 then 4 else cfg_TreeDegree (cfg n0))"
    "maxIHaves (eng n) = (if cfg_MaxPendingIHaves (cfg n0) > 0 then cfg_MaxPendingIHaves (cfg n0) else 4096)"
    using set unfolding settings_def f(6,7) [symmetric] by simp_all
  ultimately show ?thesis
    using own by (simp add: provenance_def peersOK_def trackerOK_def maxTreeEdges_def length_TreeEdges)
qed

theorem node_stays_well_formed_witness:
  "\<exists>n0 n1. New sampleEnv sampleConfig = Inr n0 \<and> Wire sampleEnv n0 [1] [[2]] = (n1, Returns None) \<and>
     (let n = fst (PublishKeyed sampleEnv (nodeSetObserverQuorum n1 1 second) [116] [] [5])
      in wf_store (store (eng n)) \<and> subsOK n \<and> nid n = [1] \<and> 1 \<le> observerQuorum (store (eng n)))"
proof -
  define n0 where "n0 = projr (New sampleEnv sampleConfig)"
  define n1 where "n1 = fst (Wire sampleEnv n0 [1] [[2]])"
  define n2 where "n2 = nodeSetObserverQuorum n1 1 second"
  define n where "n = fst (PublishKeyed sampleEnv n2 [116] [] [5])"
  let ?R = "nodeRun (cr sampleEnv) n0 {} 1"
  have new: "New sampleEnv sampleConfig = Inr n0"
    by (simp add: n0_def New_def Let_def sampleConfig_def PrivateKeySize_def)
  have cr: "cr sampleEnv = sampleCrypto" by (simp add: sampleEnv_def)
  have "\<not> wired n0" using New_fields(6) [OF new] sampleCrypto_ok by (simp add: cr)
  then have wire: "Wire sampleEnv n0 [1] [[2]] = (n1, Returns None)" by (simp add: n1_def Wire_def Let_def)
  have "runQuorum ?R \<le> observerQuorum (store (eng n2))"
    by (simp add: n2_def nodeSetObserverQuorum_def SetObserverQuorum_def second_def millisecond_def)
  then have "node_step ?R n1 n2" unfolding n2_def by (rule observer_quorum)
  moreover have "node_step ?R n2 n" unfolding n_def by (rule publish_keyed) simp
  ultimately have run: "(node_step ?R)\<^sup>*\<^sup>* n1 n"
    by (rule converse_rtranclp_into_rtranclp [OF _ r_into_rtranclp])
  have "ed25519_ok (cr sampleEnv)" "1 \<le> DefaultObserverQuorum"
    by (simp_all add: cr sampleCrypto_ok DefaultObserverQuorum_def)
  from node_stays_well_formed [OF new wire this run]
  have "wf_store (store (eng n))" "subsOK n" "nid n = nid n0" "1 \<le> observerQuorum (store (eng n))" by blast+
  moreover have "nid n0 = [1]" by (simp add: n0_def New_def Let_def sampleConfig_def PrivateKeySize_def)
  ultimately show ?thesis using new wire by (intro exI [of _ n0] exI [of _ n1]) (simp add: Let_def flip: n2_def n_def)
qed

end
