(* ===== verification/Pending_Heap.thy ===== *)
theory Pending_Heap
  imports Prelude
begin

text \<open>
  The simulator's queue of frames in flight, \<open>src/sim/sim.go\<close>: \<open>pendingHeap\<close> with the methods
  \<open>container/heap\<close> calls, and \<open>heap.Push\<close> and \<open>heap.Pop\<close> of the standard library as array
  sifting. The contract of a priority queue is the locale \<open>frame_queue\<close>; the heap is shown to
  implement it. Virtual time is \<open>int\<close>.
\<close>

type_synonym VirtualTime = int
type_synonym simID = gostring

record simFrame =
  fFrom :: simID
  fTo :: simID
  fBody :: bytes

record pendingFrame =
  deliveryAt :: VirtualTime
  frame :: simFrame
  index :: int

type_synonym pendingHeap = "pendingFrame list"

subsection \<open>The methods of \<open>pendingHeap\<close>\<close>

definition heapLess :: "pendingHeap \<Rightarrow> nat \<Rightarrow> nat \<Rightarrow> bool" where
  "heapLess h i j \<longleftrightarrow> deliveryAt (h ! i) < deliveryAt (h ! j)"

definition heapSwap :: "pendingHeap \<Rightarrow> nat \<Rightarrow> nat \<Rightarrow> pendingHeap" where
  "heapSwap h i j = h[i := (h ! j)\<lparr>index := int i\<rparr>, j := (h ! i)\<lparr>index := int j\<rparr>]"

definition heapAppend :: "pendingHeap \<Rightarrow> pendingFrame \<Rightarrow> pendingHeap" where
  "heapAppend h pf = h @ [pf\<lparr>index := int (length h)\<rparr>]"

definition heapChop :: "pendingHeap \<Rightarrow> pendingFrame \<times> pendingHeap" where
  "heapChop h = ((last h)\<lparr>index := -1\<rparr>, butlast h)"

subsection \<open>\<open>container/heap\<close>\<close>

function up :: "pendingHeap \<Rightarrow> nat \<Rightarrow> pendingHeap" where
  "up h j =
     (let i = (j - 1) div 2
      in if i = j \<or> \<not> heapLess h j i then h else up (heapSwap h i j) i)"
  by auto
termination by (relation "measure snd") auto

function down :: "pendingHeap \<Rightarrow> nat \<Rightarrow> nat \<Rightarrow> pendingHeap" where
  "down h i n =
     (let j1 = 2 * i + 1
      in if j1 \<ge> n then h
         else
           let j = (if j1 + 1 < n \<and> heapLess h (j1 + 1) j1 then j1 + 1 else j1)
           in if \<not> heapLess h j i then h else down (heapSwap h i j) j n)"
  by auto
termination by (relation "measure (\<lambda>(h, i, n). n - i)") (auto simp: Let_def)

declare up.simps [simp del] down.simps [simp del]

definition heapPush :: "pendingHeap \<Rightarrow> pendingFrame \<Rightarrow> pendingHeap" where
  "heapPush h pf = (let h1 = heapAppend h pf in up h1 (length h1 - 1))"

definition heapPop :: "pendingHeap \<Rightarrow> pendingFrame \<times> pendingHeap" where
  "heapPop h = (let n = length h - 1 in heapChop (down (heapSwap h 0 n) 0 n))"

subsection \<open>Order\<close>

abbreviation due :: "pendingHeap \<Rightarrow> nat \<Rightarrow> VirtualTime" where
  "due h i \<equiv> deliveryAt (h ! i)"

definition heapOrdered :: "pendingHeap \<Rightarrow> nat \<Rightarrow> bool" where
  "heapOrdered h n \<longleftrightarrow> (\<forall>i. 0 < i \<longrightarrow> i < n \<longrightarrow> due h ((i - 1) div 2) \<le> due h i)"

definition indexed :: "pendingHeap \<Rightarrow> bool" where
  "indexed h \<longleftrightarrow> (\<forall>i<length h. index (h ! i) = int i)"

definition wf_heap :: "pendingHeap \<Rightarrow> bool" where
  "wf_heap h \<longleftrightarrow> heapOrdered h (length h) \<and> indexed h"

text \<open>What is scheduled, forgetting positions.\<close>

definition entry :: "pendingFrame \<Rightarrow> VirtualTime \<times> simFrame" where
  "entry p = (deliveryAt p, frame p)"

definition scheduled :: "pendingHeap \<Rightarrow> (VirtualTime \<times> simFrame) multiset" where
  "scheduled h = mset (map entry h)"

lemma length_heapSwap [simp]: "length (heapSwap h i j) = length h"
  by (simp add: heapSwap_def)

lemma due_heapSwap:
  "i < length h \<Longrightarrow> j < length h \<Longrightarrow> k < length h \<Longrightarrow>
   due (heapSwap h i j) k = (if k = j then due h i else if k = i then due h j else due h k)"
  by (auto simp: heapSwap_def nth_list_update)

lemma indexed_heapSwap:
  "i < length h \<Longrightarrow> j < length h \<Longrightarrow> indexed h \<Longrightarrow> indexed (heapSwap h i j)"
  by (auto simp: indexed_def heapSwap_def nth_list_update)

lemma scheduled_heapSwap:
  assumes "i < length h" and "j < length h"
  shows "scheduled (heapSwap h i j) = scheduled h"
proof -
  have "map entry (heapSwap h i j) = (map entry h)[i := map entry h ! j, j := map entry h ! i]"
    using assms by (simp add: heapSwap_def map_update entry_def)
  then have "scheduled (heapSwap h i j) = mset ((map entry h)[i := map entry h ! j, j := map entry h ! i])"
    by (simp only: scheduled_def)
  also have "\<dots> = mset (map entry h)"
    using mset_swap [of j "map entry h" i] assms by (simp only: length_map list_update_swap)
  finally show ?thesis by (simp only: scheduled_def)
qed

lemma length_up [simp]: "length (up h j) = length h"
  by (induction h j rule: up.induct) (subst up.simps, simp add: Let_def)

lemma length_down [simp]: "length (down h i n) = length h"
  by (induction h i n rule: down.induct) (subst down.simps, simp add: Let_def)

text \<open>Sifting permutes the entries and keeps the positions right.\<close>

lemma up_entries:
  assumes "j < length h"
  shows "scheduled (up h j) = scheduled h \<and> (indexed h \<longrightarrow> indexed (up h j))"
  using assms
proof (induction h j rule: up.induct)
  case (1 h j)
  show ?case
  proof (cases "(j - 1) div 2 = j \<or> \<not> heapLess h j ((j - 1) div 2)")
    case True
    then show ?thesis by (subst (1 2) up.simps) (simp add: Let_def)
  next
    case False
    then have eq: "up h j = up (heapSwap h ((j - 1) div 2) j) ((j - 1) div 2)"
      by (subst up.simps) (simp add: Let_def)
    have lt: "(j - 1) div 2 < length h" using 1(2) by simp
    from 1(1) [OF refl False] lt show ?thesis
      using 1(2) lt by (simp add: eq scheduled_heapSwap indexed_heapSwap)
  qed
qed

lemma down_entries:
  assumes "n \<le> length h" and "i < length h"
  shows "scheduled (down h i n) = scheduled h \<and> (indexed h \<longrightarrow> indexed (down h i n)) \<and>
    (\<forall>k\<ge>n. k < length h \<longrightarrow> i < n \<longrightarrow> entry (down h i n ! k) = entry (h ! k))"
  using assms
proof (induction h i n rule: down.induct)
  case (1 h i n)
  define j where "j = (if 2 * i + 1 + 1 < n \<and> heapLess h (2 * i + 1 + 1) (2 * i + 1) then 2 * i + 1 + 1 else 2 * i + 1)"
  show ?case
  proof (cases "2 * i + 1 \<ge> n \<or> \<not> heapLess h j i")
    case True
    then have "down h i n = h" by (subst down.simps) (auto simp: Let_def j_def)
    then show ?thesis by simp
  next
    case False
    then have eq: "down h i n = down (heapSwap h i j) j n"
      by (subst down.simps) (auto simp: Let_def j_def)
    have j: "j < n" "i < n" using False by (auto simp: j_def)
    then have b: "j < length h" "i < length h" using 1(2) by auto
    have far: "heapSwap h i j ! k = h ! k" if "n \<le> k" for k
      using that j by (simp add: heapSwap_def)
    have "scheduled (down (heapSwap h i j) j n) = scheduled (heapSwap h i j) \<and>
      (indexed (heapSwap h i j) \<longrightarrow> indexed (down (heapSwap h i j) j n)) \<and>
      (\<forall>k\<ge>n. k < length (heapSwap h i j) \<longrightarrow> j < n \<longrightarrow>
         entry (down (heapSwap h i j) j n ! k) = entry (heapSwap h i j ! k))"
      using False b 1(2) by (intro 1(1) [OF refl _ j_def]) (auto simp: j_def)
    then show ?thesis using b j by (simp add: eq scheduled_heapSwap indexed_heapSwap far)
  qed
qed

text \<open>The parent of a position.\<close>

lemma parent_iff: "0 < k \<Longrightarrow> (k - 1) div 2 = i \<longleftrightarrow> k = 2 * i + 1 \<or> k = 2 * i + 2" for k i :: nat
  by presburger

lemma parent_less: "0 < k \<Longrightarrow> (k - 1) div 2 < k" for k :: nat
  by presburger

text \<open>Sifting up repairs a heap whose only fault is at the position it starts from.\<close>

lemma up_ordered:
  assumes "j < length h"
    and "\<And>i. 0 < i \<Longrightarrow> i < length h \<Longrightarrow> i \<noteq> j \<Longrightarrow> due h ((i - 1) div 2) \<le> due h i"
    and "\<And>c. 0 < c \<Longrightarrow> c < length h \<Longrightarrow> (c - 1) div 2 = j \<Longrightarrow> 0 < j \<Longrightarrow> due h ((j - 1) div 2) \<le> due h c"
  shows "heapOrdered (up h j) (length h)"
  using assms
proof (induction h j rule: up.induct)
  case (1 h j)
  define p where "p = (j - 1) div 2"
  show ?case
  proof (cases "p = j \<or> \<not> heapLess h j p")
    case True
    then have up: "up h j = h" by (subst up.simps) (simp add: Let_def p_def)
    have "due h ((i - 1) div 2) \<le> due h i" if "0 < i" "i < length h" for i
    proof (cases "i = j")
      case True
      with \<open>p = j \<or> \<not> heapLess h j p\<close> that parent_less [of i] show ?thesis
        by (auto simp: heapLess_def p_def)
    qed (use 1(3) that in simp)
    then show ?thesis by (simp add: up heapOrdered_def)
  next
    case False
    then have j: "0 < j" and less: "due h j < due h p" by (auto simp: p_def heapLess_def)
    have p: "p < j" "p < length h" using parent_less [OF j] 1(2) by (auto simp: p_def)
    note due = due_heapSwap [OF p(2) 1(2)]
    have "heapOrdered (up (heapSwap h p j) p) (length (heapSwap h p j))"
    proof (rule 1(1) [OF p_def])
      show "\<not> (p = j \<or> \<not> heapLess h j p)" using False .
      show "p < length (heapSwap h p j)" using p by simp
    next
      fix i assume i: "0 < i" "i < length (heapSwap h p j)" "i \<noteq> p"
      have q: "(i - 1) div 2 < length h" using i by simp
      consider "i = j" | "i \<noteq> j" "(i - 1) div 2 = j" | "i \<noteq> j" "(i - 1) div 2 = p" |
        "i \<noteq> j" "(i - 1) div 2 \<noteq> j" "(i - 1) div 2 \<noteq> p" by blast
      then show "due (heapSwap h p j) ((i - 1) div 2) \<le> due (heapSwap h p j) i"
      proof cases
        case 1
        then have par: "(i - 1) div 2 = p" by (simp only: p_def)
        show ?thesis unfolding par using 1 less p \<open>j < length h\<close> by (simp add: due)
      next
        case 2
        then have "due h p \<le> due h i" using "1.prems"(3) [of i] i j by (simp add: p_def)
        with 2 i q show ?thesis by (simp add: due)
      next
        case 3
        then have "due h p \<le> due h i" using "1.prems"(2) [of i] i by simp
        with 3 i q p less show ?thesis by (simp add: due)
      next
        case 4
        with i q show ?thesis using "1.prems"(2) [of i] by (simp add: due)
      qed
    next
      fix c assume c: "0 < c" "c < length (heapSwap h p j)" "(c - 1) div 2 = p" "0 < p"
      have q: "(p - 1) div 2 < p" using parent_less [OF c(4)] .
      have "due h ((p - 1) div 2) \<le> due h p" using "1.prems"(2) [of p] c(4) p by simp
      moreover have "due h p \<le> due h c" if "c \<noteq> j" using "1.prems"(2) [of c] c that by simp
      moreover have "c \<noteq> p" using c parent_less [of c] by auto
      ultimately show "due (heapSwap h p j) ((p - 1) div 2) \<le> due (heapSwap h p j) c"
        using q p c by (auto simp: due)
    qed
    moreover have "up h j = up (heapSwap h p j) p" using False by (subst up.simps) (simp add: Let_def p_def)
    ultimately show ?thesis by simp
  qed
qed

text \<open>Sifting down repairs a heap whose only fault is below the position it starts from.\<close>

lemma down_ordered:
  assumes "n \<le> length h" and "i < length h"
    and "\<And>k. 0 < k \<Longrightarrow> k < n \<Longrightarrow> (k - 1) div 2 \<noteq> i \<Longrightarrow> due h ((k - 1) div 2) \<le> due h k"
    and "\<And>c. 0 < c \<Longrightarrow> c < n \<Longrightarrow> (c - 1) div 2 = i \<Longrightarrow> 0 < i \<Longrightarrow> due h ((i - 1) div 2) \<le> due h c"
  shows "heapOrdered (down h i n) n"
  using assms
proof (induction h i n rule: down.induct)
  case (1 h i n)
  define j where "j = (if 2 * i + 1 + 1 < n \<and> heapLess h (2 * i + 1 + 1) (2 * i + 1) then 2 * i + 1 + 1 else 2 * i + 1)"
  have least: "due h j \<le> due h k" if "0 < k" "k < n" "(k - 1) div 2 = i" for k
  proof -
    from that have "k = 2 * i + 1 \<or> k = 2 * i + 2" by (simp only: parent_iff)
    with that show ?thesis by (auto simp: j_def heapLess_def)
  qed
  show ?case
  proof (cases "2 * i + 1 \<ge> n \<or> \<not> heapLess h j i")
    case True
    then have down: "down h i n = h" by (subst down.simps) (auto simp: Let_def j_def)
    have "due h ((k - 1) div 2) \<le> due h k" if k: "0 < k" "k < n" for k
    proof (cases "(k - 1) div 2 = i")
      case par: True
      then have "k = 2 * i + 1 \<or> k = 2 * i + 2" using k(1) by (simp only: parent_iff)
      then have "due h i \<le> due h j" using True k by (auto simp: heapLess_def)
      with least [OF k par] show ?thesis unfolding par by simp
    qed (rule 1(4) [OF k])
    then show ?thesis by (simp add: down heapOrdered_def)
  next
    case False
    then have j: "j < n" "i < j" "0 < j" and less: "due h j < due h i" by (auto simp: j_def heapLess_def)
    have par: "(j - 1) div 2 = i" by (auto simp: j_def)
    have b: "j < length h" using j 1(2) by simp
    note due = due_heapSwap [OF 1(3) b]
    have "heapOrdered (down (heapSwap h i j) j n) n"
    proof (rule 1(1) [OF refl _ j_def])
      show "\<not> n \<le> 2 * i + 1" "\<not> \<not> heapLess h j i" using False by auto
      show "n \<le> length (heapSwap h i j)" "j < length (heapSwap h i j)" using b 1(2) by auto
    next
      fix k assume k: "0 < k" "k < n" "(k - 1) div 2 \<noteq> j"
      have q: "(k - 1) div 2 < k" "k < length h" using parent_less k 1(2) by auto
      consider "k = j" | "k \<noteq> j" "(k - 1) div 2 = i" | "k = i" | "k \<noteq> i" "k \<noteq> j" "(k - 1) div 2 \<noteq> i"
        by blast
      then show "due (heapSwap h i j) ((k - 1) div 2) \<le> due (heapSwap h i j) k"
      proof cases
        case c1: 1
        show ?thesis unfolding c1 par using less b "1.prems"(2) j by (simp add: due)
      next
        case c2: 2
        then have "k \<noteq> i" using q by auto
        with c2 show ?thesis unfolding c2(2) using least [OF k(1,2) c2(2)] q j "1.prems"(2) by (simp add: due)
      next
        case c3: 3
        with k j have "due h ((i - 1) div 2) \<le> due h j" using "1.prems"(4) [OF j(3,1) par] by simp
        moreover have "(i - 1) div 2 < i" using parent_less k c3 by simp
        ultimately show ?thesis using q c3 j "1.prems"(2) by (simp add: due)
      next
        case c4: 4
        with "1.prems"(3) [OF k(1,2) c4(3)] q k show ?thesis by (simp add: due)
      qed
    next
      fix c assume c: "0 < c" "c < n" "(c - 1) div 2 = j" "0 < j"
      have "c \<noteq> j" "c \<noteq> i" using parent_less [OF c(1)] c(3) j by auto
      moreover have "due h j \<le> due h c" using "1.prems"(3) [OF c(1,2)] c(3) j by simp
      ultimately show "due (heapSwap h i j) ((j - 1) div 2) \<le> due (heapSwap h i j) c"
        unfolding par using c "1.prems"(1,2) j by (simp add: due)
    qed
    moreover have "down h i n = down (heapSwap h i j) j n"
      using False by (subst down.simps) (auto simp: Let_def j_def)
    ultimately show ?thesis by simp
  qed
qed

subsection \<open>The contract of the queue\<close>

text \<open>
  A queue of payloads under priorities: pushing adds one, the front is an entry of least priority,
  popping removes it. \<open>content\<close> is the abstract state.
\<close>

locale frame_queue =
  fixes none :: 'q
    and push :: "'q \<Rightarrow> 'p::linorder \<times> 'a \<Rightarrow> 'q"
    and front :: "'q \<Rightarrow> 'p \<times> 'a"
    and pop :: "'q \<Rightarrow> 'q"
    and invar :: "'q \<Rightarrow> bool"
    and content :: "'q \<Rightarrow> ('p \<times> 'a) multiset"
  assumes invar_none: "invar none"
    and content_none: "content none = {#}"
    and invar_push: "invar q \<Longrightarrow> invar (push q x)"
    and content_push: "invar q \<Longrightarrow> content (push q x) = add_mset x (content q)"
    and invar_pop: "invar q \<Longrightarrow> content q \<noteq> {#} \<Longrightarrow> invar (pop q)"
    and content_pop: "invar q \<Longrightarrow> content q \<noteq> {#} \<Longrightarrow> content q = add_mset (front q) (content (pop q))"
    and front_least: "invar q \<Longrightarrow> y \<in># content q \<Longrightarrow> fst (front q) \<le> fst y"
begin

lemma nothing_due:
  assumes "invar q" and "now < fst (front q)"
  shows "filter_mset (\<lambda>x. fst x \<le> now) (content q) = {#}"
proof -
  have "\<not> fst y \<le> now" if "y \<in># content q" for y
    using front_least [OF assms(1) that] assms(2) by auto
  then show ?thesis by (simp add: filter_mset_eq_conv)
qed

lemma pop_due:
  assumes "invar q" and "content q \<noteq> {#}" and "fst (front q) \<le> now"
  shows "filter_mset (\<lambda>x. fst x \<le> now) (content q) =
      add_mset (front q) (filter_mset (\<lambda>x. fst x \<le> now) (content (pop q)))"
    and "filter_mset (\<lambda>x. now < fst x) (content q) = filter_mset (\<lambda>x. now < fst x) (content (pop q))"
  using content_pop [OF assms(1,2)] assms(3) by (metis filter_mset_add_mset, metis filter_mset_add_mset leD)

lemma pop_order: "invar q \<Longrightarrow> content q \<noteq> {#} \<Longrightarrow> y \<in># content (pop q) \<Longrightarrow> fst (front q) \<le> fst y"
  using content_pop front_least by (metis union_iff add_mset_add_single)

lemma content_pushes:
  "invar q \<Longrightarrow> invar (foldl push q xs) \<and> content (foldl push q xs) = mset xs + content q"
  by (induction xs arbitrary: q) (auto simp: invar_push content_push)

end

subsection \<open>The heap implements the contract\<close>

lemma wf_heapPush:
  assumes "wf_heap h"
  shows "wf_heap (heapPush h pf) \<and> scheduled (heapPush h pf) = add_mset (entry pf) (scheduled h)"
proof -
  let ?h = "heapAppend h pf"
  have len: "length ?h - 1 = length h" "length h < length ?h" by (auto simp: heapAppend_def)
  have due: "due ?h i = due h i" if "i < length h" for i
    using that by (simp add: heapAppend_def nth_append)
  have idx: "indexed ?h" using assms by (auto simp: wf_heap_def indexed_def heapAppend_def nth_append less_Suc_eq)
  have "heapOrdered (up ?h (length h)) (length ?h)"
  proof (rule up_ordered)
    fix i assume i: "0 < i" "i < length ?h" "i \<noteq> length h"
    then have "i < length h" "(i - 1) div 2 < length h" by (auto simp: heapAppend_def)
    with assms i(1) show "due ?h ((i - 1) div 2) \<le> due ?h i"
      by (simp add: due wf_heap_def heapOrdered_def)
  next
    fix c assume "0 < c" "c < length ?h" "(c - 1) div 2 = length h"
    with parent_less [of c] show "due ?h ((length h - 1) div 2) \<le> due ?h c"
      by (simp add: heapAppend_def)
  qed (rule len(2))
  moreover have "scheduled ?h = add_mset (entry pf) (scheduled h)"
    by (simp add: heapAppend_def scheduled_def entry_def)
  ultimately show ?thesis
    using up_entries [OF len(2)] idx unfolding heapPush_def Let_def len(1) wf_heap_def by simp
qed

lemma root_least:
  assumes "heapOrdered h n" and "i < n"
  shows "due h 0 \<le> due h i"
  using assms(2)
proof (induction i rule: less_induct)
  case (less i)
  show ?case
  proof (cases "i = 0")
    case False
    then have "(i - 1) div 2 < i" "due h ((i - 1) div 2) \<le> due h i"
      using parent_less assms(1) less(2) by (auto simp: heapOrdered_def)
    with less show ?thesis by (meson order_trans less_trans)
  qed simp
qed

lemma wf_heapPop:
  assumes "wf_heap h" and "h \<noteq> []"
  shows "wf_heap (snd (heapPop h)) \<and> scheduled h = add_mset (entry (h ! 0)) (scheduled (snd (heapPop h))) \<and>
    entry (fst (heapPop h)) = entry (h ! 0) \<and> length (snd (heapPop h)) = length h - 1"
proof -
  obtain n where len: "length h = Suc n" using assms(2) by (cases h) auto
  let ?s = "heapSwap h 0 n"
  let ?d = "down ?s 0 n"
  have n: "n < length h" "0 < length h" using len by auto
  have ord: "heapOrdered h (length h)" and idx: "indexed h" using assms(1) by (auto simp: wf_heap_def)
  have "heapOrdered ?d n"
  proof (rule down_ordered)
    fix k assume k: "0 < k" "k < n" "(k - 1) div 2 \<noteq> 0"
    then have "due h ((k - 1) div 2) \<le> due h k" using ord len by (simp add: heapOrdered_def)
    moreover have "(k - 1) div 2 < k" using parent_less k by simp
    ultimately show "due ?s ((k - 1) div 2) \<le> due ?s k"
      using k n by (simp add: due_heapSwap [OF n(2,1)])
  qed (use n in auto)
  note parts = down_entries [of n ?s 0]
  have d: "scheduled ?d = scheduled h" "indexed ?d" "length ?d = length h"
    using parts n scheduled_heapSwap [OF n(2,1)] indexed_heapSwap [OF n(2,1) idx] by auto
  have "entry (?d ! n) = entry (h ! 0)"
  proof (cases "n = 0")
    case True
    then have "?d = ?s" by (subst down.simps) simp
    with True show ?thesis using n by (simp add: heapSwap_def entry_def)
  next
    case False
    then have "entry (?d ! n) = entry (?s ! n)" using parts n by simp
    then show ?thesis using n by (simp add: heapSwap_def entry_def)
  qed
  moreover have ne: "?d \<noteq> []" using d(3) len by (metis list.size(3) nat.distinct(1))
  ultimately have last: "entry (last ?d) = entry (h ! 0)" using d(3) len by (simp add: last_conv_nth)
  have "scheduled h = add_mset (entry (last ?d)) (scheduled (butlast ?d))"
    using d(1) ne by (metis add_mset_add_single append_butlast_last_id list.simps(9) map_append mset.simps(1)
        mset.simps(2) mset_append scheduled_def list.map(1))
  moreover have "wf_heap (butlast ?d)"
    using \<open>heapOrdered ?d n\<close> d(2,3) len
    by (auto simp: wf_heap_def heapOrdered_def indexed_def nth_butlast)
  ultimately show ?thesis using last d(3) len by (simp add: heapPop_def Let_def heapChop_def entry_def)
qed

definition newPending :: "VirtualTime \<Rightarrow> simFrame \<Rightarrow> pendingFrame" where
  "newPending t f = \<lparr>deliveryAt = t, frame = f, index = 0\<rparr>"

interpretation pq: frame_queue "[]" "\<lambda>h (t, f). heapPush h (newPending t f)" "\<lambda>h. entry (h ! 0)"
  "\<lambda>h. snd (heapPop h)" wf_heap scheduled
proof unfold_locales
  fix h x assume "wf_heap h"
  then show "wf_heap (case x of (t, f) \<Rightarrow> heapPush h (newPending t f))"
    and "scheduled (case x of (t, f) \<Rightarrow> heapPush h (newPending t f)) = add_mset x (scheduled h)"
    using wf_heapPush by (auto simp: newPending_def entry_def split: prod.split)
next
  fix h assume h: "wf_heap h" "scheduled h \<noteq> {#}"
  then have "h \<noteq> []" by (auto simp: scheduled_def)
  from wf_heapPop [OF h(1) this] show "wf_heap (snd (heapPop h))"
    and "scheduled h = add_mset (entry (h ! 0)) (scheduled (snd (heapPop h)))" by auto
next
  fix h y assume "wf_heap h" "y \<in># scheduled h"
  then show "fst (entry (h ! 0)) \<le> fst y"
    using root_least [of h "length h"] by (auto simp: scheduled_def wf_heap_def entry_def in_set_conv_nth)
qed (auto simp: wf_heap_def heapOrdered_def indexed_def scheduled_def)

end
