(* ===== verification/Mesh.thy ===== *)
theory Mesh
  imports Complex_Main Pending_Heap Swarm_Types
begin

text \<open>
  The deterministic network simulator, \<open>src/sim/sim.go\<close>: nodes joined by directed edges with
  latency, jitter and loss, a virtual clock, and frames in flight on the heap of \<open>Pending_Heap\<close>.

  The \<open>Node\<close> interface is the record \<open>nodeOps\<close> of a node type's methods; what a client may rely on
  is the locale \<open>sim_node\<close>. The seeded generator \<open>math/rand\<close> is the record \<open>rngOps\<close>: a state and
  the draws \<open>Float64\<close> (an exact fraction) and \<open>Intn\<close>. \<open>BandwidthBps\<close> is stored and never read.
\<close>

record Edge =
  eFrom :: simID
  eTo :: simID
  LatencyMs :: int
  JitterMs :: int
  LossPct :: rat
  BandwidthBps :: u64

record 'n nodeOps =
  opID :: "'n \<Rightarrow> simID"
  opStep :: "VirtualTime \<Rightarrow> 'n \<Rightarrow> 'n \<times> simFrame list \<times> gostring option"
  opReceive :: "VirtualTime \<Rightarrow> 'n \<Rightarrow> simFrame \<Rightarrow> 'n \<times> gostring option"

record 'g rngOps =
  rFloat64 :: "'g \<Rightarrow> rat \<times> 'g"
  rIntn :: "'g \<Rightarrow> int \<Rightarrow> int \<times> 'g"

record ('n, 'g) Mesh =
  meshNodes :: "(simID, 'n) gomap"
  edges :: "(simID, (simID, Edge) gomap) gomap"
  pendingFrames :: pendingHeap
  meshNow :: VirtualTime
  rng :: 'g

datatype simError = StepError simID gostring | RecvError simID simID gostring

record StepSummary =
  sumNow :: VirtualTime
  FramesSent :: nat
  FramesDelivered :: nat
  FramesInFlight :: nat
  Errors :: "simError list"

subsection \<open>Building a mesh\<close>

definition NewMesh :: "'g \<Rightarrow> ('n, 'g) Mesh" where
  "NewMesh seed = \<lparr>meshNodes = [], edges = [], pendingFrames = [], meshNow = 0, rng = seed\<rparr>"

definition AddNode :: "'n nodeOps \<Rightarrow> ('n, 'g) Mesh \<Rightarrow> 'n \<Rightarrow> ('n, 'g) Mesh" where
  "AddNode ops m n = m\<lparr>meshNodes := AList.update (opID ops n) n (meshNodes m)\<rparr>"

definition edgesFrom :: "('n, 'g) Mesh \<Rightarrow> simID \<Rightarrow> (simID, Edge) gomap" where
  "edgesFrom m a = (case map_of (edges m) a of None \<Rightarrow> [] | Some es \<Rightarrow> es)"

definition AddEdge :: "('n, 'g) Mesh \<Rightarrow> Edge \<Rightarrow> ('n, 'g) Mesh" where
  "AddEdge m e =
     m\<lparr>edges := AList.update (eFrom e) (AList.update (eTo e) e (edgesFrom m (eFrom e))) (edges m)\<rparr>"

definition NodeIDs :: "('n, 'g) Mesh \<Rightarrow> simID list" where
  "NodeIDs m = sort_slice (<) (map fst (meshNodes m))"

definition FullMesh :: "('n, 'g) Mesh \<Rightarrow> int \<Rightarrow> int \<Rightarrow> rat \<Rightarrow> ('n, 'g) Mesh" where
  "FullMesh m latencyMs jitterMs lossPct =
     (let ids = NodeIDs m
      in foldl (\<lambda>m a. foldl (\<lambda>m b.
           if a = b then m
           else AddEdge m \<lparr>eFrom = a, eTo = b, LatencyMs = latencyMs, JitterMs = jitterMs,
                  LossPct = lossPct, BandwidthBps = 0\<rparr>) m ids) m ids)"

subsection \<open>Stepping\<close>

definition edgeDelay :: "'g rngOps \<Rightarrow> 'g \<Rightarrow> Edge \<Rightarrow> VirtualTime \<times> 'g" where
  "edgeDelay R g e =
     (let (delay, g1) = (if JitterMs e > 0
                         then (let (x, g1) = rIntn R g (2 * JitterMs e + 1)
                               in (LatencyMs e + (x - JitterMs e), g1))
                         else (LatencyMs e, g))
      in (if delay < 1 then 1 else delay, g1))"

definition meshSend :: "'g rngOps \<Rightarrow> VirtualTime \<Rightarrow> ('n, 'g) Mesh \<Rightarrow> simFrame \<Rightarrow> ('n, 'g) Mesh" where
  "meshSend R now m f =
     (case map_of (edgesFrom m (fFrom f)) (fTo f) of
        None \<Rightarrow> m
      | Some e \<Rightarrow>
          let (lost, g1) = (if LossPct e > 0
                            then (let (x, g1) = rFloat64 R (rng m) in (x < LossPct e, g1))
                            else (False, rng m))
          in if lost then m\<lparr>rng := g1\<rparr>
             else
               let (delay, g2) = edgeDelay R g1 e
               in m\<lparr>rng := g2, pendingFrames := heapPush (pendingFrames m) (newPending (now + delay) f)\<rparr>)"

text \<open>One node of the first loop of \<open>Step\<close>.\<close>

definition stepNode ::
  "'n nodeOps \<Rightarrow> 'g rngOps \<Rightarrow> VirtualTime \<Rightarrow> ('n, 'g) Mesh \<times> StepSummary \<Rightarrow> simID \<Rightarrow>
    ('n, 'g) Mesh \<times> StepSummary" where
  "stepNode ops R now ms i =
     (let (m, s) = ms
      in case map_of (meshNodes m) i of
           None \<Rightarrow> (m, s)
         | Some n \<Rightarrow>
             let (n', out, err) = opStep ops now n
             in (foldl (meshSend R now) (m\<lparr>meshNodes := AList.update i n' (meshNodes m)\<rparr>) out,
                 s\<lparr>FramesSent := FramesSent s + length out,
                   Errors := Errors s @ (case err of None \<Rightarrow> [] | Some x \<Rightarrow> [StepError i x])\<rparr>))"

lemma length_heapPop: "length (snd (heapPop h)) = length h - 1"
  by (simp add: heapPop_def Let_def heapChop_def)

text \<open>The delivery loop.\<close>

function deliverDue ::
  "'n nodeOps \<Rightarrow> VirtualTime \<Rightarrow> ('n, 'g) Mesh \<Rightarrow> StepSummary \<Rightarrow> ('n, 'g) Mesh \<times> StepSummary" where
  "deliverDue ops now m s =
     (case pendingFrames m of
        [] \<Rightarrow> (m, s)
      | p # _ \<Rightarrow>
          if deliveryAt p > now then (m, s)
          else
            let m1 = m\<lparr>pendingFrames := snd (heapPop (pendingFrames m))\<rparr>;
                f = frame p
            in case map_of (meshNodes m1) (fTo f) of
                 None \<Rightarrow> deliverDue ops now m1 s
               | Some n \<Rightarrow>
                   let (n', err) = opReceive ops now n f
                   in deliverDue ops now (m1\<lparr>meshNodes := AList.update (fTo f) n' (meshNodes m1)\<rparr>)
                        (s\<lparr>FramesDelivered := FramesDelivered s + 1,
                           Errors := Errors s @
                             (case err of None \<Rightarrow> [] | Some x \<Rightarrow> [RecvError (fTo f) (fFrom f) x])\<rparr>))"
  by auto
termination
  by (relation "measure (\<lambda>(ops, now, m, s). length (pendingFrames m))") (auto simp: length_heapPop)

declare deliverDue.simps [simp del]

definition meshStep :: "'n nodeOps \<Rightarrow> 'g rngOps \<Rightarrow> ('n, 'g) Mesh \<Rightarrow> ('n, 'g) Mesh \<times> StepSummary" where
  "meshStep ops R m =
     (let now = meshNow m + 1;
          s0 = \<lparr>sumNow = now, FramesSent = 0, FramesDelivered = 0, FramesInFlight = 0, Errors = []\<rparr>;
          (m1, s1) = foldl (stepNode ops R now) (m\<lparr>meshNow := now\<rparr>, s0) (NodeIDs m);
          (m2, s2) = deliverDue ops now m1 s1
      in (m2, s2\<lparr>FramesInFlight := length (pendingFrames m2)\<rparr>))"

text \<open>\<open>Run\<close>: the mesh, the steps made, and whether \<open>maxSteps\<close> was reached.\<close>

primrec runLoop ::
  "'n nodeOps \<Rightarrow> 'g rngOps \<Rightarrow> (('n, 'g) Mesh \<Rightarrow> bool) \<Rightarrow> nat \<Rightarrow> nat \<Rightarrow> ('n, 'g) Mesh \<Rightarrow>
    ('n, 'g) Mesh \<times> nat \<times> bool" where
  "runLoop ops R pred 0 i m = (m, i, False)"
| "runLoop ops R pred (Suc k) i m =
     (if pred m then (m, i, True) else runLoop ops R pred k (i + 1) (fst (meshStep ops R m)))"

definition Run ::
  "'n nodeOps \<Rightarrow> 'g rngOps \<Rightarrow> ('n, 'g) Mesh \<Rightarrow> nat \<Rightarrow> (('n, 'g) Mesh \<Rightarrow> bool) \<Rightarrow>
    ('n, 'g) Mesh \<times> nat \<times> bool" where
  "Run ops R m maxSteps pred = runLoop ops R pred maxSteps 0 m"

subsection \<open>What a step does\<close>

abbreviation inFlight :: "('n, 'g) Mesh \<Rightarrow> (VirtualTime \<times> simFrame) multiset" where
  "inFlight m \<equiv> scheduled (pendingFrames m)"

definition wf_mesh :: "('n, 'g) Mesh \<Rightarrow> bool" where
  "wf_mesh m \<longleftrightarrow> wf_heap (pendingFrames m) \<and> (\<forall>x\<in>#inFlight m. meshNow m < fst x)"

definition receiveAt :: "'n nodeOps \<Rightarrow> VirtualTime \<Rightarrow> (simID, 'n) gomap \<Rightarrow> simFrame \<Rightarrow> (simID, 'n) gomap" where
  "receiveAt ops now ns f =
     (case map_of ns (fTo f) of
        None \<Rightarrow> ns | Some n \<Rightarrow> AList.update (fTo f) (fst (opReceive ops now n f)) ns)"

lemma wf_NewMesh: "wf_mesh (NewMesh g)"
  by (simp add: wf_mesh_def NewMesh_def pq.invar_none pq.content_none)

text \<open>What \<open>math/rand\<close> documents of \<open>Intn\<close>, and the longest delay an edge can give a frame.\<close>

definition rng_ok :: "'g rngOps \<Rightarrow> bool" where
  "rng_ok R \<longleftrightarrow> (\<forall>g n. 0 < n \<longrightarrow> 0 \<le> fst (rIntn R g n) \<and> fst (rIntn R g n) < n)"

definition slowest :: "Edge \<Rightarrow> VirtualTime" where
  "slowest e = max 1 (LatencyMs e + max 0 (JitterMs e))"

definition edgeOf :: "(simID, (simID, Edge) gomap) gomap \<Rightarrow> simFrame \<Rightarrow> Edge option" where
  "edgeOf es f = (case map_of es (fFrom f) of None \<Rightarrow> None | Some m \<Rightarrow> map_of m (fTo f))"

lemma edgeOf_edges: "map_of (edgesFrom m (fFrom f)) (fTo f) = edgeOf (edges m) f"
  by (simp add: edgesFrom_def edgeOf_def split: option.split)

lemma edgeDelay_pos: "1 \<le> fst (edgeDelay R g e)"
  by (simp add: edgeDelay_def split: prod.split)

lemma edgeDelay_slowest: "rng_ok R \<Longrightarrow> fst (edgeDelay R g e) \<le> slowest e"
proof -
  assume "rng_ok R"
  then have "JitterMs e > 0 \<Longrightarrow> fst (rIntn R g (2 * JitterMs e + 1)) < 2 * JitterMs e + 1"
    unfolding rng_ok_def by (metis add_pos_pos mult_pos_pos zero_less_numeral zero_less_one)
  then show ?thesis by (cases "rIntn R g (2 * JitterMs e + 1)") (auto simp: edgeDelay_def slowest_def max_def)
qed

text \<open>Sending leaves everything but the generator and the queue, which gains at most the frame.\<close>

lemma meshSend_fields [simp]:
  "meshNodes (meshSend R now m f) = meshNodes m" "edges (meshSend R now m f) = edges m"
  "meshNow (meshSend R now m f) = meshNow m"
  by (auto simp: meshSend_def Let_def split: option.split prod.split)

text \<open>
  The frames that sending \<open>fs\<close> at a time puts into flight: only those, only later, and each one
  whose edge loses nothing, no later than the edge's longest delay.
\<close>

definition newFrames ::
  "'g rngOps \<Rightarrow> (simID, (simID, Edge) gomap) gomap \<Rightarrow> VirtualTime \<Rightarrow> simFrame set \<Rightarrow>
    (VirtualTime \<times> simFrame) multiset \<Rightarrow> bool" where
  "newFrames R es now fs xs \<longleftrightarrow> (\<forall>x\<in>#xs. now < fst x \<and> snd x \<in> fs) \<and>
     (rng_ok R \<longrightarrow> (\<forall>f\<in>fs. \<forall>e. edgeOf es f = Some e \<longrightarrow> LossPct e \<le> 0 \<longrightarrow>
        (\<exists>t. t \<le> now + slowest e \<and> (t, f) \<in># xs)))"

lemma newFrames_empty: "newFrames R es now {} {#}"
  by (simp add: newFrames_def)

lemma newFrames_union:
  "newFrames R es now fs xs \<Longrightarrow> newFrames R es now gs ys \<Longrightarrow> newFrames R es now (fs \<union> gs) (xs + ys)"
  unfolding newFrames_def by (metis Un_iff union_iff)

lemma meshSend_push:
  "pendingFrames (meshSend R now m f) = pendingFrames m \<and> newFrames R (edges m) now {f} {#} \<or>
   (\<exists>d. pendingFrames (meshSend R now m f) = heapPush (pendingFrames m) (newPending (now + d) f) \<and>
      newFrames R (edges m) now {f} {#(now + d, f)#})"
proof (cases "map_of (edgesFrom m (fFrom f)) (fTo f)")
  case None
  then show ?thesis by (simp add: meshSend_def newFrames_def flip: edgeOf_edges)
next
  case (Some e)
  obtain lost g1 where L: "(if LossPct e > 0 then (let (x, g1) = rFloat64 R (rng m) in (x < LossPct e, g1))
      else (False, rng m)) = (lost, g1)" by fastforce
  obtain d g2 where D: "edgeDelay R g1 e = (d, g2)" by fastforce
  have "1 \<le> d" "rng_ok R \<Longrightarrow> d \<le> slowest e"
    using edgeDelay_pos [of R g1 e] edgeDelay_slowest [of R g1 e] D by simp_all
  moreover have "LossPct e \<le> 0 \<Longrightarrow> \<not> lost" using L by simp
  ultimately show ?thesis
    by (auto simp: meshSend_def Some L D newFrames_def simp flip: edgeOf_edges)
qed

lemma meshSend_queue:
  assumes "wf_heap (pendingFrames m)"
  shows "wf_heap (pendingFrames (meshSend R now m f)) \<and>
    (\<exists>xs. inFlight (meshSend R now m f) = xs + inFlight m \<and> newFrames R (edges m) now {f} xs)"
proof -
  have push: "wf_heap (heapPush (pendingFrames m) (newPending (now + d) f))"
    "scheduled (heapPush (pendingFrames m) (newPending (now + d) f)) = {#(now + d, f)#} + inFlight m" for d
    using pq.invar_push [OF assms, of "(now + d, f)"] pq.content_push [OF assms, of "(now + d, f)"] by auto
  have "inFlight m = {#} + inFlight m" by simp
  with meshSend_push [of R now m f] show ?thesis
    using assms push by metis
qed

lemma meshSends:
  assumes "wf_heap (pendingFrames m)"
  shows "\<exists>xs. wf_heap (pendingFrames (foldl (meshSend R now) m out)) \<and>
    inFlight (foldl (meshSend R now) m out) = xs + inFlight m \<and> newFrames R (edges m) now (set out) xs \<and>
    meshNodes (foldl (meshSend R now) m out) = meshNodes m \<and>
    edges (foldl (meshSend R now) m out) = edges m \<and> meshNow (foldl (meshSend R now) m out) = meshNow m"
  using assms
proof (induction out arbitrary: m)
  case Nil
  then show ?case by (intro exI [of _ "{#}"]) (simp add: newFrames_empty)
next
  case (Cons f out)
  let ?m = "meshSend R now m f"
  from meshSend_queue [OF Cons.prems, of R now f]
  obtain ys where ys: "wf_heap (pendingFrames ?m)" "inFlight ?m = ys + inFlight m"
    "newFrames R (edges m) now {f} ys" by blast
  from Cons.IH [OF ys(1)] obtain xs where xs:
    "wf_heap (pendingFrames (foldl (meshSend R now) ?m out))"
    "inFlight (foldl (meshSend R now) ?m out) = xs + inFlight ?m" "newFrames R (edges m) now (set out) xs"
    "meshNodes (foldl (meshSend R now) ?m out) = meshNodes ?m"
    "edges (foldl (meshSend R now) ?m out) = edges ?m"
    "meshNow (foldl (meshSend R now) ?m out) = meshNow ?m" by auto
  have "newFrames R (edges m) now (set (f # out)) (ys + xs)"
    using newFrames_union [OF ys(3) xs(3)] by simp
  with ys xs show ?case by (intro exI [of _ "ys + xs"]) (simp add: ac_simps)
qed

text \<open>The first loop: every node is stepped once, and what it sent is put into flight.\<close>

definition outputs :: "'n nodeOps \<Rightarrow> VirtualTime \<Rightarrow> (simID, 'n) gomap \<Rightarrow> simID set \<Rightarrow> simFrame set" where
  "outputs ops now ns ids =
     {f. \<exists>i\<in>ids. \<exists>n. map_of ns i = Some n \<and> f \<in> set (fst (snd (opStep ops now n)))}"

definition steppedNode :: "'n nodeOps \<Rightarrow> VirtualTime \<Rightarrow> 'n \<Rightarrow> 'n" where
  "steppedNode ops now n = fst (opStep ops now n)"

lemma stepNode_effect:
  assumes "wf_heap (pendingFrames m)"
  shows "\<exists>m' s' xs. stepNode ops R now (m, s) i = (m', s') \<and> wf_heap (pendingFrames m') \<and>
    inFlight m' = xs + inFlight m \<and> newFrames R (edges m) now (outputs ops now (meshNodes m) {i}) xs \<and>
    (\<forall>j. map_of (meshNodes m') j = (if j = i then map_option (steppedNode ops now) (map_of (meshNodes m) i)
      else map_of (meshNodes m) j)) \<and>
    map fst (meshNodes m') = map fst (meshNodes m) \<and>
    edges m' = edges m \<and> meshNow m' = meshNow m \<and> FramesDelivered s' = FramesDelivered s"
proof (cases "map_of (meshNodes m) i")
  case None
  then have "outputs ops now (meshNodes m) {i} = {}" by (simp add: outputs_def)
  then show ?thesis
    using assms None by (intro exI [of _ m] exI [of _ s] exI [of _ "{#}"]) (simp add: stepNode_def newFrames_empty)
next
  case (Some n)
  obtain n' out err where st: "opStep ops now n = (n', out, err)" by (cases "opStep ops now n") auto
  let ?m = "m\<lparr>meshNodes := AList.update i n' (meshNodes m)\<rparr>"
  have "wf_heap (pendingFrames ?m)" using assms by simp
  from meshSends [OF this, of R now out] obtain xs where xs:
    "wf_heap (pendingFrames (foldl (meshSend R now) ?m out))"
    "inFlight (foldl (meshSend R now) ?m out) = xs + inFlight m" "newFrames R (edges m) now (set out) xs"
    "meshNodes (foldl (meshSend R now) ?m out) = AList.update i n' (meshNodes m)"
    "edges (foldl (meshSend R now) ?m out) = edges m"
    "meshNow (foldl (meshSend R now) ?m out) = meshNow m" by auto
  have "map fst (AList.update i n' (meshNodes m)) = map fst (meshNodes m)"
    using Some by (rule keys_update_present)
  moreover have "set out = outputs ops now (meshNodes m) {i}" using Some st by (simp add: outputs_def)
  then have "newFrames R (edges m) now (outputs ops now (meshNodes m) {i}) xs" using xs(3) by simp
  ultimately show ?thesis
    using xs Some st by (auto simp: stepNode_def update_conv' steppedNode_def)
qed

lemma stepNodes_effect:
  assumes "wf_heap (pendingFrames m)" and "distinct ids"
  shows "\<exists>m' s' xs. foldl (stepNode ops R now) (m, s) ids = (m', s') \<and> wf_heap (pendingFrames m') \<and>
    inFlight m' = xs + inFlight m \<and> newFrames R (edges m) now (outputs ops now (meshNodes m) (set ids)) xs \<and>
    (\<forall>j. map_of (meshNodes m') j = (if j \<in> set ids then map_option (steppedNode ops now) (map_of (meshNodes m) j)
      else map_of (meshNodes m) j)) \<and>
    map fst (meshNodes m') = map fst (meshNodes m) \<and>
    edges m' = edges m \<and> meshNow m' = meshNow m \<and> FramesDelivered s' = FramesDelivered s"
  using assms
proof (induction ids arbitrary: m s)
  case Nil
  have "outputs ops now (meshNodes m) (set []) = {}" by (simp add: outputs_def)
  with Nil show ?case by (intro exI [of _ m] exI [of _ s] exI [of _ "{#}"]) (simp add: newFrames_empty)
next
  case (Cons i ids)
  from stepNode_effect [OF Cons.prems(1), of ops R now s i]
  obtain m1 s1 ys where 1: "stepNode ops R now (m, s) i = (m1, s1)" "wf_heap (pendingFrames m1)"
    "inFlight m1 = ys + inFlight m" "newFrames R (edges m) now (outputs ops now (meshNodes m) {i}) ys"
    "(\<forall>j. map_of (meshNodes m1) j = (if j = i then map_option (steppedNode ops now) (map_of (meshNodes m) i)
      else map_of (meshNodes m) j))"
    "map fst (meshNodes m1) = map fst (meshNodes m)"
    "edges m1 = edges m" "meshNow m1 = meshNow m" "FramesDelivered s1 = FramesDelivered s" by blast
  from Cons.IH [OF 1(2), of s1] Cons.prems(2)
  obtain m2 s2 xs where 2: "foldl (stepNode ops R now) (m1, s1) ids = (m2, s2)" "wf_heap (pendingFrames m2)"
    "inFlight m2 = xs + inFlight m1" "newFrames R (edges m1) now (outputs ops now (meshNodes m1) (set ids)) xs"
    "(\<forall>j. map_of (meshNodes m2) j = (if j \<in> set ids then map_option (steppedNode ops now) (map_of (meshNodes m1) j)
      else map_of (meshNodes m1) j))"
    "map fst (meshNodes m2) = map fst (meshNodes m1)"
    "edges m2 = edges m1" "meshNow m2 = meshNow m1" "FramesDelivered s2 = FramesDelivered s1" by auto
  have "outputs ops now (meshNodes m) (set (i # ids)) =
      outputs ops now (meshNodes m) {i} \<union> outputs ops now (meshNodes m1) (set ids)"
    using Cons.prems(2) by (auto simp: outputs_def 1(5) split: if_splits)
  then have "newFrames R (edges m) now (outputs ops now (meshNodes m) (set (i # ids))) (ys + xs)"
    using newFrames_union [OF 1(4)] 2(4) 1(7) by simp
  moreover have "(\<forall>j. map_of (meshNodes m2) j = (if j \<in> set (i # ids)
      then map_option (steppedNode ops now) (map_of (meshNodes m) j) else map_of (meshNodes m) j))"
    using Cons.prems(2) by (auto simp: 1(5) 2(5) intro!: ext)
  ultimately show ?case
    using 1 2 by (intro exI [of _ m2] exI [of _ s2] exI [of _ "ys + xs"]) (simp add: ac_simps)
qed

text \<open>The second loop: the due frames are received, in order of their times, and only those.\<close>

definition deliversDue ::
  "'n nodeOps \<Rightarrow> VirtualTime \<Rightarrow> ('n, 'g) Mesh \<Rightarrow> ('n, 'g) Mesh \<Rightarrow> (VirtualTime \<times> simFrame) list \<Rightarrow> bool" where
  "deliversDue ops now m m' ds \<longleftrightarrow> wf_heap (pendingFrames m') \<and>
     sorted (map fst ds) \<and> mset ds = filter_mset (\<lambda>x. fst x \<le> now) (inFlight m) \<and>
     inFlight m' = filter_mset (\<lambda>x. now < fst x) (inFlight m) \<and>
     meshNodes m' = foldl (receiveAt ops now) (meshNodes m) (map snd ds) \<and>
     edges m' = edges m \<and> meshNow m' = meshNow m \<and> rng m' = rng m"

definition received :: "'n nodeOps \<Rightarrow> VirtualTime \<Rightarrow> ('n, 'g) Mesh \<Rightarrow> simFrame \<Rightarrow> ('n, 'g) Mesh" where
  "received ops now m f =
     m\<lparr>pendingFrames := snd (heapPop (pendingFrames m)), meshNodes := receiveAt ops now (meshNodes m) f\<rparr>"

lemma deliverDue_go:
  assumes "pendingFrames m = p # ps" and "\<not> now < deliveryAt p"
  shows "\<exists>s'. deliverDue ops now m s = deliverDue ops now (received ops now m (frame p)) s'"
proof (cases "map_of (meshNodes m) (fTo (frame p))")
  case None
  then have "received ops now m (frame p) = m\<lparr>pendingFrames := snd (heapPop (pendingFrames m))\<rparr>"
    by (simp add: received_def receiveAt_def)
  with None show ?thesis using assms by (subst deliverDue.simps) auto
next
  case (Some n)
  obtain n' err where r: "opReceive ops now n (frame p) = (n', err)" by fastforce
  with Some have "received ops now m (frame p) = m\<lparr>pendingFrames := snd (heapPop (pendingFrames m)),
      meshNodes := AList.update (fTo (frame p)) n' (meshNodes m)\<rparr>"
    by (simp add: received_def receiveAt_def)
  with Some r show ?thesis using assms by (subst deliverDue.simps) (auto simp: Let_def)
qed

lemma deliversDue_front:
  assumes wf: "wf_heap (pendingFrames m)" and m: "pendingFrames m = p # ps" and "\<not> now < deliveryAt p"
    and rest: "deliversDue ops now (received ops now m (frame p)) m' ds"
  shows "deliversDue ops now m m' (entry p # ds)"
proof -
  have front: "entry (pendingFrames m ! 0) = entry p" using m by simp
  have ne: "inFlight m \<noteq> {#}" using m by (simp add: scheduled_def)
  have due: "fst (entry (pendingFrames m ! 0)) \<le> now"
    unfolding front using assms(3) by (simp add: entry_def)
  have q: "pendingFrames (received ops now m (frame p)) = snd (heapPop (pendingFrames m))"
    by (simp add: received_def)
  note r = rest [unfolded deliversDue_def q]
  have "fst (entry p) \<le> fst d" if "d \<in> set ds" for d
  proof -
    have "d \<in># mset ds" using that by simp
    then have "d \<in># scheduled (snd (heapPop (pendingFrames m)))" using r by simp
    from pq.pop_order [OF wf ne this] show ?thesis unfolding front .
  qed
  then have "sorted (map fst (entry p # ds))" using r by auto
  moreover have "mset (entry p # ds) = filter_mset (\<lambda>x. fst x \<le> now) (inFlight m)"
    using pq.pop_due(1) [OF wf ne due] r unfolding front by simp
  moreover have "inFlight m' = filter_mset (\<lambda>x. now < fst x) (inFlight m)"
    using pq.pop_due(2) [OF wf ne due] r by simp
  moreover have "meshNodes m' = foldl (receiveAt ops now) (meshNodes m) (map snd (entry p # ds))"
    using r by (simp add: received_def entry_def)
  ultimately show ?thesis using r by (simp add: deliversDue_def received_def)
qed

lemma deliversDue_none:
  assumes wf: "wf_heap (pendingFrames m)" and "case pendingFrames m of [] \<Rightarrow> True | p # _ \<Rightarrow> now < deliveryAt p"
  shows "deliversDue ops now m m []"
proof -
  have "now < fst x" if "x \<in># inFlight m" for x
    using pq.front_least [OF wf that] assms(2) that
    by (auto simp: entry_def scheduled_def split: list.splits)
  then have "filter_mset (\<lambda>x. now < fst x) (inFlight m) = inFlight m"
    and "filter_mset (\<lambda>x. fst x \<le> now) (inFlight m) = {#}"
    by (simp_all add: filter_mset_eq_conv not_le)
  then show ?thesis using wf by (simp add: deliversDue_def)
qed

lemma deliverDue_effect:
  assumes "wf_heap (pendingFrames m)"
  shows "\<exists>ds. deliversDue ops now m (fst (deliverDue ops now m s)) ds"
  using assms
proof (induction "length (pendingFrames m)" arbitrary: m s rule: less_induct)
  case less
  show ?case
  proof (cases "case pendingFrames m of [] \<Rightarrow> True | p # _ \<Rightarrow> now < deliveryAt p")
    case True
    then have "deliverDue ops now m s = (m, s)" by (subst deliverDue.simps) (auto split: list.splits)
    with deliversDue_none [OF less.prems True] show ?thesis by auto
  next
    case False
    then obtain p ps where p: "pendingFrames m = p # ps" "\<not> now < deliveryAt p" by (auto split: list.splits)
    obtain s' where s': "deliverDue ops now m s = deliverDue ops now (received ops now m (frame p)) s'"
      using deliverDue_go [OF p, of ops s] by blast
    have "wf_heap (pendingFrames (received ops now m (frame p)))"
      using wf_heapPop [OF less.prems] p by (simp add: received_def)
    moreover have "length (pendingFrames (received ops now m (frame p))) < length (pendingFrames m)"
      using p by (simp add: received_def length_heapPop)
    ultimately show ?thesis
      using less.hyps deliversDue_front [OF less.prems p] unfolding s' by blast
  qed
qed

text \<open>Both loops together.\<close>

definition stepEffect ::
  "'n nodeOps \<Rightarrow> 'g rngOps \<Rightarrow> ('n, 'g) Mesh \<Rightarrow> ('n, 'g) Mesh \<Rightarrow> (simID, 'n) gomap \<Rightarrow>
    (VirtualTime \<times> simFrame) list \<Rightarrow> (VirtualTime \<times> simFrame) multiset \<Rightarrow> bool" where
  "stepEffect ops R m m' ns ds xs \<longleftrightarrow>
     (let now = meshNow m + 1
      in meshNow m' = now \<and> edges m' = edges m \<and> map fst ns = map fst (meshNodes m) \<and>
         (\<forall>j. map_of ns j = map_option (steppedNode ops now) (map_of (meshNodes m) j)) \<and>
         newFrames R (edges m) now (outputs ops now (meshNodes m) UNIV) xs \<and>
         mset ds = filter_mset (\<lambda>x. fst x = now) (inFlight m) \<and>
         meshNodes m' = foldl (receiveAt ops now) ns (map snd ds) \<and>
         inFlight m' = (inFlight m - mset ds) + xs)"

lemma set_NodeIDs: "set (NodeIDs m) = fst ` set (meshNodes m)"
  by (simp add: NodeIDs_def)

lemma distinct_NodeIDs: "distinct (map fst (meshNodes m)) \<Longrightarrow> distinct (NodeIDs m)"
  by (simp add: NodeIDs_def)

lemma meshStep_effect:
  assumes "wf_mesh m" and "distinct (map fst (meshNodes m))"
  shows "wf_mesh (fst (meshStep ops R m)) \<and> (\<exists>ns ds xs. stepEffect ops R m (fst (meshStep ops R m)) ns ds xs)"
proof -
  let ?now = "meshNow m + 1"
  let ?s = "\<lparr>sumNow = ?now, FramesSent = 0, FramesDelivered = 0, FramesInFlight = 0, Errors = []\<rparr>"
  have wf: "wf_heap (pendingFrames (m\<lparr>meshNow := ?now\<rparr>))" and later: "\<forall>x\<in>#inFlight m. meshNow m < fst x"
    using assms(1) by (auto simp: wf_mesh_def)
  from stepNodes_effect [OF wf distinct_NodeIDs [OF assms(2)], of ops R ?now ?s]
  obtain m1 s1 xs where 1: "foldl (stepNode ops R ?now) (m\<lparr>meshNow := ?now\<rparr>, ?s) (NodeIDs m) = (m1, s1)"
    "wf_heap (pendingFrames m1)" "inFlight m1 = xs + inFlight m"
    "newFrames R (edges m) ?now (outputs ops ?now (meshNodes m) (set (NodeIDs m))) xs"
    "\<forall>j. map_of (meshNodes m1) j = (if j \<in> set (NodeIDs m)
       then map_option (steppedNode ops ?now) (map_of (meshNodes m) j) else map_of (meshNodes m) j)"
    "map fst (meshNodes m1) = map fst (meshNodes m)"
    "edges m1 = edges m" "meshNow m1 = ?now" by auto
  have nodes: "map_of (meshNodes m1) j = map_option (steppedNode ops ?now) (map_of (meshNodes m) j)" for j
    using 1(5) map_of_eq_None_iff [of "meshNodes m" j] by (auto simp: set_NodeIDs)
  from deliverDue_effect [OF 1(2), of ops ?now s1] obtain ds where
    ds: "deliversDue ops ?now m1 (fst (deliverDue ops ?now m1 s1)) ds" by blast
  have m': "fst (meshStep ops R m) = fst (deliverDue ops ?now m1 s1)"
    by (simp add: meshStep_def Let_def 1(1) split: prod.split)
  have none: "filter_mset (\<lambda>x. fst x \<le> ?now) xs = {#}"
    using 1(4) by (auto simp: newFrames_def filter_mset_eq_conv)
  have all: "filter_mset (\<lambda>x. ?now < fst x) xs = xs"
    using 1(4) by (auto simp: newFrames_def filter_mset_eq_conv)
  have exact: "filter_mset (\<lambda>x. fst x \<le> ?now) (inFlight m) = filter_mset (\<lambda>x. fst x = ?now) (inFlight m)"
    using later by (intro filter_mset_cong) auto
  have rest: "filter_mset (\<lambda>x. ?now < fst x) (inFlight m) = inFlight m - filter_mset (\<lambda>x. fst x \<le> ?now) (inFlight m)"
    by (metis (mono_tags, lifting) add_diff_cancel_left' multiset_partition filter_mset_cong not_le)
  have "outputs ops ?now (meshNodes m) (set (NodeIDs m)) = outputs ops ?now (meshNodes m) UNIV"
  proof -
    have "i \<in> set (NodeIDs m)" if "map_of (meshNodes m) i = Some n" for i n
      using map_of_SomeD [OF that] by (force simp: set_NodeIDs)
    then show ?thesis unfolding outputs_def by blast
  qed
  then have "newFrames R (edges m) ?now (outputs ops ?now (meshNodes m) UNIV) xs"
    using 1(4) by simp
  moreover have got: "mset ds = filter_mset (\<lambda>x. fst x = ?now) (inFlight m)"
    using ds unfolding deliversDue_def 1(3) filter_union_mset none exact by simp
  moreover have "inFlight (fst (deliverDue ops ?now m1 s1)) = xs + filter_mset (\<lambda>x. ?now < fst x) (inFlight m)"
    using ds unfolding deliversDue_def 1(3) filter_union_mset all by simp
  then have "inFlight (fst (deliverDue ops ?now m1 s1)) = (inFlight m - mset ds) + xs"
    unfolding rest exact got by (simp only: add.commute)
  ultimately have "stepEffect ops R m (fst (meshStep ops R m)) (meshNodes m1) ds xs"
    using ds nodes 1(6,7,8) unfolding m' stepEffect_def deliversDue_def Let_def by simp
  moreover have "wf_mesh (fst (meshStep ops R m))"
    using ds 1(8) unfolding m' wf_mesh_def deliversDue_def by simp
  ultimately show ?thesis by blast
qed

lemma stepEffect_due:
  assumes "stepEffect ops R m m' ns ds xs"
  shows "d \<in> set ds \<longleftrightarrow> d \<in># inFlight m \<and> fst d = meshNow m + 1"
proof -
  have "mset ds = filter_mset (\<lambda>x. fst x = meshNow m + 1) (inFlight m)"
    using assms by (simp add: stepEffect_def Let_def)
  from arg_cong [OF this, of set_mset] show ?thesis by auto
qed

lemma stepEffect_flight:
  assumes "stepEffect ops R m m' ns ds xs"
  shows "meshNow m' = meshNow m + 1" and "edges m' = edges m" and "inFlight m' = (inFlight m - mset ds) + xs"
  using assms unfolding stepEffect_def Let_def by blast+

subsection \<open>Runs\<close>

definition meshOK :: "(simID \<Rightarrow> 'n \<Rightarrow> bool) \<Rightarrow> (simFrame \<Rightarrow> bool) \<Rightarrow> ('n, 'g) Mesh \<Rightarrow> bool" where
  "meshOK ok fine m \<longleftrightarrow> wf_mesh m \<and> distinct (map fst (meshNodes m)) \<and>
     (\<forall>i n. map_of (meshNodes m) i = Some n \<longrightarrow> ok i n) \<and> (\<forall>x\<in>#inFlight m. fine (snd x))"

lemma meshOK_update:
  assumes "meshOK ok fine m" and "ok i n"
  shows "meshOK ok fine (m\<lparr>meshNodes := AList.update i n (meshNodes m)\<rparr>)"
  using assms by (auto simp: meshOK_def wf_mesh_def update_conv' distinct_update)

primrec meshSteps :: "'n nodeOps \<Rightarrow> 'g rngOps \<Rightarrow> nat \<Rightarrow> ('n, 'g) Mesh \<Rightarrow> ('n, 'g) Mesh" where
  "meshSteps ops R 0 m = m"
| "meshSteps ops R (Suc k) m = meshSteps ops R k (fst (meshStep ops R m))"

lemma Run_steps: "\<exists>k'. fst (Run ops R m k p) = meshSteps ops R k' m"
proof -
  have "\<exists>k'. fst (runLoop ops R p k j m) = meshSteps ops R k' m" for j
  proof (induction k arbitrary: m j)
    case (Suc k)
    from Suc.IH [of "j + 1" "fst (meshStep ops R m)"] obtain k' where
      "fst (runLoop ops R p k (j + 1) (fst (meshStep ops R m))) = meshSteps ops R (Suc k') m" by auto
    then show ?case by (cases "p m") (auto intro: exI [of _ 0] exI [of _ "Suc k'"])
  qed (auto intro: exI [of _ 0])
  then show ?thesis by (simp add: Run_def)
qed

text \<open>\<open>Run\<close> stops at the first step at which its predicate holds.\<close>

lemma Run_reaches:
  assumes "pred (meshSteps ops R k m)" and "k < maxSteps"
  shows "\<exists>m' i. Run ops R m maxSteps pred = (m', i, True) \<and> i \<le> k \<and> pred m' \<and> m' = meshSteps ops R i m"
proof -
  have "\<exists>m' i. runLoop ops R pred N j m = (m', j + i, True) \<and> i \<le> k \<and> pred m' \<and> m' = meshSteps ops R i m"
    if "pred (meshSteps ops R k m)" "k < N" for N j
    using that
  proof (induction k arbitrary: m N j)
    case 0
    then show ?case by (cases N) auto
  next
    case (Suc k)
    then obtain M where N: "N = Suc M" "k < M" by (cases N) auto
    show ?case
    proof (cases "pred m")
      case True
      then show ?thesis using N by (intro exI [of _ m] exI [of _ 0]) simp
    next
      case False
      from Suc.IH [of "fst (meshStep ops R m)" M "j + 1"] Suc.prems(1) N(2) obtain m' i where
        "runLoop ops R pred M (j + 1) (fst (meshStep ops R m)) = (m', j + 1 + i, True)" "i \<le> k" "pred m'"
        "m' = meshSteps ops R i (fst (meshStep ops R m))" by auto
      then show ?thesis using False N by (intro exI [of _ m'] exI [of _ "Suc i"]) simp
    qed
  qed
  from this [OF assms, of 0] show ?thesis by (simp add: Run_def)
qed

subsection \<open>Topology\<close>

definition plainEdge :: "int \<Rightarrow> int \<Rightarrow> rat \<Rightarrow> simID \<Rightarrow> simID \<Rightarrow> Edge" where
  "plainEdge latencyMs jitterMs lossPct a b =
     \<lparr>eFrom = a, eTo = b, LatencyMs = latencyMs, JitterMs = jitterMs, LossPct = lossPct, BandwidthBps = 0\<rparr>"

lemma edgeOf_AddEdge:
  "edgeOf (edges (AddEdge m e)) f = (if fFrom f = eFrom e \<and> fTo f = eTo e then Some e else edgeOf (edges m) f)"
  by (auto simp: edgeOf_def AddEdge_def edgesFrom_def split: option.split)

lemma AddEdge_fields [simp]:
  "meshNodes (AddEdge m e) = meshNodes m" "pendingFrames (AddEdge m e) = pendingFrames m"
  "meshNow (AddEdge m e) = meshNow m"
  by (simp_all add: AddEdge_def)

text \<open>A full mesh has an edge with the given properties between any two different nodes.\<close>

lemma FullMesh_effect:
  "meshNodes (FullMesh m l j p) = meshNodes m" "pendingFrames (FullMesh m l j p) = pendingFrames m"
  "meshNow (FullMesh m l j p) = meshNow m"
  "fFrom f \<noteq> fTo f \<Longrightarrow> fFrom f \<in> set (NodeIDs m) \<Longrightarrow> fTo f \<in> set (NodeIDs m) \<Longrightarrow>
   edgeOf (edges (FullMesh m l j p)) f = Some (plainEdge l j p (fFrom f) (fTo f))"
proof -
  define inner where "inner a m bs = foldl (\<lambda>m b. if a = b then m else AddEdge m (plainEdge l j p a b)) m bs"
    for a :: simID and m :: "('a, 'b) Mesh" and bs
  have inner: "meshNodes (inner a m bs) = meshNodes m \<and> pendingFrames (inner a m bs) = pendingFrames m \<and>
      meshNow (inner a m bs) = meshNow m \<and>
      edgeOf (edges (inner a m bs)) f = (if fFrom f = a \<and> fTo f \<in> set bs \<and> a \<noteq> fTo f
        then Some (plainEdge l j p a (fTo f)) else edgeOf (edges m) f)" for a m bs
    unfolding inner_def
    by (induction bs arbitrary: m) (auto simp: edgeOf_AddEdge plainEdge_def)
  have outer: "meshNodes (foldl (\<lambda>m a. inner a m ids) m as) = meshNodes m \<and>
      pendingFrames (foldl (\<lambda>m a. inner a m ids) m as) = pendingFrames m \<and>
      meshNow (foldl (\<lambda>m a. inner a m ids) m as) = meshNow m \<and>
      edgeOf (edges (foldl (\<lambda>m a. inner a m ids) m as)) f =
        (if fFrom f \<in> set as \<and> fTo f \<in> set ids \<and> fFrom f \<noteq> fTo f
         then Some (plainEdge l j p (fFrom f) (fTo f)) else edgeOf (edges m) f)" for as ids m
    by (induction as arbitrary: m) (auto simp: inner)
  have eq: "FullMesh m l j p = foldl (\<lambda>m' a. inner a m' (NodeIDs m)) m (NodeIDs m)"
    unfolding FullMesh_def Let_def inner_def plainEdge_def ..
  show "meshNodes (FullMesh m l j p) = meshNodes m" "pendingFrames (FullMesh m l j p) = pendingFrames m"
    "meshNow (FullMesh m l j p) = meshNow m" using outer eq by simp_all
  show "fFrom f \<noteq> fTo f \<Longrightarrow> fFrom f \<in> set (NodeIDs m) \<Longrightarrow> fTo f \<in> set (NodeIDs m) \<Longrightarrow>
    edgeOf (edges (FullMesh m l j p)) f = Some (plainEdge l j p (fFrom f) (fTo f))"
    using outer eq by simp
qed

subsection \<open>The interface of a simulated node\<close>

text \<open>
  An implementation of \<open>Node\<close> with a state invariant \<open>ok\<close>: stepping and receiving keep it, as long
  as the frames received are \<open>fine\<close>, and what is sent is \<open>fine\<close>. \<open>want\<close> is a condition that is
  never lost again.
\<close>

locale sim_node =
  fixes ops :: "'n nodeOps"
    and ok :: "simID \<Rightarrow> 'n \<Rightarrow> bool"
    and fine :: "simFrame \<Rightarrow> bool"
    and want :: "'n \<Rightarrow> bool"
  assumes step_ok: "ok i n \<Longrightarrow> ok i (fst (opStep ops now n))"
    and step_fine: "ok i n \<Longrightarrow> f \<in> set (fst (snd (opStep ops now n))) \<Longrightarrow> fine f"
    and receive_ok: "ok i n \<Longrightarrow> fine f \<Longrightarrow> fTo f = i \<Longrightarrow> ok i (fst (opReceive ops now n f))"
    and step_want: "ok i n \<Longrightarrow> want n \<Longrightarrow> want (fst (opStep ops now n))"
    and receive_want: "ok i n \<Longrightarrow> fine f \<Longrightarrow> want n \<Longrightarrow> want (fst (opReceive ops now n f))"
begin

lemma receives_keep:
  assumes "\<forall>f\<in>set fs. fine f" and "\<And>i n. map_of ns i = Some n \<Longrightarrow> ok i n"
  shows "\<forall>i n. map_of (foldl (receiveAt ops now) ns fs) i = Some n \<longrightarrow> ok i n"
  using assms
proof (induction fs arbitrary: ns)
  case (Cons f fs)
  have "ok i n" if "map_of (receiveAt ops now ns f) i = Some n" for i n
    using that Cons.prems receive_ok
    by (auto simp: receiveAt_def update_conv' split: option.splits if_splits)
  from Cons.IH [OF _ this] Cons.prems(1) show ?case by simp
qed simp

lemma receives_want:
  assumes "\<forall>f\<in>set fs. fine f" and "\<And>i n. map_of ns i = Some n \<Longrightarrow> ok i n"
    and "map_of ns j = Some n" and "want n"
  shows "\<exists>n'. map_of (foldl (receiveAt ops now) ns fs) j = Some n' \<and> want n'"
  using assms
proof (induction fs arbitrary: ns n)
  case (Cons f fs)
  have keep: "ok i n" if "map_of (receiveAt ops now ns f) i = Some n" for i n
    using receives_keep [of "[f]" ns now] Cons.prems that by auto
  define n' where "n' = (if fTo f = j then fst (opReceive ops now n f) else n)"
  have "map_of (receiveAt ops now ns f) j = Some n'"
    using Cons.prems(3) by (simp add: n'_def receiveAt_def update_conv' split: option.split)
  moreover have "want n'"
    using receive_want [OF Cons.prems(2) [OF Cons.prems(3)] _ Cons.prems(4)] Cons.prems(1,4) by (simp add: n'_def)
  ultimately show ?case using Cons.IH [OF _ keep] Cons.prems(1) by simp
qed auto

lemma keys_receives: "map fst (foldl (receiveAt ops now) ns fs) = map fst ns"
proof (induction fs arbitrary: ns)
  case (Cons f fs)
  have "map fst (receiveAt ops now ns f) = map fst ns"
    by (simp add: receiveAt_def keys_update_present split: option.split)
  with Cons show ?case by simp
qed simp

lemma step_keeps:
  assumes "meshOK ok fine m"
  shows "meshOK ok fine (fst (meshStep ops R m))"
proof -
  from assms have wf: "wf_mesh m" "distinct (map fst (meshNodes m))"
    and nodes: "\<And>i n. map_of (meshNodes m) i = Some n \<Longrightarrow> ok i n"
    and frames: "\<And>x. x \<in># inFlight m \<Longrightarrow> fine (snd x)" by (auto simp: meshOK_def)
  let ?m = "fst (meshStep ops R m)" and ?now = "meshNow m + 1"
  from meshStep_effect [OF wf, of ops R] obtain ns ds xs where eff: "stepEffect ops R m ?m ns ds xs"
    and wf': "wf_mesh ?m" by blast
  have stepped: "ok i n" if "map_of ns i = Some n" for i n
    using eff that nodes step_ok by (auto simp: stepEffect_def Let_def steppedNode_def)
  have due: "\<forall>f\<in>set (map snd ds). fine f"
    using frames stepEffect_due [OF eff] by auto
  have "fine (snd x)" if "x \<in># xs" for x
  proof -
    have "snd x \<in> outputs ops ?now (meshNodes m) UNIV"
      using eff that by (simp add: stepEffect_def Let_def newFrames_def)
    then obtain i n where "map_of (meshNodes m) i = Some n" "snd x \<in> set (fst (snd (opStep ops ?now n)))"
      by (auto simp: outputs_def)
    then show ?thesis using step_fine [OF nodes] by blast
  qed
  then have "\<forall>x\<in>#inFlight ?m. fine (snd x)"
    using eff frames unfolding stepEffect_def Let_def by (metis in_diffD union_iff)
  moreover have "\<forall>i n. map_of (meshNodes ?m) i = Some n \<longrightarrow> ok i n"
    using eff receives_keep [where ns = ns, OF due] stepped by (simp add: stepEffect_def Let_def)
  moreover have "distinct (map fst (meshNodes ?m))"
    using eff wf(2) keys_receives by (simp add: stepEffect_def Let_def)
  ultimately show ?thesis using wf' by (simp add: meshOK_def)
qed

lemma steps_keep: "meshOK ok fine m \<Longrightarrow> meshOK ok fine (meshSteps ops R k m)"
  by (induction k arbitrary: m) (simp_all add: step_keeps)

lemma run_keeps: "meshOK ok fine m \<Longrightarrow> meshOK ok fine (fst (Run ops R m k p))"
proof -
  have "meshOK ok fine m \<Longrightarrow> meshOK ok fine (fst (runLoop ops R p k i m))" for i
    by (induction k arbitrary: m i) (simp_all add: step_keeps)
  then show "meshOK ok fine m \<Longrightarrow> meshOK ok fine (fst (Run ops R m k p))" by (simp add: Run_def)
qed

text \<open>A frame in flight is received at its time, and what its receipt establishes stays.\<close>

lemma step_want_keeps:
  assumes "meshOK ok fine m" and "map_of (meshNodes m) j = Some n" and "want n"
  shows "\<exists>n'. map_of (meshNodes (fst (meshStep ops R m))) j = Some n' \<and> want n'"
proof -
  from assms(1) have wf: "wf_mesh m" "distinct (map fst (meshNodes m))"
    and nodes: "\<And>i n. map_of (meshNodes m) i = Some n \<Longrightarrow> ok i n"
    and frames: "\<And>x. x \<in># inFlight m \<Longrightarrow> fine (snd x)" by (auto simp: meshOK_def)
  from meshStep_effect [OF wf, of ops R] obtain ns ds xs
    where eff: "stepEffect ops R m (fst (meshStep ops R m)) ns ds xs" by blast
  have stepped: "ok i n" if "map_of ns i = Some n" for i n
    using eff that nodes step_ok by (auto simp: stepEffect_def Let_def steppedNode_def)
  have due: "\<forall>f\<in>set (map snd ds). fine f" using frames stepEffect_due [OF eff] by auto
  have "map_of ns j = Some (fst (opStep ops (meshNow m + 1) n))"
    using eff assms(2) by (simp add: stepEffect_def Let_def steppedNode_def)
  from receives_want [OF due stepped this step_want [OF nodes [OF assms(2)] assms(3)]]
  show ?thesis using eff by (simp add: stepEffect_def Let_def)
qed

lemma steps_want_keep:
  assumes "meshOK ok fine m" and "map_of (meshNodes m) j = Some n" and "want n"
  shows "\<exists>n'. map_of (meshNodes (meshSteps ops R k m)) j = Some n' \<and> want n'"
  using assms
proof (induction k arbitrary: m n)
  case (Suc k)
  from step_want_keeps [OF Suc.prems, of R] obtain n' where
    "map_of (meshNodes (fst (meshStep ops R m))) j = Some n'" "want n'" by blast
  from Suc.IH [OF step_keeps [OF Suc.prems(1)] this] show ?case by simp
qed auto

lemma receives_establish:
  assumes "\<forall>f\<in>set fs. fine f" and "\<And>i n. map_of ns i = Some n \<Longrightarrow> ok i n" and "f \<in> set fs"
    and "map_of ns (fTo f) = Some n"
    and "\<And>n. ok (fTo f) n \<Longrightarrow> want (fst (opReceive ops now n f))"
  shows "\<exists>n'. map_of (foldl (receiveAt ops now) ns fs) (fTo f) = Some n' \<and> want n'"
proof -
  obtain us vs where fs: "fs = us @ f # vs" using assms(3) by (auto simp: in_set_conv_decomp)
  let ?ns = "foldl (receiveAt ops now) ns us"
  have pre: "\<forall>g\<in>set us. fine g" and post: "\<forall>g\<in>set vs. fine g" and here: "\<forall>g\<in>set [f]. fine g"
    using assms(1) fs by auto
  have oks: "ok i n" if "map_of ?ns i = Some n" for i n
    using receives_keep [where ns = ns, OF pre] assms(2) that by blast
  have oks': "ok i n" if "map_of (receiveAt ops now ?ns f) i = Some n" for i n
    using receives_keep [where ns = ?ns and now = now, OF here] oks that by auto
  have "map fst ?ns = map fst ns" by (rule keys_receives)
  then have "map_of ?ns (fTo f) \<noteq> None"
    using assms(4) by (metis map_of_eq_None_iff list.set_map option.distinct(1))
  then obtain n1 where n1: "map_of ?ns (fTo f) = Some n1" by blast
  then have got: "map_of (receiveAt ops now ?ns f) (fTo f) = Some (fst (opReceive ops now n1 f))"
    by (simp add: receiveAt_def)
  have "want (fst (opReceive ops now n1 f))" using assms(5) oks [OF n1] by blast
  from receives_want [where ns = "receiveAt ops now ?ns f", OF post oks' got this]
  show ?thesis by (simp add: fs)
qed

lemma node_stays:
  assumes "meshOK ok fine m" and "map_of (meshNodes m) j = Some n"
  shows "\<exists>n'. map_of (meshNodes (fst (meshStep ops R m))) j = Some n'"
proof -
  from assms(1) have wf: "wf_mesh m" "distinct (map fst (meshNodes m))" by (auto simp: meshOK_def)
  from meshStep_effect [OF wf, of ops R] obtain ns ds xs
    where eff: "stepEffect ops R m (fst (meshStep ops R m)) ns ds xs" by blast
  then have "map fst (meshNodes (fst (meshStep ops R m))) = map fst (meshNodes m)"
    using keys_receives by (simp add: stepEffect_def Let_def)
  then show ?thesis
    using assms(2) by (metis map_of_eq_None_iff list.set_map option.exhaust option.distinct(1))
qed

lemma frame_arrives:
  assumes "meshOK ok fine m" and "(t, f) \<in># inFlight m" and "map_of (meshNodes m) (fTo f) = Some n"
    and est: "\<And>n now. ok (fTo f) n \<Longrightarrow> want (fst (opReceive ops now n f))"
    and "t \<le> meshNow m + int k"
  shows "\<exists>n'. map_of (meshNodes (meshSteps ops R k m)) (fTo f) = Some n' \<and> want n'"
  using assms(1,2,3,5)
proof (induction k arbitrary: m n)
  case 0
  then show ?case by (auto simp: meshOK_def wf_mesh_def)
next
  case (Suc k)
  from Suc.prems(1) have wf: "wf_mesh m" "distinct (map fst (meshNodes m))"
    and nodes: "\<And>i n. map_of (meshNodes m) i = Some n \<Longrightarrow> ok i n"
    and frames: "\<And>x. x \<in># inFlight m \<Longrightarrow> fine (snd x)" by (auto simp: meshOK_def)
  let ?m = "fst (meshStep ops R m)" and ?now = "meshNow m + 1"
  from meshStep_effect [OF wf, of ops R] obtain ns ds xs where eff: "stepEffect ops R m ?m ns ds xs" by blast
  have keep: "meshOK ok fine ?m" using step_keeps [OF Suc.prems(1)] .
  show ?case
  proof (cases "t = ?now")
    case True
    have stepped: "ok i n" if "map_of ns i = Some n" for i n
      using eff that nodes step_ok by (auto simp: stepEffect_def Let_def steppedNode_def)
    have due: "\<forall>f\<in>set (map snd ds). fine f" using frames stepEffect_due [OF eff] by auto
    have "(t, f) \<in> set ds" using Suc.prems(2) True by (simp add: stepEffect_due [OF eff])
    then have "f \<in> set (map snd ds)" by force
    moreover obtain n1 where "map_of ns (fTo f) = Some n1"
      using eff Suc.prems(3) by (auto simp: stepEffect_def Let_def)
    ultimately obtain n' where "map_of (foldl (receiveAt ops ?now) ns (map snd ds)) (fTo f) = Some n'" "want n'"
      using receives_establish [where ns = ns, OF due stepped] est by blast
    then have "map_of (meshNodes ?m) (fTo f) = Some n'" using eff by (simp add: stepEffect_def Let_def)
    from steps_want_keep [OF keep this \<open>want n'\<close>] show ?thesis by simp
  next
    case False
    have "(t, f) \<notin># mset ds" using False stepEffect_due [OF eff] by simp
    then have "(t, f) \<in># inFlight m - mset ds"
      using Suc.prems(2) by (metis in_diff_count not_in_iff count_greater_zero_iff)
    then have "(t, f) \<in># inFlight ?m" unfolding stepEffect_flight(3) [OF eff] union_iff by (rule disjI1)
    moreover have "meshNow ?m = ?now" using stepEffect_flight(1) [OF eff] .
    moreover obtain n' where "map_of (meshNodes ?m) (fTo f) = Some n'"
      using node_stays [OF Suc.prems(1,3)] by blast
    ultimately show ?thesis using Suc.IH [OF keep] Suc.prems(4) by simp
  qed
qed

text \<open>So what a node hands out in its next step over an edge without loss is received in time.\<close>

lemma output_arrives:
  assumes "meshOK ok fine m" and "rng_ok R"
    and "map_of (meshNodes m) a = Some na" and "f \<in> set (fst (snd (opStep ops (meshNow m + 1) na)))"
    and "edgeOf (edges m) f = Some e" and "LossPct e \<le> 0"
    and "map_of (meshNodes m) (fTo f) = Some n"
    and est: "\<And>n now. ok (fTo f) n \<Longrightarrow> want (fst (opReceive ops now n f))"
    and "1 + slowest e \<le> int k"
  shows "\<exists>n'. map_of (meshNodes (meshSteps ops R k m)) (fTo f) = Some n' \<and> want n'"
proof -
  from assms(1) have wf: "wf_mesh m" "distinct (map fst (meshNodes m))" by (auto simp: meshOK_def)
  let ?m = "fst (meshStep ops R m)"
  from meshStep_effect [OF wf, of ops R] obtain ns ds xs where eff: "stepEffect ops R m ?m ns ds xs" by blast
  have "f \<in> outputs ops (meshNow m + 1) (meshNodes m) UNIV" using assms(3,4) by (auto simp: outputs_def)
  then obtain t where t: "t \<le> meshNow m + 1 + slowest e" "(t, f) \<in># xs"
    using eff assms(2,5,6) unfolding stepEffect_def Let_def newFrames_def by blast
  have "(t, f) \<in># inFlight ?m" unfolding stepEffect_flight(3) [OF eff] union_iff using t(2) by (rule disjI2)
  moreover have "meshNow ?m = meshNow m + 1" using stepEffect_flight(1) [OF eff] .
  moreover obtain n' where "map_of (meshNodes ?m) (fTo f) = Some n'"
    using node_stays [OF assms(1,7)] by blast
  moreover obtain j where "k = Suc j" using assms(9) by (cases k) (auto simp: slowest_def)
  ultimately show ?thesis
    using frame_arrives [OF step_keeps [OF assms(1)], of t f R n' j] est t(1) assms(9) by simp
qed

end

end
