(* ===== verification/Stub_Node.thy ===== *)
theory Stub_Node
  imports Mesh Lww Sig
begin

text \<open>
  The flooding node of \<open>src/sim/stub_node.go\<close>. It implements the \<open>sim_node\<close> contract of \<open>Mesh\<close>, so
  a record it publishes is at every peer once the slowest edge has been waited for; its store is a
  last-writer-wins map. \<open>encoding/json\<close> is the record \<open>jsonCodec\<close> and SHA-256 the field of
  \<open>crypto\<close>. The set \<open>delivered\<close> is a list without order.
\<close>

record simRecord =
  srTopic :: gostring
  srNodeID :: simID
  srHLC :: u64
  srBody :: bytes
  srTombstone :: bool

record wireRecord =
  w_t :: gostring
  w_n :: gostring
  w_h :: u64
  w_b :: bytes
  w_d :: bool

record jsonCodec =
  jsonMarshal :: "wireRecord \<Rightarrow> bytes"
  jsonUnmarshal :: "bytes \<Rightarrow> gostring + wireRecord"

definition encodeRecord :: "jsonCodec \<Rightarrow> simRecord \<Rightarrow> bytes" where
  "encodeRecord J r =
     jsonMarshal J \<lparr>w_t = srTopic r, w_n = srNodeID r, w_h = srHLC r, w_b = srBody r, w_d = srTombstone r\<rparr>"

definition decodeRecord :: "jsonCodec \<Rightarrow> bytes \<Rightarrow> gostring + simRecord" where
  "decodeRecord J data =
     (case jsonUnmarshal J data of
        Inl err \<Rightarrow> Inl err
      | Inr w \<Rightarrow> Inr \<lparr>srTopic = w_t w, srNodeID = w_n w, srHLC = w_h w, srBody = w_b w, srTombstone = w_d w\<rparr>)"

record StubNode =
  stubID :: simID
  stubPeers :: "simID list"
  stubRecords :: "(gostring, (simID, simRecord) gomap) gomap"
  stubPending :: "simFrame list"
  delivered :: "bytes list"

definition NewStubNode :: "simID \<Rightarrow> simID list \<Rightarrow> StubNode" where
  "NewStubNode i ps = \<lparr>stubID = i, stubPeers = ps, stubRecords = [], stubPending = [], delivered = []\<rparr>"

definition byNode :: "StubNode \<Rightarrow> gostring \<Rightarrow> (simID, simRecord) gomap" where
  "byNode n topic = (case map_of (stubRecords n) topic of None \<Rightarrow> [] | Some m \<Rightarrow> m)"

definition putRecord :: "StubNode \<Rightarrow> simRecord \<Rightarrow> StubNode" where
  "putRecord n r =
     n\<lparr>stubRecords := AList.update (srTopic r) (AList.update (srNodeID r) r (byNode n (srTopic r)))
         (stubRecords n)\<rparr>"

text \<open>The topic's map is made before the record is compared with the one held.\<close>

definition touchTopic :: "StubNode \<Rightarrow> gostring \<Rightarrow> StubNode" where
  "touchTopic n topic = n\<lparr>stubRecords := AList.update topic (byNode n topic) (stubRecords n)\<rparr>"

definition stubPublish :: "jsonCodec \<Rightarrow> crypto \<Rightarrow> StubNode \<Rightarrow> gostring \<Rightarrow> u64 \<Rightarrow> bytes \<Rightarrow> StubNode" where
  "stubPublish J C n topic h body =
     (let r = \<lparr>srTopic = topic, srNodeID = stubID n, srHLC = h, srBody = body, srTombstone = False\<rparr>;
          n1 = putRecord n r;
          payload = encodeRecord J r
      in n1\<lparr>stubPending := stubPending n1 @
              map (\<lambda>p. \<lparr>fFrom = stubID n, fTo = p, fBody = payload\<rparr>) (filter (\<lambda>p. p \<noteq> stubID n) (stubPeers n)),
            delivered := Sum256 C payload # delivered n1\<rparr>)"

definition stubStep :: "VirtualTime \<Rightarrow> StubNode \<Rightarrow> StubNode \<times> simFrame list \<times> gostring option" where
  "stubStep now n = (n\<lparr>stubPending := []\<rparr>, stubPending n, None)"

definition stubReceive ::
  "jsonCodec \<Rightarrow> crypto \<Rightarrow> VirtualTime \<Rightarrow> StubNode \<Rightarrow> simFrame \<Rightarrow> StubNode \<times> gostring option" where
  "stubReceive J C now n f =
     (let h = Sum256 C (fBody f)
      in if h \<in> set (delivered n) then (n, None)
         else
           let n1 = n\<lparr>delivered := h # delivered n\<rparr>
           in case decodeRecord J (fBody f) of
                Inl err \<Rightarrow> (n1, Some err)
              | Inr r \<Rightarrow>
                  let n2 = touchTopic n1 (srTopic r);
                      n3 = (case map_of (byNode n2 (srTopic r)) (srNodeID r) of
                              None \<Rightarrow> putRecord n2 r
                            | Some existing \<Rightarrow> if srHLC r > srHLC existing then putRecord n2 r else n2)
                  in (n3\<lparr>stubPending := stubPending n3 @
                          map (\<lambda>p. \<lparr>fFrom = stubID n, fTo = p, fBody = fBody f\<rparr>)
                            (filter (\<lambda>p. p \<noteq> stubID n \<and> p \<noteq> fFrom f) (stubPeers n))\<rparr>, None))"

definition stubRecordsView :: "StubNode \<Rightarrow> (gostring \<times> simRecord list) list" where
  "stubRecordsView n = map (\<lambda>(topic, m). (topic, map snd m)) (stubRecords n)"

definition stubOps :: "jsonCodec \<Rightarrow> crypto \<Rightarrow> StubNode nodeOps" where
  "stubOps J C = \<lparr>opID = stubID, opStep = stubStep, opReceive = stubReceive J C\<rparr>"

subsection \<open>The store is a last-writer-wins map\<close>

definition stubNewer :: "simRecord \<Rightarrow> simRecord \<Rightarrow> bool" where
  "stubNewer r c \<longleftrightarrow> srHLC r > srHLC c"

definition stubSlot :: "simRecord \<Rightarrow> gostring \<times> simID" where
  "stubSlot r = (srTopic r, srNodeID r)"

definition held :: "StubNode \<Rightarrow> gostring \<times> simID \<Rightarrow> simRecord option" where
  "held n k = map_of (byNode n (fst k)) (snd k)"

interpretation stub_lww: lww_order stubNewer
  by unfold_locales (auto simp: stubNewer_def)

lemma held_putRecord: "held (putRecord n r) = (held n)(stubSlot r \<mapsto> r)"
  by (auto simp: held_def putRecord_def byNode_def stubSlot_def fun_eq_iff split: option.split)

lemma held_touchTopic [simp]: "held (touchTopic n t) = held n"
  by (auto simp: held_def touchTopic_def byNode_def fun_eq_iff split: option.split)

lemma held_update [simp]:
  "held (n\<lparr>stubPending := x\<rparr>) = held n" "held (n\<lparr>delivered := y\<rparr>) = held n"
  by (simp_all add: held_def byNode_def fun_eq_iff)

text \<open>Receiving a new payload is one write of the abstract map.\<close>

lemma held_receive:
  assumes "Sum256 C (fBody f) \<notin> set (delivered n)" and "decodeRecord J (fBody f) = Inr r"
  shows "held (fst (stubReceive J C now n f)) = lww_apply stubNewer stubSlot r (held n)"
proof -
  let ?n = "touchTopic (n\<lparr>delivered := Sum256 C (fBody f) # delivered n\<rparr>) (srTopic r)"
  have "map_of (byNode ?n (srTopic r)) (srNodeID r) = held ?n (stubSlot r)"
    by (simp only: held_def stubSlot_def fst_conv snd_conv)
  then show ?thesis
    using assms by (simp add: stubReceive_def lww_apply_def held_putRecord stubNewer_def Let_def split: option.split)
qed

lemma receive_held_cases:
  "held (fst (stubReceive J C now n f)) = held n \<or>
   (\<exists>r. held (fst (stubReceive J C now n f)) = lww_apply stubNewer stubSlot r (held n))"
proof (cases "Sum256 C (fBody f) \<in> set (delivered n)")
  case True
  then show ?thesis by (simp add: stubReceive_def)
next
  case False
  then show ?thesis
    using held_receive [OF False] by (cases "decodeRecord J (fBody f)") (auto simp: stubReceive_def Let_def)
qed

subsection \<open>Flooding delivers\<close>

text \<open>A node holds a record at least as new in the record's slot.\<close>

definition holds :: "simRecord \<Rightarrow> StubNode \<Rightarrow> bool" where
  "holds r n \<longleftrightarrow> (case held n (stubSlot r) of None \<Rightarrow> False | Some c \<Rightarrow> srHLC r \<le> srHLC c)"

lemma holds_iff: "holds r n \<longleftrightarrow> (\<exists>c. held n (stubSlot r) = Some c \<and> srHLC r \<le> srHLC c)"
  by (cases "held n (stubSlot r)") (simp_all add: holds_def)

text \<open>What is relied on of the codec, and a frame whose body does not collide with the record's.\<close>

definition json_ok :: "jsonCodec \<Rightarrow> simRecord \<Rightarrow> bool" where
  "json_ok J r \<longleftrightarrow> decodeRecord J (encodeRecord J r) = Inr r"

definition noCollision :: "jsonCodec \<Rightarrow> crypto \<Rightarrow> simRecord \<Rightarrow> simFrame \<Rightarrow> bool" where
  "noCollision J C r f \<longleftrightarrow> Sum256 C (fBody f) = Sum256 C (encodeRecord J r) \<longrightarrow> fBody f = encodeRecord J r"

definition stubOK :: "jsonCodec \<Rightarrow> crypto \<Rightarrow> simRecord \<Rightarrow> simID \<Rightarrow> StubNode \<Rightarrow> bool" where
  "stubOK J C r i n \<longleftrightarrow> json_ok J r \<and> stubID n = i \<and> (\<forall>f\<in>set (stubPending n). noCollision J C r f) \<and>
     (Sum256 C (encodeRecord J r) \<in> set (delivered n) \<longrightarrow> holds r n)"

lemma holds_apply: "held n' = lww_apply stubNewer stubSlot x (held n) \<Longrightarrow> holds r n \<Longrightarrow> holds r n'"
  using stub_lww.apply_monotone [of "held n" "stubSlot r"]
  by (fastforce simp: holds_iff stubNewer_def dest: less_imp_le)

lemma holds_receive: "holds r n \<Longrightarrow> holds r (fst (stubReceive J C now n f))"
  using receive_held_cases [of J C now n f] holds_apply by (auto simp: holds_iff)

lemma holds_new:
  assumes "held n' = lww_apply stubNewer stubSlot r (held n)"
  shows "holds r n'"
  using assms by (cases "held n (stubSlot r)") (auto simp: holds_def lww_apply_def stubNewer_def)

lemma receive_fields:
  "stubID (fst (stubReceive J C now n f)) = stubID n" "stubPeers (fst (stubReceive J C now n f)) = stubPeers n"
  "set (delivered (fst (stubReceive J C now n f))) = insert (Sum256 C (fBody f)) (set (delivered n))"
  "g \<in> set (stubPending (fst (stubReceive J C now n f))) \<Longrightarrow> g \<in> set (stubPending n) \<or> fBody g = fBody f"
  by (auto simp: stubReceive_def Let_def touchTopic_def putRecord_def split: sum.splits option.splits if_splits)

lemma receive_establishes:
  assumes "stubOK J C r i n" and "fBody f = encodeRecord J r"
  shows "holds r (fst (stubReceive J C now n f))"
proof (cases "Sum256 C (fBody f) \<in> set (delivered n)")
  case True
  with assms show ?thesis by (simp add: stubOK_def holds_receive)
next
  case False
  from held_receive [OF False, of J r now] assms show ?thesis
    by (simp add: stubOK_def json_ok_def holds_new)
qed

interpretation stub: sim_node "stubOps J C" "stubOK J C r" "noCollision J C r" "holds r" for J C r
proof unfold_locales
  fix i n now f
  assume ok: "stubOK J C r i n"
  then show "stubOK J C r i (fst (opStep (stubOps J C) now n))"
    by (simp add: stubOps_def stubStep_def stubOK_def holds_def)
  show "f \<in> set (fst (snd (opStep (stubOps J C) now n))) \<Longrightarrow> noCollision J C r f"
    using ok by (simp add: stubOps_def stubStep_def stubOK_def)
  show "holds r n \<Longrightarrow> holds r (fst (opStep (stubOps J C) now n))"
    by (simp add: stubOps_def stubStep_def holds_def)
  show "holds r n \<Longrightarrow> holds r (fst (opReceive (stubOps J C) now n f))"
    by (simp add: stubOps_def holds_receive)
  assume fine: "noCollision J C r f"
  have "holds r (fst (stubReceive J C now n f))"
    if "Sum256 C (encodeRecord J r) \<in> insert (Sum256 C (fBody f)) (set (delivered n))"
  proof (cases "Sum256 C (encodeRecord J r) \<in> set (delivered n)")
    case True
    with ok have "holds r n" unfolding stubOK_def by blast
    then show ?thesis by (rule holds_receive)
  next
    case False
    with that have "Sum256 C (encodeRecord J r) = Sum256 C (fBody f)" by (simp only: insert_iff simp_thms)
    with fine have "fBody f = encodeRecord J r" unfolding noCollision_def by (simp only: simp_thms)
    then show ?thesis by (rule receive_establishes [OF ok])
  qed
  moreover have "\<forall>g\<in>set (stubPending (fst (stubReceive J C now n f))). noCollision J C r g"
  proof
    fix g assume "g \<in> set (stubPending (fst (stubReceive J C now n f)))"
    from receive_fields(4) [OF this] ok fine show "noCollision J C r g" by (auto simp: stubOK_def noCollision_def)
  qed
  ultimately show "stubOK J C r i (fst (opReceive (stubOps J C) now n f))"
    using ok unfolding stubOps_def stubOK_def by (simp add: receive_fields(1,3))
qed

subsection \<open>Cold start\<close>

text \<open>Fresh nodes that know each other, each with one record published, on a full mesh without loss.\<close>

definition coldRecord :: "gostring \<Rightarrow> (simID \<Rightarrow> u64 \<times> bytes) \<Rightarrow> simID \<Rightarrow> simRecord" where
  "coldRecord topic pub i =
     \<lparr>srTopic = topic, srNodeID = i, srHLC = fst (pub i), srBody = snd (pub i), srTombstone = False\<rparr>"

definition coldNode ::
  "jsonCodec \<Rightarrow> crypto \<Rightarrow> gostring \<Rightarrow> (simID \<Rightarrow> u64 \<times> bytes) \<Rightarrow> simID list \<Rightarrow> simID \<Rightarrow> StubNode" where
  "coldNode J C topic pub ids i =
     stubPublish J C (NewStubNode i (filter (\<lambda>p. p \<noteq> i) ids)) topic (fst (pub i)) (snd (pub i))"

definition coldMesh ::
  "jsonCodec \<Rightarrow> crypto \<Rightarrow> 'g \<Rightarrow> int \<Rightarrow> int \<Rightarrow> gostring \<Rightarrow> (simID \<Rightarrow> u64 \<times> bytes) \<Rightarrow> simID list \<Rightarrow>
    (StubNode, 'g) Mesh" where
  "coldMesh J C seed latencyMs jitterMs topic pub ids =
     FullMesh (foldl (AddNode (stubOps J C)) (NewMesh seed) (map (coldNode J C topic pub ids) ids))
       latencyMs jitterMs 0"

definition everyoneHolds :: "simRecord list \<Rightarrow> simID list \<Rightarrow> (StubNode, 'g) Mesh \<Rightarrow> bool" where
  "everyoneHolds rs ids m =
     (\<forall>b\<in>set ids. \<forall>r\<in>set rs. case map_of (meshNodes m) b of None \<Rightarrow> False | Some n \<Rightarrow> holds r n)"

lemma everyoneHolds_iff:
  "everyoneHolds rs ids m \<longleftrightarrow>
     (\<forall>b\<in>set ids. \<forall>r\<in>set rs. \<exists>n. map_of (meshNodes m) b = Some n \<and> holds r n)"
proof -
  have "(case map_of (meshNodes m) b of None \<Rightarrow> False | Some n \<Rightarrow> holds r n) \<longleftrightarrow>
      (\<exists>n. map_of (meshNodes m) b = Some n \<and> holds r n)" for b r
    by (cases "map_of (meshNodes m) b") simp_all
  then show ?thesis by (simp only: everyoneHolds_def)
qed

lemma AddNodes:
  assumes "\<And>i. opID ops (f i) = i"
  shows "map_of (meshNodes (foldl (AddNode ops) m (map f is))) j =
      (if j \<in> set is then Some (f j) else map_of (meshNodes m) j) \<and>
    (distinct (map fst (meshNodes m)) \<longrightarrow> distinct (map fst (meshNodes (foldl (AddNode ops) m (map f is))))) \<and>
    pendingFrames (foldl (AddNode ops) m (map f is)) = pendingFrames m \<and>
    meshNow (foldl (AddNode ops) m (map f is)) = meshNow m"
  by (induction "is" arbitrary: m) (auto simp: AddNode_def assms)

lemma coldNode_fields:
  "stubID (coldNode J C topic pub ids i) = i"
  "stubPending (coldNode J C topic pub ids i) =
     map (\<lambda>p. \<lparr>fFrom = i, fTo = p, fBody = encodeRecord J (coldRecord topic pub i)\<rparr>) (filter (\<lambda>p. p \<noteq> i) ids)"
  "delivered (coldNode J C topic pub ids i) = [Sum256 C (encodeRecord J (coldRecord topic pub i))]"
  "holds (coldRecord topic pub i) (coldNode J C topic pub ids i)"
proof -
  have "held (coldNode J C topic pub ids i) (stubSlot (coldRecord topic pub i)) = Some (coldRecord topic pub i)"
    by (simp add: coldNode_def stubPublish_def NewStubNode_def Let_def held_putRecord flip: coldRecord_def)
  then show "holds (coldRecord topic pub i) (coldNode J C topic pub ids i)" by (simp add: holds_def)
qed (simp_all add: coldNode_def stubPublish_def NewStubNode_def putRecord_def Let_def coldRecord_def)

lemma coldMesh_nodes:
  "map_of (meshNodes (coldMesh J C g l j topic pub ids)) i =
     (if i \<in> set ids then Some (coldNode J C topic pub ids i) else None)"
  "wf_mesh (coldMesh J C g l j topic pub ids)"
  "distinct (map fst (meshNodes (coldMesh J C g l j topic pub ids)))"
  "inFlight (coldMesh J C g l j topic pub ids) = {#}"
proof -
  let ?m = "foldl (AddNode (stubOps J C)) (NewMesh g) (map (coldNode J C topic pub ids) ids)"
  have "opID (stubOps J C) (coldNode J C topic pub ids i) = i" for i by (simp add: stubOps_def coldNode_fields)
  note add = AddNodes [where f = "coldNode J C topic pub ids", OF this]
  show "map_of (meshNodes (coldMesh J C g l j topic pub ids)) i =
     (if i \<in> set ids then Some (coldNode J C topic pub ids i) else None)"
    using add [where m = "NewMesh g"] by (simp add: coldMesh_def FullMesh_effect(1) NewMesh_def)
  show "distinct (map fst (meshNodes (coldMesh J C g l j topic pub ids)))"
    using add [where m = "NewMesh g"] by (simp add: coldMesh_def FullMesh_effect(1) NewMesh_def)
  have p: "pendingFrames (coldMesh J C g l j topic pub ids) = []"
    using add [where m = "NewMesh g"] by (simp add: coldMesh_def FullMesh_effect(2) NewMesh_def)
  then show "inFlight (coldMesh J C g l j topic pub ids) = {#}" by (simp add: pq.content_none)
  show "wf_mesh (coldMesh J C g l j topic pub ids)"
    by (simp add: wf_mesh_def p pq.invar_none pq.content_none)
qed

lemma coldMesh_edge:
  assumes "a \<in> set ids" and "b \<in> set ids" and "a \<noteq> b"
  shows "edgeOf (edges (coldMesh J C g l j topic pub ids)) \<lparr>fFrom = a, fTo = b, fBody = x\<rparr> = Some (plainEdge l j 0 a b)"
proof -
  let ?m = "foldl (AddNode (stubOps J C)) (NewMesh g) (map (coldNode J C topic pub ids) ids)"
  have "map_of (meshNodes ?m) i \<noteq> None" if "i \<in> set ids" for i
    using coldMesh_nodes(1) [of J C g l j topic pub ids i] that by (simp add: coldMesh_def FullMesh_effect(1))
  then have "i \<in> set (NodeIDs ?m)" if "i \<in> set ids" for i using that by (simp add: set_NodeIDs mkeys_map_of)
  with assms show ?thesis by (simp add: coldMesh_def FullMesh_effect(4))
qed

text \<open>The payloads decode to what was encoded and no two of them collide.\<close>

definition payloads_ok :: "jsonCodec \<Rightarrow> crypto \<Rightarrow> simRecord set \<Rightarrow> bool" where
  "payloads_ok J C rs \<longleftrightarrow> (\<forall>r\<in>rs. json_ok J r) \<and> inj_on (Sum256 C) (encodeRecord J ` rs)"

lemma payloads_eq:
  assumes "payloads_ok J C rs" and "r \<in> rs" and "r' \<in> rs"
    and "Sum256 C (encodeRecord J r) = Sum256 C (encodeRecord J r')"
  shows "r = r'"
proof -
  have "encodeRecord J r = encodeRecord J r'"
    using assms unfolding payloads_ok_def by (meson image_eqI inj_onD)
  with assms(1-3) show ?thesis unfolding payloads_ok_def json_ok_def by (metis sum.inject(2))
qed

lemma cold_meshOK:
  assumes "payloads_ok J C (coldRecord topic pub ` set ids)" and "a \<in> set ids"
  shows "meshOK (stubOK J C (coldRecord topic pub a)) (noCollision J C (coldRecord topic pub a))
    (coldMesh J C g l j topic pub ids)"
proof -
  let ?r = "coldRecord topic pub"
  have same: "?r i = ?r a" if "i \<in> set ids" "Sum256 C (encodeRecord J (?r i)) = Sum256 C (encodeRecord J (?r a))" for i
    using payloads_eq [OF assms(1), of "?r i" "?r a"] that assms(2) by blast
  have "stubOK J C (?r a) i (coldNode J C topic pub ids i)" if i: "i \<in> set ids" for i
  proof -
    have "noCollision J C (?r a) f" if "f \<in> set (stubPending (coldNode J C topic pub ids i))" for f
      using that same [OF i] by (auto simp: coldNode_fields(2) noCollision_def)
    moreover have "holds (?r a) (coldNode J C topic pub ids i)"
      if "Sum256 C (encodeRecord J (?r a)) = Sum256 C (encodeRecord J (?r i))"
      using same [OF i that [symmetric]] coldNode_fields(4) [of topic pub i J C ids] by (simp only:)
    moreover have "json_ok J (?r a)" using assms by (simp add: payloads_ok_def)
    ultimately show ?thesis by (simp add: stubOK_def coldNode_fields(1,3))
  qed
  then show ?thesis
    unfolding meshOK_def coldMesh_nodes(1,4) using coldMesh_nodes(2,3) [of J C g l j topic pub ids]
    by (simp split: if_splits)
qed

lemma cold_arrives:
  assumes "payloads_ok J C (coldRecord topic pub ` set ids)" and "rng_ok R"
    and "a \<in> set ids" and "b \<in> set ids" and "1 + max 1 (l + max 0 j) \<le> int k"
  shows "\<exists>n. map_of (meshNodes (meshSteps (stubOps J C) R k (coldMesh J C g l j topic pub ids))) b = Some n \<and>
    holds (coldRecord topic pub a) n"
proof -
  let ?m = "coldMesh J C g l j topic pub ids" and ?r = "coldRecord topic pub a"
  note ok = cold_meshOK [OF assms(1,3), of g l j]
  have nodes: "map_of (meshNodes ?m) i = Some (coldNode J C topic pub ids i)" if "i \<in> set ids" for i
    using that by (simp add: coldMesh_nodes(1))
  show ?thesis
  proof (cases "a = b")
    case True
    with stub.steps_want_keep [OF ok nodes [OF assms(3)] coldNode_fields(4)] show ?thesis by blast
  next
    case False
    let ?f = "\<lparr>fFrom = a, fTo = b, fBody = encodeRecord J ?r\<rparr>"
    have "?f \<in> set (fst (snd (opStep (stubOps J C) (meshNow ?m + 1) (coldNode J C topic pub ids a))))"
      using False assms(4) by (auto simp: stubOps_def stubStep_def coldNode_fields(2))
    moreover have "holds ?r (fst (opReceive (stubOps J C) now n ?f))" if "stubOK J C ?r (fTo ?f) n" for n now
      using receive_establishes [OF that, of ?f now] by (simp add: stubOps_def)
    moreover have "map_of (meshNodes ?m) (fTo ?f) = Some (coldNode J C topic pub ids b)" using nodes [OF assms(4)] by simp
    moreover have "1 + slowest (plainEdge l j 0 a b) \<le> int k" "LossPct (plainEdge l j 0 a b) \<le> 0"
      using assms(5) by (simp_all add: slowest_def plainEdge_def)
    ultimately have "\<exists>n. map_of (meshNodes (meshSteps (stubOps J C) R k ?m)) (fTo ?f) = Some n \<and> holds ?r n"
      by (intro stub.output_arrives [OF ok assms(2) nodes [OF assms(3)] _ coldMesh_edge [OF assms(3,4) False]])
    then show ?thesis by simp
  qed
qed

text \<open>C13: Flooding converges: on a full mesh without loss, with any latency and jitter, where every fresh node
  has published one record, the simulator's \<open>Run\<close> with enough steps ends by its predicate and not by
  its step limit, after at most one step more than the slowest delay, and then every node holds
  every record (or a newer one for its slot).\<close>

theorem cold_start_converges:
  assumes "payloads_ok J C (coldRecord topic pub ` set ids)" and "rng_ok R"
    and "1 + max 1 (latencyMs + max 0 jitterMs) \<le> int k" and "k < maxSteps"
  shows "\<exists>m steps. Run (stubOps J C) R (coldMesh J C seed latencyMs jitterMs topic pub ids) maxSteps
      (everyoneHolds (map (coldRecord topic pub) ids) ids) = (m, steps, True) \<and> steps \<le> k \<and>
    everyoneHolds (map (coldRecord topic pub) ids) ids m"
proof -
  have "everyoneHolds (map (coldRecord topic pub) ids) ids
      (meshSteps (stubOps J C) R k (coldMesh J C seed latencyMs jitterMs topic pub ids))"
    unfolding everyoneHolds_iff using cold_arrives [OF assms(1,2) _ _ assms(3)] by simp
  from Run_reaches [where pred = "everyoneHolds (map (coldRecord topic pub) ids) ids", OF this assms(4)] show ?thesis by blast
qed

definition plainJson :: jsonCodec where
  "plainJson = \<lparr>jsonMarshal = (\<lambda>w. w_n w), jsonUnmarshal = (\<lambda>b. Inr \<lparr>w_t = [1], w_n = b, w_h = 1, w_b = [], w_d = False\<rparr>)\<rparr>"

definition plainRng :: "nat rngOps" where
  "plainRng = \<lparr>rFloat64 = (\<lambda>g. (0, g)), rIntn = (\<lambda>g n. (int g mod n, Suc g))\<rparr>"

theorem cold_start_converges_witness:
  "\<exists>m steps. Run (stubOps plainJson sampleCrypto) plainRng
      (coldMesh plainJson sampleCrypto 0 5 2 [1] (\<lambda>_. (1, [])) [[97], [98], [99]]) 500
      (everyoneHolds (map (coldRecord [1] (\<lambda>_. (1, []))) [[97], [98], [99]]) [[97], [98], [99]]) = (m, steps, True) \<and>
    steps \<le> 8 \<and> everyoneHolds (map (coldRecord [1] (\<lambda>_. (1, []))) [[97], [98], [99]]) [[97], [98], [99]] m"
proof (rule cold_start_converges)
  show "payloads_ok plainJson sampleCrypto (coldRecord [1] (\<lambda>_. (1, [])) ` set [[97], [98], [99]])"
    by (simp add: payloads_ok_def json_ok_def encodeRecord_def decodeRecord_def plainJson_def coldRecord_def
        sampleCrypto_def fit32_def inj_on_def)
  show "rng_ok plainRng" by (simp add: rng_ok_def plainRng_def)
qed simp_all

end
