(* ===== verification/Swarm_Sim.thy ===== *)
theory Swarm_Sim
  imports Node_Inv Content Stub_Node
begin

text \<open>
  The bridge of \<open>src/sim/swarm_node.go\<close>: a node of \<open>src/node.go\<close> with its content topic behind the
  simulator's node interface, on a transport that queues outbound frames until the next step, and
  the raw store view of \<open>src/testing.go\<close>. The virtual clock is the node's \<open>NowFn\<close>; the real clock it
  also reads is \<open>wClock\<close>, by node and number of the call, without any assumption. Key pairs are
  drawn from \<open>wKeys\<close>. The fields of the transport (\<open>peers\<close>, \<open>peerByID\<close>, \<open>outbound\<close>) are part of the
  node's record; a node found under two identities is looked up in table order. One call runs to completion: the frames the engines send go through \<open>simSend\<close>,
  fetch frames and adverts reach the content topic, which \<open>Wire\<close> subscribed under handle 1. The
  goroutine that runs \<open>Start\<close> only sets the started flag, since the background ticker is off.
\<close>

record simWorld =
  wCrypto :: crypto
  wWire :: wire
  wContent :: contentCodec
  wKeys :: "simID \<Rightarrow> bytes \<times> bytes"
  wClock :: "simID \<Rightarrow> nat \<Rightarrow> instant"

record SwarmNode =
  snID :: simID
  snSwarmID :: NodeID
  snNode :: nodeImpl
  snContent :: contentTopicImpl
  virtTime :: VirtualTime
  snPriv :: bytes
  simPeers :: "NodeID list"
  peerByID :: "(NodeID, simID) gomap"
  outbound :: "simFrame list"
  snReads :: nat

definition snEnv :: "simWorld \<Rightarrow> SwarmNode \<Rightarrow> env" where
  "snEnv W n = \<lparr>cr = wCrypto W, wr = wWire W, clk_now = virtTime n * millisecond,
     clk_wall = wClock W (snID n) (snReads n)\<rparr>"

subsection \<open>Transport\<close>

definition simSend :: "SwarmNode \<Rightarrow> NodeID \<times> bytes \<Rightarrow> SwarmNode" where
  "simSend n x =
     (case map_of (peerByID n) (fst x) of
        None \<Rightarrow> n
      | Some target \<Rightarrow> n\<lparr>outbound := outbound n @ [\<lparr>fFrom = snID n, fTo = target, fBody = snd x\<rparr>]\<rparr>)"

definition simBroadcast :: "SwarmNode \<Rightarrow> bytes \<Rightarrow> SwarmNode" where
  "simBroadcast n b =
     n\<lparr>outbound := outbound n @ map (\<lambda>(_, i). \<lparr>fFrom = snID n, fTo = i, fBody = b\<rparr>) (peerByID n)\<rparr>"

definition DrainOutbound :: "SwarmNode \<Rightarrow> SwarmNode \<times> simFrame list" where
  "DrainOutbound n = (n\<lparr>outbound := []\<rparr>, outbound n)"

subsection \<open>Calls into the node\<close>

definition serveCall :: "env \<Rightarrow> nodeImpl \<times> contentTopicImpl \<Rightarrow> callback \<Rightarrow> nodeImpl \<times> contentTopicImpl" where
  "serveCall E nc call =
     (case call of
        OnApplied _ \<Rightarrow> nc
      | OnFetchReq from q \<Rightarrow> (handleFetchRequest E (fst nc) (snd nc) from q, snd nc)
      | OnFetchResp from resp \<Rightarrow> (fst nc, handleFetchResponse (snd nc) resp))"

definition serveCalls :: "env \<Rightarrow> nodeImpl \<times> contentTopicImpl \<Rightarrow> nodeImpl \<times> contentTopicImpl" where
  "serveCalls E nc =
     (let (node, c) = foldl (serveCall E) nc (calls (eng (fst nc)))
      in (node\<lparr>eng := (eng node)\<lparr>calls := []\<rparr>\<rparr>, c))"

definition indexAdverts :: "env \<Rightarrow> contentCodec \<Rightarrow> event list \<Rightarrow> contentTopicImpl \<Rightarrow> contentTopicImpl" where
  "indexAdverts E K evs c =
     foldl (\<lambda>c ev. case ev of Delivered i r \<Rightarrow> if i = 1 then onAdvertRecord E K c r else c | _ \<Rightarrow> c) c evs"

definition snCall :: "simWorld \<Rightarrow> (env \<Rightarrow> nodeImpl \<Rightarrow> nodeImpl) \<Rightarrow> SwarmNode \<Rightarrow> SwarmNode" where
  "snCall W f n =
     (let E = snEnv W n;
          node1 = f E (snNode n);
          c1 = indexAdverts E (wContent W) (drop (length (events (snNode n))) (events node1)) (snContent n);
          (node2, c2) = serveCalls E (node1, c1);
          n1 = n\<lparr>snNode := node2\<lparr>eng := (eng node2)\<lparr>sent := []\<rparr>\<rparr>, snContent := c2, snReads := snReads n + 1\<rparr>
      in foldl simSend n1 (sent (eng node2)))"

definition RegisterPeer :: "simWorld \<Rightarrow> SwarmNode \<Rightarrow> simID \<Rightarrow> NodeID \<Rightarrow> SwarmNode" where
  "RegisterPeer W n i swarmID =
     snCall W (\<lambda>E node. OnPeerJoin E node swarmID)
       (n\<lparr>simPeers := simPeers n @ [swarmID], peerByID := AList.update swarmID i (peerByID n)\<rparr>)"

definition DeliverInbound :: "simWorld \<Rightarrow> SwarmNode \<Rightarrow> simFrame \<Rightarrow> SwarmNode" where
  "DeliverInbound W n f =
     (case List.find (\<lambda>(_, i). i = fFrom f) (peerByID n) of
        None \<Rightarrow> n
      | Some (from, _) \<Rightarrow>
          if from = [] then n else snCall W (\<lambda>E node. OnReceive E node from (fBody f)) n)"

subsection \<open>The simulated node\<close>

definition hexTable :: bytes where
  "hexTable = str ''0123456789abcdef''"

definition simNodeIDFromPub :: "bytes \<Rightarrow> gostring" where
  "simNodeIDFromPub pub =
     concat (map (\<lambda>b. [hexTable ! unat (drop_bit 4 b), hexTable ! unat (b AND 15)]) pub)"

definition simConfig :: "NodeID \<Rightarrow> bytes \<Rightarrow> Config" where
  "simConfig swarmID pk =
     \<lparr>cfg_NodeID = swarmID, cfg_PrivKey = pk, cfg_PerPeerConfig = None, cfg_MaxRecordBytes = 0,
      cfg_TreeDegree = 4, cfg_GraftDelay = 50 * millisecond, cfg_MerkleProbeInterval = 200 * millisecond,
      cfg_TrustCheck = None, cfg_RequireNodeKeyBinding = False, cfg_MaxClockSkew = 0, cfg_MaxTopics = 0,
      cfg_MaxRecordsPerTopic = 0, cfg_MaxKeysPerNodePerTopic = 0, cfg_MaxAttestationsPerTarget = 0,
      cfg_MaxPendingIHaves = 0, cfg_TopicTTL = None, cfg_OnAccepted = False, cfg_OnPaused = False,
      cfg_OnResumed = False, cfg_DisableBackgroundTicker = True\<rparr>"

text \<open>\<open>None\<close> is the panic on an error of \<open>New\<close> or \<open>Wire\<close>.\<close>

definition NewSwarmNode :: "simWorld \<Rightarrow> simID \<Rightarrow> SwarmNode option" where
  "NewSwarmNode W i =
     (let (pub, pk) = wKeys W i;
          swarmID = simNodeIDFromPub pub;
          E = \<lparr>cr = wCrypto W, wr = wWire W, clk_now = 0, clk_wall = wClock W i 0\<rparr>
      in case New E (simConfig swarmID pk) of
           Inl _ \<Rightarrow> None
         | Inr node \<Rightarrow>
             (case Wire E node swarmID [] of
                (node1, Returns None) \<Rightarrow>
                  Some \<lparr>snID = i, snSwarmID = swarmID, snNode = fst (Start node1), snContent = newContentTopic,
                        virtTime = 0, snPriv = pk, simPeers = [], peerByID = [], outbound = [], snReads = 1\<rparr>
              | _ \<Rightarrow> None))"

definition snStep :: "simWorld \<Rightarrow> VirtualTime \<Rightarrow> SwarmNode \<Rightarrow> SwarmNode \<times> simFrame list \<times> gostring option" where
  "snStep W now n =
     (let n1 = snCall W (\<lambda>E node. Tick E node (now * millisecond)) (n\<lparr>virtTime := now\<rparr>);
          (n2, out) = DrainOutbound n1
      in (n2, out, None))"

definition snReceive :: "simWorld \<Rightarrow> VirtualTime \<Rightarrow> SwarmNode \<Rightarrow> simFrame \<Rightarrow> SwarmNode \<times> gostring option" where
  "snReceive W now n f = (DeliverInbound W n f, None)"

definition snPublish :: "simWorld \<Rightarrow> SwarmNode \<Rightarrow> gostring \<Rightarrow> u64 \<Rightarrow> bytes \<Rightarrow> SwarmNode" where
  "snPublish W n topic h body = snCall W (\<lambda>E node. fst (Publish E node topic body)) n"

definition snStop :: "simWorld \<Rightarrow> SwarmNode \<Rightarrow> SwarmNode" where
  "snStop W n = snCall W (\<lambda>E node. Stop node) n"

definition swarmOps :: "simWorld \<Rightarrow> SwarmNode nodeOps" where
  "swarmOps W = \<lparr>opID = snID, opStep = snStep W, opReceive = snReceive W\<rparr>"

subsection \<open>The raw store view\<close>

record rawStoreView =
  rvTopics :: "Topic list"
  rvTopicRecords :: "Topic \<Rightarrow> Record list"
  rvTopicCount :: "Topic \<Rightarrow> nat"
  rvCount :: nat

definition InternalStore :: "nodeImpl \<Rightarrow> rawStoreView" where
  "InternalStore n =
     (let s = store (eng n)
      in \<lparr>rvTopics = Topics s, rvTopicRecords = topicRecordsAll s, rvTopicCount = TopicCount s, rvCount = Count s\<rparr>)"

definition mirrorRecord :: "Record \<Rightarrow> simRecord" where
  "mirrorRecord r =
     \<lparr>srTopic = Topic r, srNodeID = NodeID r, srHLC = HLC r, srBody = Body r, srTombstone = Tombstone r\<rparr>"

definition snRecords :: "SwarmNode \<Rightarrow> (gostring, simRecord list) gomap" where
  "snRecords n =
     (let v = InternalStore (snNode n)
      in foldl (\<lambda>m t. AList.update t (map mirrorRecord (rvTopicRecords v t)) m) [] (rvTopics v))"

end
