(* ===== verification/Swarm_Mesh.thy ===== *)
theory Swarm_Mesh
  imports Swarm_Sim Crdt_Advance
begin

text \<open>
  Meshes of real nodes: \<open>Swarm_Sim\<close> implements the \<open>sim_node\<close> contract of \<open>Mesh\<close>, so what the node and
  the engines guarantee holds throughout every simulation, and what a node pushes to a peer is in
  the peer's store once the edge's delay has passed.
\<close>

lemma hexTable_digit:
  assumes "b < (16 :: byte)"
  shows "hexTable ! unat b = hexDigit b"
proof -
  have "\<forall>k\<in>set [0..<16]. hexTable ! k = hexDigit (word_of_nat k)"
    by (simp add: upt_rec hexTable_def str_def hexDigit_def)
  moreover have "unat b \<in> set [0..<16]" using assms by (simp add: word_less_nat_alt)
  ultimately show ?thesis by fastforce
qed

text \<open>The simulator's copy of the NodeID encoding is the one of \<open>sig.go\<close>.\<close>

lemma simNodeIDFromPub_eq: "simNodeIDFromPub pub = nodeIDFromPub pub"
  by (simp add: simNodeIDFromPub_def nodeIDFromPub_def hexTable_digit nibbles_of_byte)

subsection \<open>What a call on a node keeps\<close>

definition carries :: "runContext \<Rightarrow> nodeImpl \<Rightarrow> nodeImpl \<Rightarrow> bool" where
  "carries R n n' \<longleftrightarrow> kept R n n' \<and> (nodeOK R n \<longrightarrow> advanced (store (eng n)) (store (eng n')))"

lemma carries_refl [simp]: "carries R n n"
  by (simp add: carries_def kept_refl)

lemma carries_trans: "carries R n n1 \<Longrightarrow> carries R n1 n2 \<Longrightarrow> carries R n n2"
  unfolding carries_def using kept_trans advanced_trans by (meson kept_def)

lemma nodeOK_wf: "nodeOK R n \<Longrightarrow> wf_store (store (eng n))"
  by (simp add: nodeOK_def engineOK_def)

lemma advanced_quorum: "advanced s s' \<Longrightarrow> observerQuorum s' = observerQuorum s"
  unfolding advanced_def by (blast dest: storeConfigD(1))

text \<open>A kept call that applies at most one record to the store.\<close>

lemma carries_apply:
  assumes "kept R n n'"
    and "store (eng n') = store (eng n) \<or> (\<exists>nw r. store (eng n') = fst (ApplyExt (store (eng n)) nw r))"
  shows "carries R n n'"
  using assms ApplyExt_advanced [OF nodeOK_wf] by (auto simp: carries_def)

lemma dispatch_fields:
  "store (eng (dispatchApplied n)) = store (eng n)" "stopped (dispatchApplied n) = stopped n"
proof -
  have "eng (foldl (\<lambda>n c. case c of OnApplied r \<Rightarrow> recordAccepted n r | _ \<Rightarrow> n) n cs) = eng n \<and>
      stopped (foldl (\<lambda>n c. case c of OnApplied r \<Rightarrow> recordAccepted n r | _ \<Rightarrow> n) n cs) = stopped n" for n cs
    by (induction cs arbitrary: n) (simp_all split: callback.split)
  then show "store (eng (dispatchApplied n)) = store (eng n)" "stopped (dispatchApplied n) = stopped n"
    by (simp_all add: dispatchApplied_def Let_def)
qed

lemma OnReceive_fields:
  "store (eng (OnReceive E n from raw)) =
     (if stopped n then store (eng n)
      else applyAll (store (eng n)) (map (Pair (nowMs E)) (filter (acceptable E (gate (eng n))) (inboundRecords E (eng n) raw))))"
  "stopped (OnReceive E n from raw) = stopped n"
  by (simp_all add: OnReceive_def dispatch_fields ReceiveFrame_store)

lemma publishSigned_store:
  "store (eng (fst (publishSigned E n r))) = store (eng n) \<or>
     (\<exists>nw r'. store (eng (fst (publishSigned E n r))) = fst (ApplyExt (store (eng n)) nw r'))"
  by (auto simp: publishSigned_def)

lemma Publish_store:
  "store (eng (fst (PublishKeyed E n topic key body))) = store (eng n) \<or>
     (\<exists>nw r. store (eng (fst (PublishKeyed E n topic key body))) = fst (ApplyExt (store (eng n)) nw r))"
  "store (eng (fst (PublishKeyedTombstone E n topic key))) = store (eng n) \<or>
     (\<exists>nw r. store (eng (fst (PublishKeyedTombstone E n topic key))) = fst (ApplyExt (store (eng n)) nw r))"
  "store (eng (fst (PublishObserverTombstone E n topic target))) = store (eng n) \<or>
     (\<exists>nw r. store (eng (fst (PublishObserverTombstone E n topic target))) = fst (ApplyExt (store (eng n)) nw r))"
proof -
  have "store (eng (fst (stampHLC E n))) = store (eng n)" by (simp add: stampHLC_eq)
  with publishSigned_store [of E "fst (stampHLC E n)"]
  show "store (eng (fst (PublishKeyed E n topic key body))) = store (eng n) \<or>
     (\<exists>nw r. store (eng (fst (PublishKeyed E n topic key body))) = fst (ApplyExt (store (eng n)) nw r))"
    "store (eng (fst (PublishKeyedTombstone E n topic key))) = store (eng n) \<or>
     (\<exists>nw r. store (eng (fst (PublishKeyedTombstone E n topic key))) = fst (ApplyExt (store (eng n)) nw r))"
    by (simp_all add: PublishKeyed_def PublishKeyedTombstone_def case_prod_beta Let_def)
  show "store (eng (fst (PublishObserverTombstone E n topic target))) = store (eng n) \<or>
     (\<exists>nw r. store (eng (fst (PublishObserverTombstone E n topic target))) = fst (ApplyExt (store (eng n)) nw r))"
    by (auto simp: PublishObserverTombstone_def stampHLC_eq Let_def)
qed

lemma Pause_store: "store (eng (Pause n)) = store (eng n)" "store (eng (Resume n)) = store (eng n)"
  by (simp_all add: Pause_def Resume_def setEnginePaused_def merkleSetPaused_def plumSetPaused_def Let_def)

lemma carries_calls:
  assumes "cr E = runCrypto R" and "ed25519_ok (runCrypto R)"
  shows "during R E \<Longrightarrow> carries R n (OnReceive E n from raw)" and "carries R n (Tick E n now)"
    and "carries R n (OnPeerJoin E n i)" and "carries R n (Stop n)"
    and "carries R n (fst (PublishKeyed E n topic key body))"
    and "carries R n (fst (PublishKeyedTombstone E n topic key))"
    and "carries R n (fst (PublishObserverTombstone E n topic target))"
    and "carries R n (Pause n)" and "carries R n (Resume n)"
proof -
  note step = node_step_kept [OF _ assms(2)]
  show "carries R n (OnReceive E n from raw)" if "during R E"
    using step [OF receive_frame [OF that]] applyAll_advanced nodeOK_wf by (auto simp: carries_def OnReceive_fields)
  show "carries R n (Tick E n now)" using step [OF tick [OF assms(1)]] by (simp add: carries_def Tick_def)
  show "carries R n (OnPeerJoin E n i)" using step [OF peer_join] by (simp add: carries_def OnPeerJoin_def)
  show "carries R n (Stop n)" using step [OF stop] by (simp add: carries_def Stop_def)
  show "carries R n (Pause n)" "carries R n (Resume n)"
    using step [OF pause_node] step [OF resume_node] by (simp_all add: carries_def Pause_store)
  show "carries R n (fst (PublishKeyed E n topic key body))"
    by (rule carries_apply [OF step [OF publish_keyed [OF assms(1)]] Publish_store(1)])
  show "carries R n (fst (PublishKeyedTombstone E n topic key))"
    by (rule carries_apply [OF step [OF publish_tombstone [OF assms(1)]] Publish_store(2)])
  show "carries R n (fst (PublishObserverTombstone E n topic target))"
    by (rule carries_apply [OF step [OF publish_observer [OF assms(1)]] Publish_store(3)])
qed

lemma carries_advert:
  assumes "cr E = runCrypto R" and "ed25519_ok (runCrypto R)"
  shows "carries R n (fst (Announce E K n c h))" and "carries R n (fst (Withdraw E K n h))"
  using carries_calls(5) [OF assms]
  by (simp_all add: Announce_def Withdraw_def publishAdvert_def Publish_def Let_def split: option.split)

subsection \<open>What a call on a simulated node keeps\<close>

lemma simSend_fields [simp]:
  "snID (foldl simSend n xs) = snID n" "snNode (foldl simSend n xs) = snNode n"
  "peerByID (foldl simSend n xs) = peerByID n" "virtTime (foldl simSend n xs) = virtTime n"
  "snReads (foldl simSend n xs) = snReads n"
  by (induction xs arbitrary: n) (simp_all add: simSend_def split: option.split)

lemma serveCalls_node:
  "carries C (fst nc) (fst (serveCalls E nc))" "stopped (fst (serveCalls E nc)) = stopped (fst nc)"
proof -
  have frame: "carries C node (node\<lparr>eng := (eng node)\<lparr>sent := x\<rparr>\<rparr>)" "carries C node (node\<lparr>eng := (eng node)\<lparr>calls := y\<rparr>\<rparr>)" for node x y
    by (simp_all add: carries_def kept_def nodeOK_def identity_def subsOK_def)
  have one: "carries C (fst nc) (fst (serveCall E nc c)) \<and> stopped (fst (serveCall E nc c)) = stopped (fst nc)" for nc c
    using frame by (cases c) (simp_all add: serveCall_def handleFetchRequest_def sendFrame_def split: option.split)
  have many: "carries C (fst nc) (fst (foldl (serveCall E) nc cs)) \<and>
      stopped (fst (foldl (serveCall E) nc cs)) = stopped (fst nc)" for cs
  proof (induction cs arbitrary: nc)
    case (Cons c cs)
    from Cons [of "serveCall E nc c"] one [of nc c] carries_trans show ?case by auto
  qed simp
  from many frame carries_trans show "carries C (fst nc) (fst (serveCalls E nc))"
    "stopped (fst (serveCalls E nc)) = stopped (fst nc)"
    by (simp_all add: serveCalls_def Let_def case_prod_beta) blast
qed

lemma serveCalls_store: "store (eng (fst (serveCalls E nc))) = store (eng (fst nc))"
proof -
  have one: "store (eng (fst (serveCall E nc c))) = store (eng (fst nc))" for nc c
    by (cases c) (simp_all add: serveCall_def handleFetchRequest_def sendFrame_def split: option.split)
  have "store (eng (fst (foldl (serveCall E) nc cs))) = store (eng (fst nc))" for cs
    by (induction cs arbitrary: nc) (simp_all add: one)
  then show ?thesis by (simp add: serveCalls_def Let_def case_prod_beta)
qed

lemma snCall_fields [simp]:
  "snID (snCall W f n) = snID n" "peerByID (snCall W f n) = peerByID n"
  "stopped (snNode (snCall W f n)) = stopped (f (snEnv W n) (snNode n))"
  "store (eng (snNode (snCall W f n))) = store (eng (f (snEnv W n) (snNode n)))"
  by (simp_all add: snCall_def Let_def case_prod_beta serveCalls_node(2) serveCalls_store)

lemma snEnv_crypto [simp]: "cr (snEnv W n) = wCrypto W"
  by (simp add: snEnv_def)

lemma snCall_carries:
  assumes "carries R (snNode n) (f (snEnv W n) (snNode n))"
  shows "carries R (snNode n) (snNode (snCall W f n))"
proof -
  have frame: "carries R node (node\<lparr>eng := (eng node)\<lparr>sent := []\<rparr>\<rparr>)" for node
    by (simp add: carries_def kept_def nodeOK_def identity_def subsOK_def)
  define nc where "nc = (f (snEnv W n) (snNode n), indexAdverts (snEnv W n) (wContent W)
      (drop (length (events (snNode n))) (events (f (snEnv W n) (snNode n)))) (snContent n))"
  have "snNode (snCall W f n) = (fst (serveCalls (snEnv W n) nc))\<lparr>eng := (eng (fst (serveCalls (snEnv W n) nc)))\<lparr>sent := []\<rparr>\<rparr>"
    by (simp add: snCall_def Let_def case_prod_beta nc_def)
  moreover have "carries R (snNode n) (fst nc)" using assms by (simp add: nc_def)
  ultimately show ?thesis using carries_trans [OF carries_trans [OF _ serveCalls_node(1)] frame] by simp
qed

text \<open>
  The run a simulated node is in: it publishes what it signs itself, handles frames at the readings
  its clock gives, and keeps its quorum.
\<close>

definition simRun :: "simWorld \<Rightarrow> SwarmNode \<Rightarrow> runContext" where
  "simRun W n = nodeRun (wCrypto W) (snNode n) (range (wClock W (snID n))) (observerQuorum (store (eng (snNode n))))"

lemma simRun_crypto [simp]: "runCrypto (simRun W n) = wCrypto W"
  by (simp add: simRun_def)

lemma during_simRun: "snID n' = snID n \<Longrightarrow> during (simRun W n) (snEnv W n')"
  by (simp add: during_def simRun_def snEnv_def)

text \<open>What the environment of a simulated node can rely on: who it is, whom it knows, whether it stopped.\<close>

type_synonym simProfile = "(NodeID, simID) gomap \<times> bool \<times>
  (Config \<times> bytes \<times> NodeID \<times> (NodeID \<times> int \<times> int \<times> inboundGate option))"

definition profile :: "SwarmNode \<Rightarrow> simProfile" where
  "profile n = (peerByID n, stopped (snNode n), identity (snNode n))"

definition simOK :: "simWorld \<Rightarrow> (simID \<Rightarrow> simProfile option) \<Rightarrow> simID \<Rightarrow> SwarmNode \<Rightarrow> bool" where
  "simOK W K i n \<longleftrightarrow> ed25519_ok (wCrypto W) \<and> snID n = i \<and> nodeOK (simRun W n) (snNode n) \<and>
     (\<forall>p. K i = Some p \<longrightarrow> profile n = p)"

definition passed :: "(recordStore \<Rightarrow> bool) \<Rightarrow> SwarmNode \<Rightarrow> bool" where
  "passed P n \<longleftrightarrow> (\<exists>s. P s \<and> advanced s (store (eng (snNode n))))"

lemma simRun_carried:
  assumes "nodeOK (simRun W n) (snNode n)" and "carries (simRun W n) (snNode n) (snNode n')" and "snID n' = snID n"
  shows "simRun W n' = simRun W n"
proof -
  have ident: "identity (snNode n') = identity (snNode n)"
    and adv: "advanced (store (eng (snNode n))) (store (eng (snNode n')))"
    using assms(1,2) by (simp_all add: carries_def kept_def)
  have "priv (snNode n') = priv (snNode n)" "nid (snNode n') = nid (snNode n)"
    using ident by (simp_all add: identity_def)
  with advanced_quorum [OF adv] assms(3) show ?thesis by (simp add: simRun_def nodeRun_def)
qed

lemma simOK_carried:
  assumes "simOK W K i n" and "carries (simRun W n) (snNode n) (snNode n')" and "snID n' = snID n"
  shows "simOK W Map.empty i n'" and "passed P n \<Longrightarrow> passed P n'"
    and "peerByID n' = peerByID n \<Longrightarrow> stopped (snNode n') = stopped (snNode n) \<Longrightarrow> simOK W K i n'"
proof -
  have ok: "nodeOK (simRun W n) (snNode n)" using assms(1) by (simp add: simOK_def)
  note run = simRun_carried [OF ok assms(2,3)]
  have keep: "nodeOK (simRun W n') (snNode n')" "identity (snNode n') = identity (snNode n)"
    "advanced (store (eng (snNode n))) (store (eng (snNode n')))"
    using assms(2) ok unfolding run by (simp_all add: carries_def kept_def)
  show "simOK W Map.empty i n'" using keep(1) assms(1,3) by (simp add: simOK_def)
  show "passed P n \<Longrightarrow> passed P n'" using keep(3) advanced_trans by (auto simp: passed_def)
  show "peerByID n' = peerByID n \<Longrightarrow> stopped (snNode n') = stopped (snNode n) \<Longrightarrow> simOK W K i n'"
    using keep(1,2) assms(1,3) by (auto simp: simOK_def profile_def)
qed

lemma snStep_fields:
  "snID (fst (snStep W now n)) = snID n" "peerByID (fst (snStep W now n)) = peerByID n"
  "stopped (snNode (fst (snStep W now n))) = stopped (snNode n)"
  by (simp_all add: snStep_def DrainOutbound_def Tick_def Let_def)

lemma snStep_carries:
  assumes "ed25519_ok (wCrypto W)"
  shows "carries (simRun W n) (snNode n) (snNode (fst (snStep W now n)))"
  using snCall_carries [of "simRun W n" "n\<lparr>virtTime := now\<rparr>" "\<lambda>E node. Tick E node (now * millisecond)" W]
    carries_calls(2) [where R = "simRun W n" and E = "snEnv W (n\<lparr>virtTime := now\<rparr>)"] assms
  by (simp add: snStep_def DrainOutbound_def Let_def)

lemma snReceive_fields:
  "snID (fst (snReceive W now n f)) = snID n" "peerByID (fst (snReceive W now n f)) = peerByID n"
  "stopped (snNode (fst (snReceive W now n f))) = stopped (snNode n)"
  by (simp_all add: snReceive_def DeliverInbound_def OnReceive_fields split: option.split)

lemma snReceive_carries:
  assumes "ed25519_ok (wCrypto W)"
  shows "carries (simRun W n) (snNode n) (snNode (fst (snReceive W now n f)))"
  using snCall_carries [of "simRun W n" n "\<lambda>E node. OnReceive E node _ (fBody f)" W]
    carries_calls(1) [where R = "simRun W n" and E = "snEnv W n"] during_simRun [of n n W] assms
  by (simp add: snReceive_def DeliverInbound_def split: option.split)

interpretation swarm: sim_node "swarmOps W" "simOK W K" "\<lambda>_. True" "passed P" for W K P
proof unfold_locales
  fix i n now and f :: simFrame
  assume ok: "simOK W K i n"
  then have ed: "ed25519_ok (wCrypto W)" by (simp add: simOK_def)
  note s = simOK_carried [OF ok snStep_carries [OF ed, of n now] snStep_fields(1)]
  note r = simOK_carried [OF ok snReceive_carries [OF ed, of n now f] snReceive_fields(1)]
  show "simOK W K i (fst (opStep (swarmOps W) now n))" using s(3) by (simp add: swarmOps_def snStep_fields)
  show "simOK W K i (fst (opReceive (swarmOps W) now n f))" using r(3) by (simp add: swarmOps_def snReceive_fields)
  show "passed P n \<Longrightarrow> passed P (fst (opStep (swarmOps W) now n))" using s(2) by (simp add: swarmOps_def)
  show "passed P n \<Longrightarrow> passed P (fst (opReceive (swarmOps W) now n f))" using r(2) by (simp add: swarmOps_def)
qed simp

subsection \<open>Simulated meshes\<close>

text \<open>The node's methods a test calls besides those the bridge wraps.\<close>

inductive sim_call :: "simWorld \<Rightarrow> SwarmNode \<Rightarrow> (env \<Rightarrow> nodeImpl \<Rightarrow> nodeImpl) \<Rightarrow> bool" for W n where
  keyed: "sim_call W n (\<lambda>E node. fst (PublishKeyed E node topic key body))"
| tombstone: "sim_call W n (\<lambda>E node. fst (PublishKeyedTombstone E node topic key))"
| observer: "sim_call W n (\<lambda>E node. fst (PublishObserverTombstone E node topic target))"
| paused: "sim_call W n (\<lambda>E node. Pause node)"
| resumed: "sim_call W n (\<lambda>E node. Resume node)"
| announce: "sim_call W n (\<lambda>E node. fst (Announce E (wContent W) node (snContent n) h))"
| withdraw: "sim_call W n (\<lambda>E node. fst (Withdraw E (wContent W) node h))"

text \<open>
  The meshes a test can build and drive. A provider that is set and fetches under way change the
  content topic's own state and send request frames; \<open>content_work\<close> allows any such change and any
  frames.
\<close>

inductive simulated :: "simWorld \<Rightarrow> 'g rngOps \<Rightarrow> (SwarmNode, 'g) Mesh \<Rightarrow> bool" for W R where
  new_mesh: "simulated W R (NewMesh seed)"
| add_node: "simulated W R m \<Longrightarrow> NewSwarmNode W i = Some n \<Longrightarrow> simulated W R (AddNode (swarmOps W) m n)"
| add_edge: "simulated W R m \<Longrightarrow> simulated W R (AddEdge m e)"
| register_peer: "simulated W R m \<Longrightarrow> map_of (meshNodes m) i = Some n \<Longrightarrow>
    simulated W R (m\<lparr>meshNodes := AList.update i (RegisterPeer W n j swarmID) (meshNodes m)\<rparr>)"
| publish_record: "simulated W R m \<Longrightarrow> map_of (meshNodes m) i = Some n \<Longrightarrow>
    simulated W R (m\<lparr>meshNodes := AList.update i (snPublish W n topic h body) (meshNodes m)\<rparr>)"
| node_call: "simulated W R m \<Longrightarrow> map_of (meshNodes m) i = Some n \<Longrightarrow> sim_call W n f \<Longrightarrow>
    simulated W R (m\<lparr>meshNodes := AList.update i (snCall W f n) (meshNodes m)\<rparr>)"
| content_work: "simulated W R m \<Longrightarrow> map_of (meshNodes m) i = Some n \<Longrightarrow>
    simulated W R (m\<lparr>meshNodes := AList.update i (foldl simSend (n\<lparr>snContent := c\<rparr>) frames) (meshNodes m)\<rparr>)"
| stop_node: "simulated W R m \<Longrightarrow> map_of (meshNodes m) i = Some n \<Longrightarrow>
    simulated W R (m\<lparr>meshNodes := AList.update i (snStop W n) (meshNodes m)\<rparr>)"
| mesh_step: "simulated W R m \<Longrightarrow> simulated W R (fst (meshStep (swarmOps W) R m))"

lemma sim_call_carries:
  assumes "sim_call W n f" and "ed25519_ok (wCrypto W)"
  shows "carries (simRun W n) (snNode n) (snNode (snCall W f n))"
proof -
  note calls = carries_calls [where R = "simRun W n" and E = "snEnv W n", simplified, OF assms(2)]
  note adverts = carries_advert [where R = "simRun W n" and E = "snEnv W n", simplified, OF assms(2)]
  from assms(1) have "carries (simRun W n) (snNode n) (f (snEnv W n) (snNode n))"
    by cases (simp_all only: calls(5-9) adverts)
  then show ?thesis by (rule snCall_carries)
qed

lemma NewSwarmNode_ok:
  assumes "NewSwarmNode W i = Some n" and "ed25519_ok (wCrypto W)"
  shows "simOK W Map.empty i n"
proof -
  obtain pub pk where keys: "wKeys W i = (pub, pk)" by (cases "wKeys W i")
  let ?E = "\<lparr>cr = wCrypto W, wr = wWire W, clk_now = 0, clk_wall = wClock W i 0\<rparr>"
  obtain node where new: "New ?E (simConfig (simNodeIDFromPub pub) pk) = Inr node"
    using assms(1) keys by (cases "New ?E (simConfig (simNodeIDFromPub pub) pk)") (simp_all add: NewSwarmNode_def Let_def)
  define n1 where "n1 = fst (Wire ?E node (simNodeIDFromPub pub) [])"
  have ed: "ed25519_ok (cr ?E)" using assms(2) by simp
  then have "\<not> wired node" using New_fields(6) [OF new] by simp
  then have wire: "Wire ?E node (simNodeIDFromPub pub) [] = (n1, Returns None)"
    by (simp add: Wire_def Let_def n1_def)
  have n: "snID n = i" "snNode n = fst (Start n1)"
    using assms(1) keys new wire by (auto simp: NewSwarmNode_def Let_def)
  let ?R = "nodeRun (wCrypto W) node (range (wClock W i)) DefaultObserverQuorum"
  note ok = Wire_nodeOK [OF new wire ed order_refl, where walls = "range (wClock W i)"]
  have "nodeOK ?R (snNode n)" "identity (snNode n) = identity n1"
    using ok kept_life(1) [of ?R n1] by (simp_all add: n(2) kept_def)
  moreover have "simRun W n = ?R"
    using ok \<open>identity (snNode n) = identity n1\<close>
    by (simp add: simRun_def nodeRun_def n identity_def) (simp add: Start_def)
  ultimately show ?thesis using assms(2) n(1) by (simp add: simOK_def)
qed

lemma simulated_ok:
  assumes "simulated W R m" and ed: "ed25519_ok (wCrypto W)"
  shows "meshOK (simOK W Map.empty) (\<lambda>_. True) m"
  using assms(1)
proof induction
  case new_mesh
  show ?case by (simp add: meshOK_def wf_NewMesh) (simp add: NewMesh_def)
next
  case (add_node m i n)
  from meshOK_update [OF add_node.IH NewSwarmNode_ok [OF add_node.hyps(2) ed]] NewSwarmNode_ok [OF add_node.hyps(2) ed]
  show ?case by (simp add: AddNode_def swarmOps_def simOK_def)
next
  case (add_edge m e)
  then show ?case by (simp add: meshOK_def wf_mesh_def)
next
  case (register_peer m i n j swarmID)
  let ?n = "n\<lparr>simPeers := simPeers n @ [swarmID], peerByID := AList.update swarmID j (peerByID n)\<rparr>"
  have ok: "simOK W Map.empty i n" using register_peer by (simp add: meshOK_def)
  have "carries (simRun W n) (snNode n) (snNode (RegisterPeer W n j swarmID))"
    using snCall_carries [of "simRun W n" ?n "\<lambda>E node. OnPeerJoin E node swarmID" W]
      carries_calls(3) [where R = "simRun W n" and E = "snEnv W ?n"] ed by (simp add: RegisterPeer_def)
  from simOK_carried(1) [OF ok this] show ?case by (intro meshOK_update register_peer.IH) (simp add: RegisterPeer_def)
next
  case (publish_record m i n topic h body)
  have ok: "simOK W Map.empty i n" using publish_record by (simp add: meshOK_def)
  have "carries (simRun W n) (snNode n) (snNode (snPublish W n topic h body))"
    using sim_call_carries [OF keyed ed, of n topic "[]" body] by (simp add: snPublish_def Publish_def)
  from simOK_carried(1) [OF ok this] show ?case by (intro meshOK_update publish_record.IH) (simp add: snPublish_def)
next
  case (node_call m i n f)
  have ok: "simOK W Map.empty i n" using node_call by (simp add: meshOK_def)
  from simOK_carried(1) [OF ok sim_call_carries [OF node_call.hyps(3) ed]] show ?case
    by (intro meshOK_update node_call.IH) simp
next
  case (content_work m i n c frames)
  have "simOK W Map.empty i n" using content_work by (simp add: meshOK_def)
  from simOK_carried(1) [OF this, of "foldl simSend (n\<lparr>snContent := c\<rparr>) frames"] show ?case
    by (intro meshOK_update content_work.IH) simp
next
  case (stop_node m i n)
  have ok: "simOK W Map.empty i n" using stop_node by (simp add: meshOK_def)
  have "carries (simRun W n) (snNode n) (snNode (snStop W n))"
    using snCall_carries [of "simRun W n" n "\<lambda>E node. Stop node" W]
      carries_calls(4) [where R = "simRun W n" and E = "snEnv W n"] ed by (simp add: snStop_def)
  from simOK_carried(1) [OF ok this] show ?case by (intro meshOK_update stop_node.IH) (simp add: snStop_def)
next
  case (mesh_step m)
  then show ?case by (intro swarm.step_keeps)
qed

text \<open>The state a simulation is in, remembered as the profile every node keeps.\<close>

abbreviation profiles :: "(SwarmNode, 'g) Mesh \<Rightarrow> simID \<Rightarrow> simProfile option" where
  "profiles m \<equiv> \<lambda>i. map_option profile (map_of (meshNodes m) i)"

lemma simulated_profiles:
  assumes "simulated W R m" and "ed25519_ok (wCrypto W)"
  shows "meshOK (simOK W (profiles m)) (\<lambda>_. True) m"
  using simulated_ok [OF assms] by (auto simp: meshOK_def simOK_def)

subsection \<open>A record that is pushed\<close>

text \<open>With no more peers than the tree degree, every peer is a tree edge of a push.\<close>

lemma bestTreeEdges_all:
  assumes "int (length (ctxBy (peers e))) \<le> treeDeg e"
  shows "set (snd (bestTreeEdges E e)) = mkeys (ctxBy (peers e))"
proof -
  let ?pt = "peers e"
  have len: "length (TreeEdges ?pt) + length (NonTreeEdges ?pt) = length (ctxBy ?pt)"
    using sum_length_filter_compl [of "\<lambda>x. isTreeEdge (snd x)" "ctxBy ?pt"]
    by (simp add: TreeEdges_def NonTreeEdges_def case_prod_unfold)
  have all: "set (TreeEdges ?pt) \<union> set (NonTreeEdges ?pt) = mkeys (ctxBy ?pt)"
    by (force simp: TreeEdges_def NonTreeEdges_def)
  show ?thesis
  proof (cases "int (length (TreeEdges ?pt)) \<ge> treeDeg e")
    case True
    then have "length (NonTreeEdges ?pt) = 0" using len assms by linarith
    with True all show ?thesis by (simp add: bestTreeEdges_def)
  next
    case False
    then have "length (NonTreeEdges ?pt) \<le> nat (treeDeg e - int (length (TreeEdges ?pt)))" using len assms by simp
    with False all show ?thesis by (simp add: bestTreeEdges_def Let_def)
  qed
qed

lemma plumPublish_pushes:
  assumes "fst (snd (ApplyExt (store e) (nowMs E) r))" and "encodeFrame (wr E) (frameEagerPush r (eagerTTL e)) = Some b"
    and "int (length (ctxBy (peers e))) \<le> treeDeg e" and "i \<in> mkeys (ctxBy (peers e))"
  shows "(i, b) \<in> set (sent (plumPublish E e r))"
proof -
  let ?e = "e\<lparr>store := fst (ApplyExt (store e) (nowMs E) r)\<rparr>"
  have "i \<in> set (snd (bestTreeEdges E ?e))" using bestTreeEdges_all [of ?e E] assms(3,4) by simp
  then have "(i, b) \<in> set (sent (eagerPushToTreeEdges E ?e r))"
    using assms(2) by (simp add: eagerPushToTreeEdges_def case_prod_beta sendTo_def)
  moreover have "emits (\<lambda>_. True) (eagerPushToTreeEdges E ?e r) (lazyPushToNonTreeEdges E (eagerPushToTreeEdges E ?e r) r)"
    by (rule emits_lazyPush) simp
  ultimately have "(i, b) \<in> set (sent (lazyPushToNonTreeEdges E (eagerPushToTreeEdges E ?e r) r))"
    by (auto simp: emits_def)
  then show ?thesis using assms(1) by (simp add: plumPublish_def Let_def case_prod_beta Apply_def)
qed

lemma serveCalls_sent: "set (sent (eng (fst nc))) \<subseteq> set (sent (eng (fst (serveCalls E nc))))"
proof -
  have one: "set (sent (eng (fst nc))) \<subseteq> set (sent (eng (fst (serveCall E nc c))))" for nc c
    by (cases c) (auto simp: serveCall_def handleFetchRequest_def sendFrame_def split: option.split)
  have "set (sent (eng (fst nc))) \<subseteq> set (sent (eng (fst (foldl (serveCall E) nc cs))))" for cs
  proof (induction cs arbitrary: nc)
    case (Cons c cs)
    from Cons [of "serveCall E nc c"] one [of nc c] show ?case by auto
  qed simp
  then show ?thesis by (simp add: serveCalls_def Let_def case_prod_beta)
qed

lemma simSend_queues:
  "set (outbound n) \<subseteq> set (outbound (foldl simSend n xs))"
  "(i, b) \<in> set xs \<Longrightarrow> map_of (peerByID n) i = Some p \<Longrightarrow>
     \<lparr>fFrom = snID n, fTo = p, fBody = b\<rparr> \<in> set (outbound (foldl simSend n xs))"
proof -
  have one: "set (outbound n) \<subseteq> set (outbound (simSend n x))" "snID (simSend n x) = snID n"
    "peerByID (simSend n x) = peerByID n" for n x
    by (auto simp: simSend_def split: option.split)
  show mono: "set (outbound n) \<subseteq> set (outbound (foldl simSend n xs))" for n xs
  proof (induction xs arbitrary: n)
    case (Cons x xs)
    from Cons [of "simSend n x"] one(1) [of n x] show ?case by auto
  qed simp
  show "(i, b) \<in> set xs \<Longrightarrow> map_of (peerByID n) i = Some p \<Longrightarrow>
     \<lparr>fFrom = snID n, fTo = p, fBody = b\<rparr> \<in> set (outbound (foldl simSend n xs))"
  proof (induction xs arbitrary: n)
    case (Cons x xs)
    show ?case
    proof (cases "x = (i, b)")
      case True
      with Cons.prems(2) have "\<lparr>fFrom = snID n, fTo = p, fBody = b\<rparr> \<in> set (outbound (simSend n x))" by (simp add: simSend_def)
      then show ?thesis using mono [of "simSend n x" xs] by auto
    next
      case False
      with Cons.prems Cons.IH [of "simSend n x"] one show ?thesis by auto
    qed
  qed simp
qed

lemma snCall_queues:
  "set (outbound n) \<subseteq> set (outbound (snCall W f n))"
  "(i, b) \<in> set (sent (eng (f (snEnv W n) (snNode n)))) \<Longrightarrow> map_of (peerByID n) i = Some p \<Longrightarrow>
     \<lparr>fFrom = snID n, fTo = p, fBody = b\<rparr> \<in> set (outbound (snCall W f n))"
proof -
  show "set (outbound n) \<subseteq> set (outbound (snCall W f n))"
    unfolding snCall_def Let_def case_prod_beta by (rule subset_trans [OF _ simSend_queues(1)]) simp
  assume sent: "(i, b) \<in> set (sent (eng (f (snEnv W n) (snNode n))))" and p: "map_of (peerByID n) i = Some p"
  define nc where "nc = (f (snEnv W n) (snNode n), indexAdverts (snEnv W n) (wContent W)
      (drop (length (events (snNode n))) (events (f (snEnv W n) (snNode n)))) (snContent n))"
  define n1 where "n1 = n\<lparr>snNode := (fst (serveCalls (snEnv W n) nc))\<lparr>eng := (eng (fst (serveCalls (snEnv W n) nc)))\<lparr>sent := []\<rparr>\<rparr>,
      snContent := snd (serveCalls (snEnv W n) nc), snReads := snReads n + 1\<rparr>"
  have "(i, b) \<in> set (sent (eng (fst (serveCalls (snEnv W n) nc))))"
    using sent serveCalls_sent [of nc "snEnv W n"] by (auto simp: nc_def)
  from simSend_queues(2) [OF this, of n1 p] p
  show "\<lparr>fFrom = snID n, fTo = p, fBody = b\<rparr> \<in> set (outbound (snCall W f n))"
    by (simp add: snCall_def Let_def case_prod_beta nc_def n1_def)
qed

lemma snStep_drains: "set (outbound n) \<subseteq> set (fst (snd (snStep W now n)))"
  using snCall_queues(1) [of "n\<lparr>virtTime := now\<rparr>" W] by (simp add: snStep_def DrainOutbound_def Let_def)

subsection \<open>Properties of simulations\<close>

text \<open>The peer has an address for the sender, and has not stopped.\<close>

definition hears :: "SwarmNode \<Rightarrow> simID \<Rightarrow> bool" where
  "hears n a \<longleftrightarrow> \<not> stopped (snNode n) \<and>
     (\<exists>x. List.find (\<lambda>(_, i). i = a) (peerByID n) = Some x \<and> fst x \<noteq> [])"

text \<open>The node's gate admits the record whenever its clock is read.\<close>

definition welcomes :: "simWorld \<Rightarrow> SwarmNode \<Rightarrow> Record \<Rightarrow> bool" where
  "welcomes W n r \<longleftrightarrow> (\<forall>E. cr E = wCrypto W \<and> clk_wall E \<in> range (wClock W (snID n)) \<longrightarrow>
     acceptable E (gate (eng (snNode n))) r)"

lemma snReceive_arrives:
  assumes ok: "simOK W K p n" and K: "K p = Some (profile np)" and np: "snID np = p"
    and hears: "hears np (fFrom f)" and lets: "welcomes W np r" and own: "\<not> IsObserverAttestation r"
    and dec: "decodeFrame (wWire W) (fBody f) = Inr (frameEagerPush r ttl)"
  shows "passed (arrived r) (fst (snReceive W now n f))"
proof -
  let ?E = "snEnv W n" and ?s = "store (eng (snNode n))"
  from ok K np have n: "snID n = snID np" "profile n = profile np" "nodeOK (simRun W n) (snNode n)" by (auto simp: simOK_def)
  obtain peer x where src: "List.find (\<lambda>(_, i). i = fFrom f) (peerByID n) = Some (peer, x)" "peer \<noteq> []" and run: "\<not> stopped (snNode n)"
    using hears n(2) by (auto simp: hears_def profile_def)
  have "map_option gateConfig (gate (eng (snNode n))) = map_option gateConfig (gate (eng (snNode np)))"
    using n(2) by (simp add: profile_def identity_def settings_def)
  moreover have "acceptable ?E (gate (eng (snNode np))) r"
    using lets n(1) by (auto simp: welcomes_def snEnv_def)
  ultimately have acc: "acceptable ?E (gate (eng (snNode n))) r" using acceptable_config by blast
  have "inboundRecords ?E (eng (snNode n)) (fBody f) = [r]"
    using dec by (auto simp: inboundRecords_def decodeFrame_def snEnv_def frameEagerPush_def split: option.splits)
  then have st: "store (eng (OnReceive ?E (snNode n) peer (fBody f))) = fst (ApplyExt ?s (nowMs ?E) r)"
    using acc run by (simp add: OnReceive_fields)
  have ed: "ed25519_ok (wCrypto W)" using ok by (simp add: simOK_def)
  have "store (eng (snNode (fst (snReceive W now n f)))) = store (eng (OnReceive ?E (snNode n) peer (fBody f)))"
    using src by (simp add: snReceive_def DeliverInbound_def)
  moreover have "arrived r (fst (ApplyExt ?s (nowMs ?E) r))" using apply_arrives [OF nodeOK_wf [OF n(3)] own] .
  ultimately show ?thesis unfolding passed_def by (metis advanced_refl st)
qed

text \<open>C12: Simulations of real nodes are safe: whatever mesh of nodes is built, whatever is published, attested,
  announced, paused, registered and stopped, over edges of any latency, jitter and loss, a run of
  any length keeps every node, its identity and key; every slot of its store holds a record of
  that slot that the node signed itself with its key or that passed signature check and gate at
  a reading of the node's clock, or a tombstone a quorum attested; and every slot that was occupied
  at the start of the run holds the same record or a strictly newer one.\<close>

theorem simulation_is_safe:
  assumes "simulated W R m" and "ed25519_ok (wCrypto W)" and "map_of (meshNodes m) i = Some n"
  shows "\<exists>n'. map_of (meshNodes (fst (Run (swarmOps W) R m maxSteps p))) i = Some n' \<and>
    nid (snNode n') = nid (snNode n) \<and> priv (snNode n') = priv (snNode n) \<and> peerByID n' = peerByID n \<and>
    wf_store (store (eng (snNode n'))) \<and>
    (\<forall>t k r. slotMap (store (eng (snNode n'))) t k = Some r \<longrightarrow> keyOf r = k \<and> Topic r = t \<and>
       (legit (simRun W n) (gate (eng (snNode n))) r \<or>
        attested (legit (simRun W n) (gate (eng (snNode n)))) (observerQuorum (store (eng (snNode n)))) r)) \<and>
    (\<forall>t k c. slotMap (store (eng (snNode n))) t k = Some c \<longrightarrow>
       (\<exists>c'. slotMap (store (eng (snNode n'))) t k = Some c' \<and> (c' = c \<or> newer c' c)))"
proof -
  let ?s = "store (eng (snNode n))"
  obtain k where run: "fst (Run (swarmOps W) R m maxSteps p) = meshSteps (swarmOps W) R k m" using Run_steps by blast
  note ok = simulated_profiles [OF assms(1,2)]
  have "passed (\<lambda>s. s = ?s) n" by (simp add: passed_def)
  from swarm.steps_want_keep [OF ok assms(3) this] obtain n' where
    n': "map_of (meshNodes (meshSteps (swarmOps W) R k m)) i = Some n'" and adv: "advanced ?s (store (eng (snNode n')))"
    by (auto simp: passed_def)
  have "simOK W (profiles m) i n'" using swarm.steps_keep [OF ok, of R k] n' by (simp add: meshOK_def)
  then have node: "nodeOK (simRun W n') (snNode n')" and prof: "profile n' = profile n" and id': "snID n' = i"
    using assms(3) by (auto simp: simOK_def)
  have set: "settings (eng (snNode n')) = settings (eng (snNode n))" and own: "nid (snNode n') = nid (snNode n)"
    "priv (snNode n') = priv (snNode n)" "peerByID n' = peerByID n"
    using prof by (simp_all add: profile_def identity_def)
  have "snID n = i" using ok assms(3) by (auto simp: meshOK_def simOK_def)
  with advanced_quorum [OF adv] own id' have same: "simRun W n' = simRun W n" by (simp add: simRun_def nodeRun_def)
  have wf: "wf_store (store (eng (snNode n')))"
    and prov: "provenance (legit (simRun W n) (gate (eng (snNode n)))) (observerQuorum ?s) (store (eng (snNode n')))"
    using node legit_settings [OF set, of "simRun W n"] unfolding same
    by (simp_all add: nodeOK_def engineOK_def) (simp add: simRun_def)
  then have slots: "\<forall>t k r. slotMap (store (eng (snNode n'))) t k = Some r \<longrightarrow> keyOf r = k \<and> Topic r = t \<and>
       (legit (simRun W n) (gate (eng (snNode n))) r \<or>
        attested (legit (simRun W n) (gate (eng (snNode n)))) (observerQuorum ?s) r)"
    using slotMap_wf by (simp add: provenance_def)
  show ?thesis using run n' own wf slots advancedD [OF adv] by simp
qed

text \<open>C11: A publish on a real node reaches its peers: when a node of a simulated mesh with no more peers than
  its tree degree publishes a record its store takes, then after the delay of a loss-free edge to a
  peer plus one step, whatever else happens on the mesh, the peer's store holds the record in its
  slot or one the record does not supersede, unless a cap of that store has been reached. The peer
  must know the sender, not be stopped, and its gate must admit the record.\<close>

theorem simulated_publish_arrives:
  assumes "simulated W R m" and "ed25519_ok (wCrypto W)" and "rng_ok R"
    and "map_of (meshNodes m) a = Some na" and "map_of (meshNodes m) p = Some np" and "a \<noteq> p"
    and "\<not> stopped (snNode na)" and "int (length body) \<le> cfg_MaxRecordBytes (cfg (snNode na))"
    and "r = publishedRecord (snEnv W na) (snNode na) topic [] body"
    and "fst (snd (ApplyExt (store (eng (snNode na))) (nowMs (snEnv W na)) r))"
    and "int (length (ctxBy (peers (eng (snNode na))))) \<le> treeDeg (eng (snNode na))"
    and "i \<in> mkeys (ctxBy (peers (eng (snNode na))))" and "map_of (peerByID na) i = Some p"
    and "wire_ok (wWire W) (frameEagerPush r (eagerTTL (eng (snNode na))))"
    and "hears np a" and "welcomes W np r"
    and "\<And>b. edgeOf (edges m) \<lparr>fFrom = a, fTo = p, fBody = b\<rparr> = Some e" and "LossPct e \<le> 0" and "1 + slowest e \<le> int k"
  shows "\<exists>np'. map_of (meshNodes (meshSteps (swarmOps W) R k
      (m\<lparr>meshNodes := AList.update a (snPublish W na topic h body) (meshNodes m)\<rparr>))) p = Some np' \<and>
    (hasRecord r (store (eng (snNode np'))) \<or> \<not> fits (store (eng (snNode np'))) 1)"
proof -
  let ?na = "snPublish W na topic h body" and ?E = "snEnv W na"
  let ?m = "m\<lparr>meshNodes := AList.update a ?na (meshNodes m)\<rparr>"
  let ?ttl = "eagerTTL (eng (snNode na))"
  note ok0 = simulated_ok [OF assms(1,2)]
  have na: "snID na = a" "wired (snNode na)" and np: "snID np = p"
    using ok0 assms(4,5) by (auto simp: meshOK_def simOK_def nodeOK_def)
  obtain b where enc: "encodeFrame (wWire W) (frameEagerPush r ?ttl) = Some b"
    using assms(14) by (auto simp: wire_ok_def encodeFrame_def)
  have dec: "decodeFrame (wWire W) b = Inr (frameEagerPush r ?ttl)" using wire_ok_decode [OF assms(14) enc] .
  let ?f = "\<lparr>fFrom = a, fTo = p, fBody = b\<rparr>"
  let ?e = "(eng (snNode na))\<lparr>hlc := now_next (hlc (eng (snNode na))) (wallMs ?E)\<rparr>"
  have "(i, b) \<in> set (sent (plumPublish ?E ?e r))"
    using assms(10-12) enc by (intro plumPublish_pushes) (simp_all add: snEnv_def)
  moreover have "eng (fst (Publish ?E (snNode na) topic body)) = plumPublish ?E ?e r"
    using PublishKeyed_eq [OF na(2) assms(7,8), of "[]" ?E topic] assms(9) by (simp add: Publish_def)
  ultimately have "?f \<in> set (outbound ?na)"
    using snCall_queues(2) [of i b "\<lambda>E node. fst (Publish E node topic body)" W na p] assms(13) na(1)
    by (simp add: snPublish_def)
  then have f: "?f \<in> set (fst (snd (opStep (swarmOps W) (meshNow ?m + 1) ?na)))"
    using snStep_drains [of ?na W] by (auto simp: swarmOps_def)
  have sim: "simulated W R ?m" using publish_record [OF assms(1,4)] .
  note ok = simulated_profiles [OF sim assms(2)]
  have nodes: "map_of (meshNodes ?m) a = Some ?na" "map_of (meshNodes ?m) (fTo ?f) = Some np"
    using assms(5,6) by (simp_all add: update_conv')
  have K: "profiles ?m (fTo ?f) = Some (profile np)" using nodes(2) by simp
  have "passed (arrived r) (fst (opReceive (swarmOps W) now n ?f))" if "simOK W (profiles ?m) (fTo ?f) n" for n now
    using snReceive_arrives [OF that K _ _ assms(16), of ?f ?ttl now] np dec assms(15) by (simp add: swarmOps_def assms(9))
  from swarm.output_arrives [OF ok assms(3) nodes(1) f _ assms(18) nodes(2) this assms(19)] assms(17) [of b]
  obtain np' where np': "map_of (meshNodes (meshSteps (swarmOps W) R k ?m)) (fTo ?f) = Some np'" "passed (arrived r) np'"
    by auto
  have "simOK W (profiles ?m) (fTo ?f) np'"
    using swarm.steps_keep [OF ok, of R k] np'(1) unfolding meshOK_def by blast
  then have "wf_store (store (eng (snNode np')))" by (auto simp: simOK_def intro: nodeOK_wf)
  with np'(2) arrived_advanced have "arrived r (store (eng (snNode np')))" by (auto simp: passed_def)
  with np'(1) show ?thesis by (auto simp: arrived_def)
qed

subsection \<open>A fresh node\<close>

lemma NewSwarmNode_fields:
  assumes "length (snd (wKeys W i)) = PrivateKeySize" and "simNodeIDFromPub (fst (wKeys W i)) \<noteq> []"
  shows "\<exists>n. NewSwarmNode W i = Some n \<and> snID n = i \<and> peerByID n = [] \<and> \<not> stopped (snNode n) \<and>
    nid (snNode n) = simNodeIDFromPub (fst (wKeys W i)) \<and>
    cfg_MaxRecordBytes (cfg (snNode n)) = 16384 \<and> store (eng (snNode n)) = newRecordStore \<and>
    ctxBy (peers (eng (snNode n))) = [] \<and> treeDeg (eng (snNode n)) = 4 \<and> eagerTTL (eng (snNode n)) = 8 \<and>
    gate (eng (snNode n)) = Some (newInboundGate (cfg (snNode n))) \<and> hlc (eng (snNode n)) = NewHLC (UnixMilli (wClock W i 0)) \<and>
    calls (eng (snNode n)) = [] \<and> priv (snNode n) = snd (wKeys W i) \<and> cfg_MaxClockSkew (cfg (snNode n)) = 0 \<and>
    \<not> cfg_RequireNodeKeyBinding (cfg (snNode n)) \<and> cfg_TrustCheck (cfg (snNode n)) = None"
  using assms
  by (simp add: NewSwarmNode_def case_prod_beta Let_def New_def simConfig_def Wire_def Start_def Subscribe_def
      subRegister_def finishReplay_def newPlumtrees_def SetMerkle_def SetMaxPendingIHaves_def SetInboundGate_def newPeerTable_def newRecordStore_def setCaps_def)

text \<open>Two nodes that know each other, with one edge.\<close>

definition pairID :: "byte \<Rightarrow> NodeID" where
  "pairID c = simNodeIDFromPub (replicate 32 c)"

definition pairRecord :: Record where
  "pairRecord = signRecord sampleCrypto (zero_record\<lparr>Topic := [116], NodeID := pairID 97, Key := [],
     HLC := now_next (NewHLC 2000) 2000, Body := [5]\<rparr>) (replicate 64 97)"

definition pairWorld :: simWorld where
  "pairWorld =
     \<lparr>wCrypto = sampleCrypto, wWire = sampleWire [frameEagerPush pairRecord 8],
      wContent = \<lparr>MarshalAdvert = (\<lambda>_. None), UnmarshalAdvert = (\<lambda>_. None), MarshalManifest = (\<lambda>_. None),
        UnmarshalManifest = (\<lambda>_. None)\<rparr>,
      wKeys = (\<lambda>i. (replicate 32 (hd i), replicate 64 (hd i))), wClock = (\<lambda>_ _. 2000 * millisecond)\<rparr>"

definition freshNode :: "simID \<Rightarrow> SwarmNode" where
  "freshNode i = the (NewSwarmNode pairWorld i)"

definition pairNode :: "simID \<Rightarrow> simID \<Rightarrow> SwarmNode" where
  "pairNode i j = RegisterPeer pairWorld (freshNode i) j (pairID (hd j))"

definition pairMesh :: "(SwarmNode, nat) Mesh" where
  "pairMesh =
     AddEdge (NewMesh 0 \<lparr>meshNodes := [([97], pairNode [97] [98]), ([98], pairNode [98] [97])]\<rparr>)
       (plainEdge 5 2 0 [97] [98])"

lemma pairID_ne: "pairID c \<noteq> []"
  by (simp add: pairID_def simNodeIDFromPub_def)

lemma freshNode_fields:
  "NewSwarmNode pairWorld i = Some (freshNode i)" "snID (freshNode i) = i" "peerByID (freshNode i) = []"
  "\<not> stopped (snNode (freshNode i))" "nid (snNode (freshNode i)) = pairID (hd i)"
  "cfg_MaxRecordBytes (cfg (snNode (freshNode i))) = 16384" "store (eng (snNode (freshNode i))) = newRecordStore"
  "ctxBy (peers (eng (snNode (freshNode i)))) = []" "treeDeg (eng (snNode (freshNode i))) = 4"
  "eagerTTL (eng (snNode (freshNode i))) = 8"
  "gate (eng (snNode (freshNode i))) = Some (newInboundGate (cfg (snNode (freshNode i))))"
  "hlc (eng (snNode (freshNode i))) = NewHLC 2000" "calls (eng (snNode (freshNode i))) = []"
  "priv (snNode (freshNode i)) = replicate 64 (hd i)" "cfg_MaxClockSkew (cfg (snNode (freshNode i))) = 0"
  "\<not> cfg_RequireNodeKeyBinding (cfg (snNode (freshNode i)))" "cfg_TrustCheck (cfg (snNode (freshNode i))) = None"
  using NewSwarmNode_fields [of pairWorld i] pairID_ne [of "hd i"]
  by (auto simp: freshNode_def pairWorld_def pairID_def PrivateKeySize_def UnixMilli_def millisecond_def)

lemma pairMesh_simulated: "simulated pairWorld R pairMesh"
proof -
  let ?m = "AddNode (swarmOps pairWorld) (AddNode (swarmOps pairWorld) (NewMesh (0 :: nat)) (freshNode [97])) (freshNode [98])"
  have m: "meshNodes ?m = [([97], freshNode [97]), ([98], freshNode [98])]"
    by (simp add: AddNode_def swarmOps_def freshNode_fields NewMesh_def)
  have "simulated pairWorld R ?m"
    by (rule add_node [OF add_node [OF new_mesh freshNode_fields(1)] freshNode_fields(1)])
  from register_peer [OF this, of "[97]" "freshNode [97]" "[98]" "pairID 98"] m
  have "simulated pairWorld R (?m\<lparr>meshNodes := [([97], pairNode [97] [98]), ([98], freshNode [98])]\<rparr>)"
    by (simp add: pairNode_def)
  from add_edge [OF register_peer [OF this, of "[98]" "freshNode [98]" "[97]" "pairID 97"]]
  have "simulated pairWorld R (AddEdge (?m\<lparr>meshNodes := [([97], pairNode [97] [98]), ([98], pairNode [98] [97])]\<rparr>)
      (plainEdge 5 2 0 [97] [98]))" by (simp add: pairNode_def)
  moreover have "?m\<lparr>meshNodes := x\<rparr> = NewMesh (0 :: nat) \<lparr>meshNodes := x\<rparr>" for x by (simp add: AddNode_def)
  ultimately show ?thesis by (simp add: pairMesh_def)
qed

lemma snCall_quiet:
  assumes "calls (eng (f (snEnv W n) (snNode n))) = []"
  shows "snNode (snCall W f n) = (f (snEnv W n) (snNode n))\<lparr>eng := (eng (f (snEnv W n) (snNode n)))\<lparr>calls := [], sent := []\<rparr>\<rparr>"
  using assms by (simp add: snCall_def Let_def case_prod_beta serveCalls_def)

lemma pairNode_fields:
  "snID (pairNode i j) = i" "peerByID (pairNode i j) = [(pairID (hd j), j)]"
  "\<not> stopped (snNode (pairNode i j))" "nid (snNode (pairNode i j)) = pairID (hd i)"
  "cfg (snNode (pairNode i j)) = cfg (snNode (freshNode i))" "store (eng (snNode (pairNode i j))) = newRecordStore"
  "mkeys (ctxBy (peers (eng (snNode (pairNode i j))))) = {pairID (hd j)}"
  "length (ctxBy (peers (eng (snNode (pairNode i j))))) = 1" "treeDeg (eng (snNode (pairNode i j))) = 4"
  "eagerTTL (eng (snNode (pairNode i j))) = 8"
  "gate (eng (snNode (pairNode i j))) = Some (newInboundGate (cfg (snNode (freshNode i))))"
  "hlc (eng (snNode (pairNode i j))) = NewHLC 2000" "priv (snNode (pairNode i j)) = replicate 64 (hd i)"
  by (simp_all add: pairNode_def RegisterPeer_def snCall_quiet OnPeerJoin_def Ensure_def freshNode_fields Let_def)

lemma pairRecord_published: "publishedRecord (snEnv pairWorld (pairNode [97] [98])) (snNode (pairNode [97] [98])) [116] [] [5] = pairRecord"
  by (simp add: publishedRecord_def pairNode_fields pairRecord_def snEnv_def pairWorld_def UnixMilli_def millisecond_def)

lemma pair_welcomes: "welcomes pairWorld (pairNode [98] [97]) pairRecord"
proof -
  have "verified sampleCrypto pairRecord" unfolding pairRecord_def by (rule signRecord_verified [OF sampleCrypto_ok])
  moreover have "fst (Decompose (now_next (NewHLC 2000) 2000)) = 2000" by code_simp
  then have "snd (Admit (newInboundGate (cfg (snNode (freshNode [98])))) 2000 pairRecord) = None"
    by (simp add: Admit_def newInboundGate_def freshNode_fields pairRecord_def signRecord_def Let_def MaxKeyBytes_def
        Milliseconds_def go_quot_def minute_def)
  ultimately show ?thesis
    by (auto simp: welcomes_def acceptable_def verifyInbound_def verified_def pairNode_fields pairWorld_def UnixMilli_def millisecond_def)
qed

lemma pairRecord_applies:
  "fst (snd (ApplyExt newRecordStore nw pairRecord))"
  "slotMap (fst (ApplyExt newRecordStore nw pairRecord)) [116] (RecordKey (pairID 97) []) = Some pairRecord"
proof -
  have own: "\<not> IsObserverAttestation pairRecord" "Topic pairRecord = [116]" "keyOf pairRecord = RecordKey (pairID 97) []"
    by (simp_all add: pairRecord_def IsObserverAttestation_def keyOf_def)
  have none: "slotMap newRecordStore t k = None" for t k by (simp add: slotMap_def newRecordStore_def setCaps_def)
  have slot: "slotMap (fst (ApplyExt newRecordStore nw pairRecord)) (Topic pairRecord) (keyOf pairRecord) = Some pairRecord"
    using ApplyExt_room [OF wf_store_new own(1)] none by (simp add: fits_new)
  then show "slotMap (fst (ApplyExt newRecordStore nw pairRecord)) [116] (RecordKey (pairID 97) []) = Some pairRecord"
    by (simp add: own)
  show "fst (snd (ApplyExt newRecordStore nw pairRecord))"
    using ApplyExt_refused [OF wf_store_new own(1), of nw] slot none by (metis option.distinct(1))
qed

theorem simulated_publish_arrives_witness:
  "\<exists>np'. map_of (meshNodes (meshSteps (swarmOps pairWorld) plainRng 8 (pairMesh\<lparr>meshNodes :=
      AList.update [97] (snPublish pairWorld (pairNode [97] [98]) [116] 0 [5]) (meshNodes pairMesh)\<rparr>))) [98] = Some np' \<and>
    (hasRecord pairRecord (store (eng (snNode np'))) \<or> \<not> fits (store (eng (snNode np'))) 1)"
proof (rule simulated_publish_arrives [where i = "pairID 98" and na = "pairNode [97] [98]" and np = "pairNode [98] [97]"
      and e = "plainEdge 5 2 0 [97] [98]" and a = "[97]" and p = "[98]" and k = 8])
  show "simulated pairWorld plainRng pairMesh" by (rule pairMesh_simulated)
  show "ed25519_ok (wCrypto pairWorld)" by (simp add: pairWorld_def sampleCrypto_ok)
  show "rng_ok plainRng" by (simp add: rng_ok_def plainRng_def)
  show "pairRecord = publishedRecord (snEnv pairWorld (pairNode [97] [98])) (snNode (pairNode [97] [98])) [116] [] [5]"
    by (simp add: pairRecord_published)
  show "fst (snd (ApplyExt (store (eng (snNode (pairNode [97] [98])))) (nowMs (snEnv pairWorld (pairNode [97] [98]))) pairRecord))"
    by (simp add: pairNode_fields pairRecord_applies)
  show "wire_ok (wWire pairWorld) (frameEagerPush pairRecord (eagerTTL (eng (snNode (pairNode [97] [98])))))"
    by (simp add: pairNode_fields pairWorld_def wire_ok_def sampleWire_def)
  show "hears (pairNode [98] [97]) [97]" by (simp add: hears_def pairNode_fields pairID_ne)
qed (simp_all add: pair_welcomes pairNode_fields freshNode_fields pairMesh_def AddEdge_def edgesFrom_def
    NewMesh_def edgeOf_def plainEdge_def slowest_def)

theorem simulation_is_safe_witness:
  "\<exists>n'. map_of (meshNodes (fst (Run (swarmOps pairWorld) plainRng (pairMesh\<lparr>meshNodes :=
      AList.update [97] (snPublish pairWorld (pairNode [97] [98]) [116] 0 [5]) (meshNodes pairMesh)\<rparr>) 500 (\<lambda>_. False)))) [97] = Some n' \<and>
    (\<exists>c. slotMap (store (eng (snNode n'))) [116] (RecordKey (pairID 97) []) = Some c \<and> (c = pairRecord \<or> newer c pairRecord))"
proof -
  let ?n = "snPublish pairWorld (pairNode [97] [98]) [116] 0 [5]"
  let ?m = "pairMesh\<lparr>meshNodes := AList.update [97] ?n (meshNodes pairMesh)\<rparr>"
  have ed: "ed25519_ok (wCrypto pairWorld)" by (simp add: pairWorld_def sampleCrypto_ok)
  have node: "map_of (meshNodes pairMesh) [97] = Some (pairNode [97] [98])" by (simp add: pairMesh_def AddEdge_def)
  have sim: "simulated pairWorld plainRng ?m" by (rule publish_record [OF pairMesh_simulated node])
  have "wired (snNode (pairNode [97] [98]))"
    using simulated_ok [OF pairMesh_simulated ed] node by (simp add: meshOK_def simOK_def nodeOK_def)
  then have "store (eng (snNode ?n)) = fst (ApplyExt newRecordStore (nowMs (snEnv pairWorld (pairNode [97] [98]))) pairRecord)"
    by (simp add: snPublish_def Publish_def PublishKeyed_eq pairNode_fields freshNode_fields pairRecord_published)
  then have "slotMap (store (eng (snNode ?n))) [116] (RecordKey (pairID 97) []) = Some pairRecord"
    by (simp add: pairRecord_applies)
  moreover have "map_of (meshNodes ?m) [97] = Some ?n" by simp
  ultimately show ?thesis using simulation_is_safe [OF sim ed, of "[97]" ?n 500 "\<lambda>_. False"] by auto
qed

end
