(* ===== verification/Spec2Isabelle.thy ===== *)
theory Spec2Isabelle
  imports Subscription Content_Props Lazy_Repair Swarm_Mesh
begin

text \<open>
  A verification development for the swarm gossip library (\<open>src/\<close>): a propagation engine that keeps
  signed, last-writer-wins records of many nodes on many topics, spreads them over a tree of eager
  and a mesh of lazy links, repairs what was missed by Merkle probes, lets a quorum of observers
  retire a dead node, and distributes content by hash.

  \<^bold>\<open>The program.\<close> A node (\<open>node.go\<close>) owns one record store (\<open>crdt.go\<close>), one hybrid clock (\<open>hlc.go\<close>) and
  one peer table (\<open>peer.go\<close>). Once wired to a transport it has two engines over that state: the
  plumtree engine (\<open>plumtrees.go\<close>: eager push, lazy push, graft, prune) and the anti-entropy engine
  (\<open>merkle.go\<close>: roots, probes, ranges). Every record off the wire passes signature verification
  (\<open>sig.go\<close>) and the inbound gate (\<open>harden.go\<close>) before the store sees it; what the store accepts goes to
  subscribers and is pushed on. The content topic (\<open>content_impl.go\<close>, \<open>manifest.go\<close>) listens to adverts
  and fetches chunks by hash. The simulator (\<open>sim/\<close>) runs nodes on a virtual network.

  \<^bold>\<open>Conventions.\<close> Go strings and byte slices are lists of 8-bit words, \<open>uint64\<close> and \<open>int64\<close> are 64-bit words
  with Go's wrap-around, instants and durations are integers of nanoseconds. A Go map is an
  association list with distinct keys; results that could depend on iteration order are stated so
  that they do not. Structs are records, methods are functions on the state, errors are values of
  \<open>error\<close> or of an option, a nil dereference is the outcome \<open>Panics\<close>. A method under a mutex is one
  atomic step. The clocks a call reads are arguments (\<open>env\<close>): \<open>clk_now\<close> is \<open>Config.NowFn\<close>, \<open>clk_wall\<close> is
  \<open>time.Now\<close>. Ed25519 and SHA-256 (\<open>crypto\<close>), protobuf (\<open>wire\<close>, \<open>contentCodec\<close>), \<open>encoding/json\<close>
  (\<open>jsonCodec\<close>) and \<open>math/rand\<close> (\<open>rngOps\<close>) are parameters; \<open>ed25519_ok\<close>, \<open>wire_ok\<close>, \<open>payloads_ok\<close> and
  \<open>rng_ok\<close> name what is relied on, and witnesses instantiate them. \<open>ed25519_ok\<close> is idealised to hold for
  every byte string as private key.

  \<^bold>\<open>Theories.\<close>
  \<^item> \<open>Prelude\<close>, \<open>Swarm_Types\<close> (\<open>swarm.go\<close>, \<open>errors.go\<close>): association lists, \<open>sort.Slice\<close>, lexicographic order,
    durations; \<open>Record\<close>, \<open>Config\<close>, roles, errors.
  \<^item> \<open>Hlc\<close> (\<open>hlc.go\<close>): packing, \<open>Now\<close>, \<open>Observe\<close>; the compare-and-swap loops of concurrent goroutines as a step
    relation. Stamps increase strictly until a counter saturates, and then can go back.
  \<^item> \<open>Sig\<close> (\<open>sig.go\<close>): canonical bytes, both verifiers, the NodeID encoding and its inverse.
  \<^item> \<open>Codec\<close> (\<open>codec.go\<close> and the message types), \<open>Harden\<close> (\<open>harden.go\<close>): frames; admission as the
    conjunction of its checks.
  \<^item> \<open>Lww\<close>: the abstract last-writer-wins map, locale \<open>lww_order\<close>. \<open>Crdt\<close> is \<open>crdt.go\<close>; \<open>Crdt_Inv\<close> its invariant;
    \<open>Crdt_Merge\<close> the refinement of the abstract map and convergence of replicas; \<open>Crdt_Quorum\<close> the
    observer quorum (what it takes, what it does, that a minority does nothing); \<open>Crdt_Advance\<close> that
    deliveries only carry a store forward; \<open>Crdt_Views\<close> reads, caps and the restored-at fence; \<open>Crdt_Reap\<close> retention.
  \<^item> \<open>Peer\<close> (\<open>peer.go\<close>): tree edges, lazy queues, token buckets and their rate.
  \<^item> \<open>Engine\<close>: the state both engines share. \<open>Merkle\<close> (\<open>merkle.go\<close>) and \<open>Merkle_Sync\<close>: roots detect drift, a
    chain of truncated ranges ends and repairs it. \<open>Plumtrees\<close> (\<open>plumtrees.go\<close>), \<open>Plumtrees_Inv\<close> and \<open>Gossip\<close>:
    all engine operations as one step relation, with provenance of records, bounds of every table
    and the graft timer. \<open>Flood\<close>: eager pushes die out in every network. \<open>Lazy_Repair\<close>: announcement,
    graft and answer bring a missing record.
  \<^item> \<open>Topics\<close> (\<open>topics.go\<close>): topic names and when tenants share none.
  \<^item> \<open>Node\<close> (\<open>node.go\<close>), \<open>Node_Props\<close>, \<open>Node_Inv\<close>: construction, life cycle, publishing, subscriptions, role and
    tenant; every method and callback keeps the node well-formed. \<open>Subscription\<close>: replay and live
    delivery interleaved, with what a subscriber is sure to see and what it may see twice.
  \<^item> \<open>Content\<close>, \<open>Content_Props\<close> (\<open>content_impl.go\<close>, \<open>manifest.go\<close>, \<open>content.go\<close>): chunking, manifests, adverts,
    \<open>Fetch\<close> and \<open>FetchBlob\<close>; only verified bytes are returned, blobs come back unchanged.
  \<^item> \<open>Pending_Heap\<close>, \<open>Mesh\<close> (\<open>sim/sim.go\<close>): the heap as a priority queue (locale \<open>frame_queue\<close>), stepping,
    delays and loss; the contract of a simulated node (locale \<open>sim_node\<close>) and what every mesh of such
    nodes guarantees. \<open>Stub_Node\<close> (\<open>sim/stub_node.go\<close>) and \<open>Swarm_Sim\<close>, \<open>Swarm_Mesh\<close> (\<open>sim/swarm_node.go\<close>,
    \<open>testing.go\<close>) are its two instances: flooding converges, and meshes of real nodes are safe and
    deliver what is pushed.

  \<^bold>\<open>How the parts meet.\<close> \<open>ReceiveFrame_store\<close> shows that a frame changes the store only by applying the
  acceptable records it carries, so the store's laws hold at the engines; \<open>engine_step\<close> covers the
  engines' operations, so its invariants hold of every node (\<open>node_step\<close>). Both are relative to a
  \<open>runContext\<close>, which says of a run what its conclusions refer to: the records published locally, the
  wall-clock readings at which frames were handled, and the least quorum in force. The node's methods carry
  stores forward (\<open>advanced\<close>), so \<open>sim_node\<close> holds of the simulated node and its lemmas hold of the mesh.

  \<^bold>\<open>Bounds and fuel.\<close> No definition uses fuel. Loops are structural or have a measure: chunking by the
  bytes left, the heap's \<open>up\<close> and \<open>down\<close> by the index, the delivery loop by the frames pending, \<open>Run\<close>
  by its step limit. The retry loops of the clock are step relations, one swap attempt a step.
  Integers keep their width where the code can overflow (clock counter, window
  subtraction, token refill); lengths are natural numbers.

  \<^bold>\<open>Scope.\<close> Convergence and repair are stated where the caps have room for the deliveries (\<open>fits\<close>) and
  the gate admits them; the range cursor serves every node only when NodeIDs have one length;
  publishing and tenant changes assume that the slots written are not stamped ahead of the node's
  clock. Each property names the conditions it needs, and the flaws behind them are theorems too.

  \<^bold>\<open>Not modelled.\<close> Goroutine and context plumbing of \<open>Start\<close> and \<open>Stop\<close> beyond the state flags; mutexes,
  except where interleaving matters (clock, subscription); what arrives while a fetch blocks is an
  argument of the fetch, and the reuse of pooled channels is left out. Setters of callbacks and of
  the clock (\<open>SetOnApplied\<close>, \<open>SetFetchHandlers\<close>, \<open>SetNowFn\<close>) are part of how state and environment are
  set up. \<open>transport.go\<close> is an interface, \<open>debug.go\<close> and the \<open>doc.go\<close> files hold comments, the generated
  marshalling under \<open>proto/\<close> is a parameter. Accessors that return a field are not repeated.
\<close>

end
